(* ===== verification/Prelude.thy ===== *)
theory Prelude
  imports Complex_Main "HOL-Library.Multiset" "HOL-Library.Code_Target_Nat"
begin

text \<open>
  Shared vocabulary of the development: the type synonyms of the model, Go's 64-bit wrap-around
  on integers, Go's truncating division, and the generic facts about lists, options and
  rationals that the component theories use.
\<close>

named_theorems go_arith \<open>facts about Go's integer arithmetic\<close>
named_theorems float64_simps \<open>facts about float64 rounding\<close>
named_theorems ledger_simps \<open>facts about the admission ledger's state\<close>

section \<open>Go integers\<close>

text \<open>
  Go's \<open>int\<close> and \<open>int64\<close> are 64-bit two's complement; addition and subtraction wrap.
  \<open>wrap64\<close> reduces a mathematical integer to the value the machine holds.
\<close>

definition wrap64 :: "int \<Rightarrow> int" where
  "wrap64 x = (x + 2 ^ 63) mod 2 ^ 64 - 2 ^ 63"

definition in_int64 :: "int \<Rightarrow> bool" where
  "in_int64 x \<longleftrightarrow> - (2 ^ 63) \<le> x \<and> x < 2 ^ 63"

definition add64 :: "int \<Rightarrow> int \<Rightarrow> int" where
  "add64 a b = wrap64 (a + b)"

definition sub64 :: "int \<Rightarrow> int \<Rightarrow> int" where
  "sub64 a b = wrap64 (a - b)"

lemma wrap64_in_range [go_arith]: "in_int64 (wrap64 x)"
proof -
  have "0 \<le> (x + 2 ^ 63) mod 2 ^ 64" and "(x + 2 ^ 63) mod 2 ^ 64 < (2 ^ 64 :: int)"
    by simp_all
  then show ?thesis by (simp add: wrap64_def in_int64_def)
qed

lemma wrap64_id [go_arith]: "in_int64 x \<Longrightarrow> wrap64 x = x"
  by (simp add: wrap64_def in_int64_def)

lemma wrap64_mod [go_arith]: "wrap64 x mod 2 ^ 64 = x mod 2 ^ 64"
  by (simp add: wrap64_def mod_diff_left_eq)

lemma wrap64_eq_iff: "wrap64 x = wrap64 y \<longleftrightarrow> x mod 2 ^ 64 = y mod 2 ^ 64"
proof
  assume "wrap64 x = wrap64 y"
  then show "x mod 2 ^ 64 = y mod 2 ^ 64" by (metis wrap64_mod)
next
  assume "x mod 2 ^ 64 = y mod 2 ^ 64"
  then have "(x + 2 ^ 63) mod 2 ^ 64 = (y + 2 ^ 63) mod 2 ^ 64" by (metis mod_add_left_eq)
  then show "wrap64 x = wrap64 y" by (simp only: wrap64_def)
qed

lemma wrap64_add_left [go_arith]: "wrap64 (wrap64 x + y) = wrap64 (x + y)"
  by (simp only: wrap64_eq_iff) (metis mod_add_left_eq wrap64_mod)

lemma wrap64_add_right [go_arith]: "wrap64 (x + wrap64 y) = wrap64 (x + y)"
  by (metis add.commute wrap64_add_left)

lemma wrap64_diff_left [go_arith]: "wrap64 (wrap64 x - y) = wrap64 (x - y)"
  by (metis diff_conv_add_uminus wrap64_add_left)

lemma wrap64_diff_right [go_arith]: "wrap64 (x - wrap64 y) = wrap64 (x - y)"
  by (simp only: wrap64_eq_iff) (metis mod_diff_right_eq wrap64_mod)

lemmas wrap64_absorb = wrap64_add_left wrap64_add_right wrap64_diff_left wrap64_diff_right

text \<open>Sums of wrapped values: a wrapped value differs from the exact one by a multiple of
  \<open>2 ^ 64\<close>, and two sums wrap to the same value when they differ by such a multiple.\<close>

definition M64 :: int where
  "M64 = 2 ^ 64"

definition wq :: "int \<Rightarrow> int" where
  "wq x = - ((x + 2 ^ 63) div 2 ^ 64)"

lemma wrap64_expand: "wrap64 x = x + M64 * wq x"
  unfolding wrap64_def wq_def M64_def
  using mult_div_mod_eq [of "2 ^ 64" "x + 2 ^ 63"] by linarith

lemma wrap64_eqI: "M64 dvd x - y \<Longrightarrow> wrap64 x = wrap64 y"
  unfolding wrap64_eq_iff M64_def by (simp only: mod_eq_dvd_iff)

text \<open>Go's \<open>/\<close> on integers truncates towards zero.\<close>

definition go_div :: "int \<Rightarrow> int \<Rightarrow> int" where
  "go_div a b = sgn a * sgn b * (\<bar>a\<bar> div \<bar>b\<bar>)"

lemma go_div_nonneg [go_arith]: "0 \<le> a \<Longrightarrow> 0 < b \<Longrightarrow> go_div a b = a div b"
  by (cases "a = 0") (simp_all add: go_div_def)

lemma go_div_neg [go_arith]: "a \<le> 0 \<Longrightarrow> 0 < b \<Longrightarrow> go_div a b = - ((- a) div b)"
  by (cases "a = 0") (simp_all add: go_div_def)

section \<open>Results\<close>

text \<open>A Go function that returns \<open>(T, error)\<close> is a sum: \<open>Inl\<close> the error, \<open>Inr\<close> the value.\<close>

fun is_ok :: "'e + 'a \<Rightarrow> bool" where
  "is_ok (Inl e) = False"
| "is_ok (Inr a) = True"

lemma is_ok_iff: "is_ok r \<longleftrightarrow> (\<exists>a. r = Inr a)"
  by (cases r) auto

section \<open>Lists\<close>

lemma sum_list_update_eq:
  fixes xs :: "int list"
  assumes "i < length xs"
  shows "sum_list (xs[i := v]) = sum_list xs - xs ! i + v"
  using assms by (induction xs arbitrary: i) (auto split: nat.splits)

lemma filter_sum_split:
  "length (filter P xs) + length (filter (\<lambda>x. \<not> P x) xs) = length xs"
  by (rule sum_length_filter_compl)

lemma dropWhile_length_le [simp]: "length (dropWhile P xs) \<le> length xs"
  by (simp add: length_dropWhile_le)

lemma sorted_le_last: "sorted xs \<Longrightarrow> x \<in> set xs \<Longrightarrow> x \<le> last xs"
  by (induction xs) auto

section \<open>Indexing and order statistics\<close>

text \<open>A Go slice access: \<open>None\<close> is the run-time panic out of range.\<close>

definition go_nth :: "'a list \<Rightarrow> int \<Rightarrow> 'a option" where
  "go_nth xs i = (if 0 \<le> i \<and> i < int (length xs) then Some (xs ! nat i) else None)"

lemma go_nth_Some [simp]: "0 \<le> i \<Longrightarrow> i < int (length xs) \<Longrightarrow> go_nth xs i = Some (xs ! nat i)"
  by (simp add: go_nth_def)

lemma sorted_nth_le_iff:
  assumes "sorted xs" and "k < length xs"
  shows "xs ! k \<le> L \<longleftrightarrow> k < length (filter (\<lambda>x. x \<le> L) xs)"
  using assms
proof (induction xs arbitrary: k)
  case (Cons x xs)
  show ?case
  proof (cases "x \<le> L")
    case True
    with Cons show ?thesis by (cases k) simp_all
  next
    case False
    then have "filter (\<lambda>y. y \<le> L) (x # xs) = []"
      using Cons.prems(1) by (auto simp: filter_empty_conv)
    moreover have "x \<le> (x # xs) ! k" using Cons.prems by (cases k) (auto dest: nth_mem)
    ultimately show ?thesis using False by auto
  qed
qed simp

lemma length_filter_sort: "length (filter P (sort xs)) = length (filter P xs)"
  by (metis mset_filter mset_sort size_mset)

lemma sort_nth_ranks:
  fixes xs :: "'a :: linorder list"
  assumes "k < length xs"
  shows "sort xs ! k \<in> set xs" and "length (filter (\<lambda>x. x < sort xs ! k) xs) \<le> k"
    and "length (filter (\<lambda>x. sort xs ! k < x) xs) + k < length xs"
proof -
  let ?s = "sort xs"
  show "?s ! k \<in> set xs" using assms by (metis length_sort nth_mem set_sort)
  have "\<forall>x\<in>set (drop k ?s). \<not> x < ?s ! k"
  proof
    fix x assume "x \<in> set (drop k ?s)"
    then obtain i where "i < length ?s - k" "x = ?s ! (k + i)" by (auto simp: in_set_conv_nth)
    then show "\<not> x < ?s ! k" using sorted_nth_mono [of ?s k "k + i"] by (simp add: not_less)
  qed
  then have "filter (\<lambda>x. x < ?s ! k) (drop k ?s) = []" by (simp add: filter_empty_conv)
  then have "filter (\<lambda>x. x < ?s ! k) ?s = filter (\<lambda>x. x < ?s ! k) (take k ?s)" by (metis append.right_neutral append_take_drop_id filter_append)
  then have "length (filter (\<lambda>x. x < ?s ! k) ?s) \<le> length (take k ?s)" by (metis length_filter_le)
  then show "length (filter (\<lambda>x. x < ?s ! k) xs) \<le> k" using assms by (simp add: length_filter_sort)
  have "k < length (filter (\<lambda>x. x \<le> ?s ! k) xs)"
    using sorted_nth_le_iff [of ?s k "?s ! k"] assms by (simp add: length_filter_sort)
  moreover have "length (filter (\<lambda>x. x \<le> ?s ! k) xs) + length (filter (\<lambda>x. ?s ! k < x) xs) = length xs"
    using filter_sum_split [of "\<lambda>x. x \<le> ?s ! k" xs] by (simp add: not_le)
  ultimately show "length (filter (\<lambda>x. ?s ! k < x) xs) + k < length xs" by linarith
qed

text \<open>The ceiling rank of percentile \<open>p\<close> among \<open>n\<close> values, as the code computes it.\<close>

lemma ceil_rank:
  fixes n p :: nat
  assumes "0 < n" and "0 < p" and "p \<le> 100"
  shows "1 \<le> (n * p + 99) div 100" and "(n * p + 99) div 100 \<le> n"
    and "(n * p + 99) div 100 \<le> m \<longleftrightarrow> n * p \<le> 100 * m"
proof -
  have "1 \<le> n * p" using assms by (simp add: Suc_leI)
  moreover have "n * p \<le> n * 100" using assms(3) by (intro mult_left_mono) simp_all
  ultimately show "1 \<le> (n * p + 99) div 100" and "(n * p + 99) div 100 \<le> n" by linarith+
  show "(n * p + 99) div 100 \<le> m \<longleftrightarrow> n * p \<le> 100 * m" by linarith
qed

lemma ceil_order_stat:
  fixes xs :: "'a :: linorder list"
  assumes "xs \<noteq> []" and "0 < p" and "p \<le> 100"
  obtains v where "go_nth (sort xs) ((int (length xs) * int p + 99) div 100 - 1) = Some v"
    and "\<And>L. v \<le> L \<longleftrightarrow> p * length xs \<le> 100 * length (filter (\<lambda>x. x \<le> L) xs)"
proof -
  let ?s = "sort xs" and ?n = "length xs"
  have n: "0 < ?n" using assms by simp
  define k where "k = (?n * p + 99) div 100"
  have k: "1 \<le> k" "k \<le> ?n" and k_iff: "\<And>m. k \<le> m \<longleftrightarrow> ?n * p \<le> 100 * m"
    unfolding k_def using ceil_rank [OF n assms(2,3)] by simp_all
  have "(int ?n * int p + 99) div 100 = int k" by (simp add: k_def zdiv_int)
  then have idx: "(int ?n * int p + 99) div 100 - 1 = int (k - 1)" using k(1) by linarith
  have lt: "k - 1 < ?n" using k by linarith
  have "go_nth ?s ((int ?n * int p + 99) div 100 - 1) = Some (?s ! (k - 1))"
    unfolding idx using lt by (simp add: go_nth_def)
  moreover have "?s ! (k - 1) \<le> L \<longleftrightarrow> p * ?n \<le> 100 * length (filter (\<lambda>x. x \<le> L) xs)" for L
  proof -
    have "?s ! (k - 1) \<le> L \<longleftrightarrow> k - 1 < length (filter (\<lambda>x. x \<le> L) xs)"
      using sorted_nth_le_iff [of ?s "k - 1" L] lt by (simp add: length_filter_sort)
    also have "\<dots> \<longleftrightarrow> k \<le> length (filter (\<lambda>x. x \<le> L) xs)" using k(1) by linarith
    finally show ?thesis unfolding k_iff by (simp only: mult.commute)
  qed
  ultimately show thesis by (rule that)
qed

lemma max_order_stat:
  fixes xs :: "'a :: linorder list"
  assumes "xs \<noteq> []"
  obtains v where "go_nth (sort xs) (int (length xs) - 1) = Some v" and "\<And>L. v \<le> L \<longleftrightarrow> (\<forall>x\<in>set xs. x \<le> L)"
proof -
  have "(int (length xs) * int 100 + 99) div 100 - 1 = int (length xs) - 1" by linarith
  then obtain v where v: "go_nth (sort xs) (int (length xs) - 1) = Some v"
    and le: "\<And>L. v \<le> L \<longleftrightarrow> 100 * length xs \<le> 100 * length (filter (\<lambda>x. x \<le> L) xs)"
    using ceil_order_stat [OF assms, of 100] by (metis le_refl zero_less_numeral)
  have "v \<le> L \<longleftrightarrow> (\<forall>x\<in>set xs. x \<le> L)" for L
  proof -
    have "v \<le> L \<longleftrightarrow> length xs \<le> length (filter (\<lambda>x. x \<le> L) xs)" by (simp add: le)
    also have "\<dots> \<longleftrightarrow> (\<forall>x\<in>set xs. x \<le> L)"
      by (auto simp: filter_True dest: length_filter_less [of _ _ "\<lambda>x. x \<le> L"])
    finally show ?thesis .
  qed
  with v show thesis by (rule that)
qed

end
