(* ===== verification/Decimal.thy ===== *)
theory Decimal
  imports Prelude
begin

text \<open>
  The decimal amounts of the admission ledger (\<^verbatim>\<open>internal/admission/ledger.go\<close>): the
  regular expression and parser \<open>decimal\<close>, the printer \<open>decimalString\<close> with
  \<open>big.Rat.FloatString\<close> (round half away from zero at \<open>p\<close> digits), and \<open>perRequest\<close>.
  A \<open>*big.Rat\<close> is a \<open>rat\<close>. The main results are the round trip through the printed form
  and that the printed form determines the amount, which the ledger relies on when it compares
  amounts as strings.
\<close>

section \<open>Digits\<close>

definition digit_char :: "nat \<Rightarrow> char" where
  "digit_char d = char_of (48 + d)"

definition is_digit :: "char \<Rightarrow> bool" where
  "is_digit ch \<longleftrightarrow> 48 \<le> (of_char ch :: nat) \<and> (of_char ch :: nat) \<le> 57"

definition digit_val :: "char \<Rightarrow> nat" where
  "digit_val ch = of_char ch - 48"

text \<open>\<open>strconv\<close>'s base 10 form of a natural number, without leading zeros.\<close>

fun nat_digits :: "nat \<Rightarrow> string" where
  "nat_digits n = (if n < 10 then [digit_char n] else nat_digits (n div 10) @ [digit_char (n mod 10)])"

declare nat_digits.simps [simp del]

definition digits_val :: "string \<Rightarrow> nat" where
  "digits_val ds = foldl (\<lambda>acc ch. acc * 10 + digit_val ch) 0 ds"

lemma digit_char_props:
  assumes "d < 10"
  shows "is_digit (digit_char d)" and "digit_val (digit_char d) = d"
  using assms by (simp_all add: is_digit_def digit_val_def digit_char_def)

lemma digits_val_snoc: "digits_val (ds @ [ch]) = digits_val ds * 10 + digit_val ch"
  by (simp add: digits_val_def)

lemma digits_val_Nil [simp]: "digits_val [] = 0"
  by (simp add: digits_val_def)

lemma nat_digits_val [simp]: "digits_val (nat_digits n) = n"
proof (induction n rule: nat_digits.induct)
  case (1 n)
  show ?case
  proof (cases "n < 10")
    case True
    then show ?thesis
      using digits_val_snoc [of "[]" "digit_char n"] by (simp add: nat_digits.simps [of n] digit_char_props)
  next
    case False
    with 1 show ?thesis
      by (simp add: nat_digits.simps [of n] digits_val_snoc digit_char_props)
  qed
qed

lemma nat_digits_is_digit: "ch \<in> set (nat_digits n) \<Longrightarrow> is_digit ch"
proof (induction n rule: nat_digits.induct)
  case (1 n)
  show ?case
  proof (cases "n < 10")
    case True
    with "1.prems" show ?thesis by (simp add: nat_digits.simps [of n] digit_char_props)
  next
    case False
    with 1 show ?thesis by (auto simp: nat_digits.simps [of n] digit_char_props)
  qed
qed

lemma nat_digits_nonempty [simp]: "nat_digits n \<noteq> []"
  by (subst nat_digits.simps) simp

lemma nat_digits_length: "n < 10 ^ p \<Longrightarrow> 0 < p \<Longrightarrow> length (nat_digits n) \<le> p"
proof (induction n arbitrary: p rule: nat_digits.induct)
  case (1 n)
  show ?case
  proof (cases "n < 10")
    case True
    with "1.prems" show ?thesis by (simp add: nat_digits.simps [of n])
  next
    case False
    then obtain k where k: "p = Suc k" "0 < k" using "1.prems" by (cases p; cases "p = 1") auto
    have "n div 10 < 10 ^ k" using "1.prems" k by (simp add: less_mult_imp_div_less mult.commute)
    from "1.IH" [OF False this k(2)] False show ?thesis by (simp add: nat_digits.simps [of n] k)
  qed
qed

text \<open>No leading zero, except the number zero itself.\<close>

lemma nat_digits_hd: "0 < n \<Longrightarrow> hd (nat_digits n) \<noteq> CHR ''0''"
proof (induction n rule: nat_digits.induct)
  case (1 n)
  show ?case
  proof (cases "n < 10")
    case True
    have "digit_val (digit_char n) = n" using True by (rule digit_char_props)
    moreover have "digit_val CHR ''0'' = 0" by (simp add: digit_val_def)
    ultimately show ?thesis using "1.prems" True by (metis list.sel(1) nat_digits.simps neq0_conv)
  next
    case False
    with "1.IH" show ?thesis by (simp add: nat_digits.simps [of n])
  qed
qed

lemma nat_digits_0: "nat_digits 0 = ''0''"
proof -
  have "digit_char 0 = CHR ''0''" by code_simp
  then show ?thesis by (subst nat_digits.simps) simp
qed

definition pad_digits :: "nat \<Rightarrow> nat \<Rightarrow> string" where
  "pad_digits p n = replicate (p - length (nat_digits n)) (CHR ''0'') @ nat_digits n"

lemma digits_val_zeros: "digits_val (replicate k (CHR ''0'') @ ds) = digits_val ds"
proof (induction k)
  case (Suc k)
  have "digits_val (CHR ''0'' # xs) = digits_val xs" for xs
    by (simp add: digits_val_def digit_val_def)
  then show ?case using Suc by simp
qed simp

lemma pad_digits_val [simp]: "digits_val (pad_digits p n) = n"
  by (simp add: pad_digits_def digits_val_zeros)

lemma pad_digits_length: "n < 10 ^ p \<Longrightarrow> 0 < p \<Longrightarrow> length (pad_digits p n) = p"
  using nat_digits_length [of n p] by (simp add: pad_digits_def)

lemma is_digit_0: "is_digit (CHR ''0'')"
  by (simp add: is_digit_def)

lemma pad_digits_is_digit: "ch \<in> set (pad_digits p n) \<Longrightarrow> is_digit ch"
  using is_digit_0 by (auto simp: pad_digits_def nat_digits_is_digit split: if_splits)

section \<open>Parsing\<close>

text \<open>The regular expression \<^verbatim>\<open>^(0|[1-9][0-9]*)(\.[0-9]+)?$\<close>: the integer part, and what
  follows it.\<close>

definition int_part :: "string \<Rightarrow> string" where
  "int_part s = takeWhile is_digit s"

definition matches_int :: "string \<Rightarrow> bool" where
  "matches_int ds \<longleftrightarrow> ds = ''0'' \<or> (ds \<noteq> [] \<and> hd ds \<noteq> CHR ''0'')"

definition matches_frac :: "string \<Rightarrow> bool" where
  "matches_frac r \<longleftrightarrow> r = [] \<or> (hd r = CHR ''.'' \<and> tl r \<noteq> [] \<and> list_all is_digit (tl r))"

definition decimalRe :: "string \<Rightarrow> bool" where
  "decimalRe s \<longleftrightarrow> matches_int (int_part s) \<and> matches_frac (dropWhile is_digit s)"

text \<open>\<open>big.Rat.SetString\<close> on a string of the form \<^verbatim>\<open>-?digits(.digits)?\<close>: the digits as an
  integer over \<open>10\<close> to the number of digits after the point.\<close>

definition unsigned_rat :: "string \<Rightarrow> rat" where
  "unsigned_rat s = (let i = takeWhile is_digit s; f = tl (dropWhile is_digit s)
     in of_nat (digits_val (i @ f)) / 10 ^ length f)"

definition set_string :: "string \<Rightarrow> rat" where
  "set_string s = (if s \<noteq> [] \<and> hd s = CHR ''-'' then - unsigned_rat (tl s) else unsigned_rat s)"

definition decimal :: "string \<Rightarrow> rat option" where
  "decimal s = (if decimalRe s then Some (set_string s) else None)"

section \<open>Printing\<close>

text \<open>\<open>Rat.FloatString(p)\<close>: the absolute value times \<open>10 ^ p\<close>, rounded half up, written with
  \<open>p\<close> digits after the point.\<close>

definition scaled :: "nat \<Rightarrow> rat \<Rightarrow> nat" where
  "scaled p r = nat \<lfloor>\<bar>r\<bar> * 10 ^ p + 1 / 2\<rfloor>"

definition float_string :: "nat \<Rightarrow> rat \<Rightarrow> string" where
  "float_string p r =
     (if r < 0 then ''-'' else '''') @ nat_digits (scaled p r div 10 ^ p)
     @ (if 0 < p then CHR ''.'' # pad_digits p (scaled p r mod 10 ^ p) else '''')"

definition int_digits :: "int \<Rightarrow> string" where
  "int_digits i = (if i < 0 then ''-'' else '''') @ nat_digits (nat \<bar>i\<bar>)"

text \<open>\<open>Rat.RatString\<close>: \<^verbatim>\<open>a/b\<close>, or \<^verbatim>\<open>a\<close> for an integer.\<close>

definition rat_string :: "rat \<Rightarrow> string" where
  "rat_string r = (case quotient_of r of (a, b) \<Rightarrow>
     if b = 1 then int_digits a else int_digits a @ CHR ''/'' # int_digits b)"

text \<open>The loop of \<open>decimalString\<close>: the first of 64 precisions that is exact.\<close>

fun decimal_search :: "nat \<Rightarrow> nat \<Rightarrow> rat \<Rightarrow> string" where
  "decimal_search 0 p r = rat_string r"
| "decimal_search (Suc k) p r =
     (if set_string (float_string p r) = r then float_string p r else decimal_search k (Suc p) r)"

definition decimalString :: "rat \<Rightarrow> string" where
  "decimalString r = decimal_search 64 0 r"

text \<open>The price of one request at \<open>inTok\<close> input and \<open>outTok\<close> output tokens.\<close>

definition perRequest :: "rat \<Rightarrow> rat \<Rightarrow> int \<Rightarrow> int \<Rightarrow> rat" where
  "perRequest pin pout inTok outTok = (pin * of_int inTok + pout * of_int outTok) / 1000000"

section \<open>Round trip\<close>

lemma not_digit [simp]: "\<not> is_digit (CHR ''.'')" "\<not> is_digit (CHR ''-'')" "\<not> is_digit (CHR ''/'')"
  by (simp_all add: is_digit_def)

lemma takeWhile_digits:
  assumes "\<forall>ch\<in>set ds. is_digit ch" and "r = [] \<or> \<not> is_digit (hd r)"
  shows "takeWhile is_digit (ds @ r) = ds" and "dropWhile is_digit (ds @ r) = r"
  using assms by (cases r; simp add: takeWhile_append2 dropWhile_append2)+

lemma digits_val_append: "digits_val (a @ b) = digits_val a * 10 ^ length b + digits_val b"
proof (induction b rule: rev_induct)
  case (snoc x xs)
  have "digits_val (a @ xs @ [x]) = digits_val (a @ xs) * 10 + digit_val x"
    using digits_val_snoc [of "a @ xs" x] by simp
  with snoc show ?case by (simp add: digits_val_snoc algebra_simps)
qed simp

definition frac_string :: "nat \<Rightarrow> nat \<Rightarrow> string" where
  "frac_string p n = nat_digits (n div 10 ^ p) @ (if 0 < p then CHR ''.'' # pad_digits p (n mod 10 ^ p) else [])"

lemma float_string_frac: "float_string p r = (if r < 0 then ''-'' else []) @ frac_string p (scaled p r)"
  by (simp add: float_string_def frac_string_def)

lemma frac_string_split:
  "takeWhile is_digit (frac_string p n) = nat_digits (n div 10 ^ p)"
  "dropWhile is_digit (frac_string p n) = (if 0 < p then CHR ''.'' # pad_digits p (n mod 10 ^ p) else [])"
  unfolding frac_string_def using nat_digits_is_digit by (intro takeWhile_digits; auto)+

lemma unsigned_rat_frac: "unsigned_rat (frac_string p n) = of_nat n / 10 ^ p"
proof (cases "0 < p")
  case True
  let ?i = "nat_digits (n div 10 ^ p)" and ?f = "pad_digits p (n mod 10 ^ p)"
  have len: "length ?f = p" using True by (intro pad_digits_length) simp_all
  have "digits_val (?i @ ?f) = n div 10 ^ p * 10 ^ p + n mod 10 ^ p"
    by (simp add: digits_val_append len)
  then have "digits_val (?i @ ?f) = n" by (simp only: div_mult_mod_eq)
  then show ?thesis using True len by (simp add: unsigned_rat_def frac_string_split Let_def)
next
  case False
  then show ?thesis by (simp add: unsigned_rat_def frac_string_split Let_def)
qed

lemma frac_string_hd: "frac_string p n \<noteq> [] \<and> hd (frac_string p n) \<noteq> CHR ''-''"
proof -
  have "hd (nat_digits m) \<in> set (nat_digits m)" for m by simp
  then have "hd (nat_digits m) \<noteq> CHR ''-''" for m using nat_digits_is_digit not_digit(2) by metis
  then show ?thesis by (simp add: frac_string_def)
qed

lemma set_string_float: "set_string (float_string p r) = (if r < 0 then - 1 else 1) * (of_nat (scaled p r) / 10 ^ p)"
  using frac_string_hd [of p "scaled p r"]
  by (auto simp: float_string_frac set_string_def unsigned_rat_frac)

lemma frac_string_decimalRe: "decimalRe (frac_string p n)"
proof -
  have "matches_int (nat_digits m)" for m
    using nat_digits_hd [of m] nat_digits_0 by (cases "m = 0") (simp_all add: matches_int_def)
  moreover have "matches_frac (CHR ''.'' # pad_digits p m)" for m
    using pad_digits_is_digit by (auto simp: matches_frac_def pad_digits_def list_all_iff)
  ultimately show ?thesis
    by (simp add: decimalRe_def int_part_def frac_string_split matches_frac_def)
qed

lemma decimal_float_string: "0 \<le> r \<Longrightarrow> decimal (float_string p r) = Some (of_nat (scaled p r) / 10 ^ p)"
  using set_string_float [of p r] frac_string_decimalRe [of p "scaled p r"]
  by (simp add: decimal_def float_string_frac)

lemma scaled_exact: "0 \<le> r \<Longrightarrow> r * 10 ^ p = of_nat m \<Longrightarrow> scaled p r = m"
proof -
  assume "0 \<le> r" and "r * 10 ^ p = of_nat m"
  then have "\<lfloor>\<bar>r\<bar> * 10 ^ p + 1 / 2\<rfloor> = int m" by (intro floor_unique) simp_all
  then show ?thesis by (simp add: scaled_def)
qed

definition exact_at :: "nat \<Rightarrow> rat \<Rightarrow> bool" where
  "exact_at p r \<longleftrightarrow> set_string (float_string p r) = r"

lemma exact_atI: "0 \<le> r \<Longrightarrow> r * 10 ^ p = of_nat m \<Longrightarrow> exact_at p r"
  by (simp add: exact_at_def set_string_float scaled_exact field_simps)

text \<open>The search either stops at an exact precision or falls through to the fraction.\<close>

lemma decimal_search_cases:
  "(\<exists>q. p \<le> q \<and> q < p + k \<and> exact_at q r \<and> decimal_search k p r = float_string q r)
   \<or> ((\<forall>q. p \<le> q \<and> q < p + k \<longrightarrow> \<not> exact_at q r) \<and> decimal_search k p r = rat_string r)"
proof (induction k arbitrary: p)
  case (Suc k)
  show ?case
  proof (cases "exact_at p r")
    case True
    then show ?thesis by (intro disjI1 exI [of _ p]) (simp add: exact_at_def)
  next
    case False
    then have eq: "decimal_search (Suc k) p r = decimal_search k (Suc p) r" by (simp add: exact_at_def)
    from Suc.IH [of "Suc p"] show ?thesis unfolding eq
    proof (elim disjE exE conjE)
      fix q assume "Suc p \<le> q" "q < Suc p + k" "exact_at q r" "decimal_search k (Suc p) r = float_string q r"
      then show "(\<exists>q\<ge>p. q < p + Suc k \<and> exact_at q r \<and> decimal_search k (Suc p) r = float_string q r)
        \<or> (\<forall>q. p \<le> q \<and> q < p + Suc k \<longrightarrow> \<not> exact_at q r) \<and> decimal_search k (Suc p) r = rat_string r"
        by (intro disjI1 exI [of _ q]) auto
    next
      assume "\<forall>q. Suc p \<le> q \<and> q < Suc p + k \<longrightarrow> \<not> exact_at q r" "decimal_search k (Suc p) r = rat_string r"
      with False show "(\<exists>q\<ge>p. q < p + Suc k \<and> exact_at q r \<and> decimal_search k (Suc p) r = float_string q r)
        \<or> (\<forall>q. p \<le> q \<and> q < p + Suc k \<longrightarrow> \<not> exact_at q r) \<and> decimal_search k (Suc p) r = rat_string r"
        by (intro disjI2) (metis Suc_leI add_Suc_right add_Suc order_le_imp_less_or_eq)
    qed
  qed
qed auto

lemma decimalString_cases:
  obtains q where "q < 64" and "exact_at q r" and "decimalString r = float_string q r"
  | "\<forall>q<64. \<not> exact_at q r" and "decimalString r = rat_string r"
  using decimal_search_cases [of 0 64 r] by (auto simp: decimalString_def)

lemma decimal_decimalString:
  assumes "0 \<le> r" and "r * 10 ^ k = of_nat m" and "k < 64"
  shows "decimal (decimalString r) = Some r"
proof (cases r rule: decimalString_cases)
  case (1 q)
  then show ?thesis
    using assms(1) set_string_float [of q r] by (simp add: decimal_float_string exact_at_def)
next
  case 2
  with exact_atI [OF assms(1,2)] assms(3) show ?thesis by blast
qed

lemma decimal_unsigned:
  assumes "decimal s = Some r"
  shows "r = unsigned_rat s"
proof -
  from assms have re: "decimalRe s" and r: "r = set_string s" by (auto simp: decimal_def split: if_splits)
  have "\<not> (s \<noteq> [] \<and> hd s = CHR ''-'')"
    using re by (cases s) (auto simp: decimalRe_def int_part_def matches_int_def)
  with r show ?thesis by (simp add: set_string_def)
qed

lemma decimal_nonneg: "decimal s = Some r \<Longrightarrow> 0 \<le> r"
  by (auto dest!: decimal_unsigned simp: unsigned_rat_def Let_def)

lemma decimal_scale:
  "decimal s = Some r \<Longrightarrow> r * 10 ^ length (tl (dropWhile is_digit s)) =
     of_nat (digits_val (takeWhile is_digit s @ tl (dropWhile is_digit s)))"
  by (auto dest!: decimal_unsigned simp: unsigned_rat_def Let_def)

section \<open>The printed form determines the amount\<close>

lemma slash_notin_float: "CHR ''/'' \<notin> set (float_string p r)"
  by (auto simp: float_string_def dest!: nat_digits_is_digit pad_digits_is_digit)

lemma int_digits_split:
  assumes "0 \<le> a"
  shows "takeWhile is_digit (int_digits a @ CHR ''/'' # xs) = nat_digits (nat a)"
    and "dropWhile is_digit (int_digits a @ CHR ''/'' # xs) = CHR ''/'' # xs"
  using takeWhile_digits [of "nat_digits (nat a)" "CHR ''/'' # xs"] nat_digits_is_digit assms
  by (auto simp: int_digits_def)

lemma nat_digits_inj: "nat_digits a = nat_digits b \<Longrightarrow> a = b"
  by (metis nat_digits_val)

lemma rat_string_fraction:
  assumes "0 \<le> r" and "\<not> exact_at 0 r"
  obtains a b where "quotient_of r = (a, b)" and "0 \<le> a" and "0 < b"
    and "rat_string r = int_digits a @ CHR ''/'' # int_digits b"
proof -
  obtain a b where q: "quotient_of r = (a, b)" by (cases "quotient_of r")
  have b: "0 < b" using quotient_of_denom_pos [OF q] .
  have r: "r = of_int a / of_int b" using quotient_of_div [OF q] .
  have a: "0 \<le> a" using assms(1) r b by (simp add: zero_le_divide_iff)
  have "b \<noteq> 1"
  proof
    assume "b = 1"
    then have "r * 10 ^ 0 = of_nat (nat a)" using r a by simp
    with exact_atI [OF assms(1)] assms(2) show False by blast
  qed
  with that q a b show thesis by (simp add: rat_string_def)
qed

lemma decimalString_inj:
  assumes "0 \<le> r" and "0 \<le> s" and "decimalString r = decimalString s"
  shows "r = s"
proof (cases r rule: decimalString_cases)
  case r1: (1 p)
  show ?thesis
  proof (cases s rule: decimalString_cases)
    case (1 q)
    with r1 assms(3) show ?thesis by (metis exact_at_def)
  next
    case 2
    then have "\<not> exact_at 0 s" by simp
    from rat_string_fraction [OF assms(2) this] have "CHR ''/'' \<in> set (rat_string s)"
      by (metis in_set_conv_decomp)
    with r1 2 assms(3) slash_notin_float show ?thesis by metis
  qed
next
  case r2: 2
  then have "\<not> exact_at 0 r" by simp
  from rat_string_fraction [OF assms(1) this] obtain a b where r: "quotient_of r = (a, b)" "0 \<le> a" "0 < b"
    "rat_string r = int_digits a @ CHR ''/'' # int_digits b" by metis
  show ?thesis
  proof (cases s rule: decimalString_cases)
    case (1 q)
    have "CHR ''/'' \<in> set (rat_string r)" by (simp add: r(4))
    with 1 r2 assms(3) slash_notin_float show ?thesis by metis
  next
    case 2
    then have "\<not> exact_at 0 s" by simp
    from rat_string_fraction [OF assms(2) this] obtain c d where s: "quotient_of s = (c, d)" "0 \<le> c" "0 < d"
      "rat_string s = int_digits c @ CHR ''/'' # int_digits d" by metis
    have eq: "int_digits a @ CHR ''/'' # int_digits b = int_digits c @ CHR ''/'' # int_digits d"
      using assms(3) 2(2) r2(2) r(4) s(4) by simp
    have "nat_digits (nat a) = nat_digits (nat c)"
      using arg_cong [OF eq, of "takeWhile is_digit"] r(2) s(2) by (simp only: int_digits_split)
    moreover have "int_digits b = int_digits d"
      using arg_cong [OF eq, of "dropWhile is_digit"] r(2) s(2) by (simp add: int_digits_split)
    ultimately have "nat a = nat c" "nat b = nat d"
      using nat_digits_inj r s by (auto simp: int_digits_def)
    then have "a = c" "b = d" using r s by auto
    then show ?thesis using quotient_of_div [OF r(1)] quotient_of_div [OF s(1)] by simp
  qed
qed

section \<open>Properties\<close>

definition frac_digits :: "string \<Rightarrow> nat" where
  "frac_digits s = length (tl (dropWhile is_digit s))"

lemma decimal_grid:
  assumes "decimal s = Some r" and "frac_digits s \<le> k"
  shows "\<exists>m. r * 10 ^ k = of_nat m"
proof -
  obtain m where m: "r * 10 ^ frac_digits s = of_nat m" using decimal_scale [OF assms(1)] by (auto simp: frac_digits_def)
  have "r * 10 ^ k = of_nat (m * 10 ^ (k - frac_digits s))"
    using assms(2) by (simp add: flip: m) (simp add: mult.assoc flip: power_add)
  then show ?thesis by blast
qed

text \<open>Claim C39. A per-request price computed from two list prices and two token bounds is written in
  full and reads back as the same amount, when the list prices have at most 57 decimal places (the
  printer tries 64 and a price per million adds six). An amount is thus never changed by its line.\<close>

theorem per_request_price_round_trips:
  assumes "decimal sIn = Some pin" and "decimal sOut = Some pout"
    and "frac_digits sIn \<le> 57" and "frac_digits sOut \<le> 57" and "0 \<le> i" and "0 \<le> j"
  shows "decimal (decimalString (perRequest pin pout i j)) = Some (perRequest pin pout i j)"
proof -
  obtain m where m: "pin * 10 ^ 57 = of_nat m" using decimal_grid [OF assms(1,3)] by blast
  obtain n where n: "pout * 10 ^ 57 = of_nat n" using decimal_grid [OF assms(2,4)] by blast
  have "perRequest pin pout i j * 10 ^ 63 = (pin * 10 ^ 57) * of_int i + (pout * 10 ^ 57) * of_int j"
    by (simp add: perRequest_def field_simps)
  also have "\<dots> = of_nat (m * nat i + n * nat j)" using assms(5,6) by (simp only: m n) simp
  finally have "perRequest pin pout i j * 10 ^ 63 = of_nat (m * nat i + n * nat j)" .
  moreover have "0 \<le> perRequest pin pout i j"
    using decimal_nonneg [OF assms(1)] decimal_nonneg [OF assms(2)] assms(5,6) by (simp add: perRequest_def)
  ultimately show ?thesis using decimal_decimalString [where k = 63] by fastforce
qed

theorem per_request_price_round_trips_witness:
  "decimal (decimalString (perRequest (5 / 2) 10 2000 4096)) = Some (perRequest (5 / 2) 10 2000 4096)"
proof -
  have "decimal ''2.50'' = Some (5 / 2)" "decimal ''10'' = Some 10" by code_simp+
  moreover have "frac_digits ''2.50'' \<le> 57" "frac_digits ''10'' \<le> 57" by code_simp+
  ultimately show ?thesis
    using per_request_price_round_trips [of "''2.50''" "5 / 2" "''10''" 10 2000 4096] by simp
qed

text \<open>The printed form determines the amount, terminating decimal or not: two amounts that
  are written alike are equal. Comparing the text of a price with the text of the recomputed price, as
  the replay does, is therefore comparing the amounts.\<close>

theorem decimalString_determines_amount:
  assumes "0 \<le> r" and "0 \<le> s"
  shows "decimalString r = decimalString s \<longleftrightarrow> r = s"
  using decimalString_inj [OF assms] by blast

theorem decimalString_determines_amount_witness:
  "decimalString (1 / 4) = decimalString (2 / 8) \<longleftrightarrow> (1 / 4 :: rat) = 2 / 8"
  by (rule decimalString_determines_amount) simp_all

end
