(* ===== verification/Calendar.thy ===== *)
theory Calendar
  imports Decimal
begin

text \<open>
  UTC calendar dates as the sources use them through Go's \<open>time\<close> package: \<open>time.Parse\<close> with
  the layout \<^verbatim>\<open>2006-01-02\<close>, \<open>AddDate(0, 0, 1)\<close>, \<open>Weekday\<close>, the distance between two
  dates, and \<open>Format\<close> with the same layout. A date is \<open>(year, month, day)\<close>; \<open>day_number\<close> counts
  days, with day 1 the (proleptic Gregorian) Monday 0001-01-01.
\<close>

type_synonym date = "int \<times> int \<times> int"

definition is_leap :: "int \<Rightarrow> bool" where
  "is_leap y \<longleftrightarrow> y mod 4 = 0 \<and> (y mod 100 \<noteq> 0 \<or> y mod 400 = 0)"

definition days_in_month :: "int \<Rightarrow> int \<Rightarrow> int" where
  "days_in_month y m =
     (if m = 2 then (if is_leap y then 29 else 28)
      else if m = 4 \<or> m = 6 \<or> m = 9 \<or> m = 11 then 30 else 31)"

fun valid_date :: "date \<Rightarrow> bool" where
  "valid_date (y, m, d) \<longleftrightarrow> 0 \<le> y \<and> y \<le> 9999 \<and> 1 \<le> m \<and> m \<le> 12 \<and> 1 \<le> d \<and> d \<le> days_in_month y m"

text \<open>The layout takes four digits, a dash, two digits, a dash, two digits, and nothing else;
  \<open>time.Parse\<close> then checks the month and the day of the month.\<close>

definition parse_date :: "string \<Rightarrow> date option" where
  "parse_date s =
     (let ys = take 4 s; ms = take 2 (drop 5 s); ds = take 2 (drop 8 s);
          dt = (int (digits_val ys), int (digits_val ms), int (digits_val ds))
      in if length s = 10 \<and> s ! 4 = CHR ''-'' \<and> s ! 7 = CHR ''-'' \<and> list_all is_digit (ys @ ms @ ds)
           \<and> valid_date dt
         then Some dt else None)"

fun format_date :: "date \<Rightarrow> string" where
  "format_date (y, m, d) =
     pad_digits 4 (nat y) @ ''-'' @ pad_digits 2 (nat m) @ ''-'' @ pad_digits 2 (nat d)"

fun next_day :: "date \<Rightarrow> date" where
  "next_day (y, m, d) =
     (if d < days_in_month y m then (y, m, d + 1)
      else if m < 12 then (y, m + 1, 1) else (y + 1, 1, 1))"

definition days_before_month :: "int \<Rightarrow> int \<Rightarrow> int" where
  "days_before_month y m = (\<Sum>k\<leftarrow>[1..m - 1]. days_in_month y k)"

fun day_number :: "date \<Rightarrow> int" where
  "day_number (y, m, d) =
     365 * (y - 1) + (y - 1) div 4 - (y - 1) div 100 + (y - 1) div 400 + days_before_month y m + d"

datatype weekday = Sunday | Monday | Tuesday | Wednesday | Thursday | Friday | Saturday

definition weekday_of :: "date \<Rightarrow> weekday" where
  "weekday_of dt = [Sunday, Monday, Tuesday, Wednesday, Thursday, Friday, Saturday] ! nat (day_number dt mod 7)"

section \<open>The calendar steps one day at a time\<close>

lemma days_in_month_pos: "1 \<le> days_in_month y m"
  by (simp add: days_in_month_def)

lemma days_before_next_month: "1 \<le> m \<Longrightarrow> days_before_month y (m + 1) = days_before_month y m + days_in_month y m"
  by (simp add: days_before_month_def upto_rec2)

lemma days_before_13: "days_before_month y 13 = 365 + (if is_leap y then 1 else 0)"
proof -
  have "[1..12] = [1, 2, 3, 4, 5, 6, 7, 8, 9, 10, 11, 12::int]" by (simp add: upto.simps)
  then show ?thesis by (simp add: days_before_month_def days_in_month_def)
qed

lemma div_step: "0 < k \<Longrightarrow> y div k = (y - 1) div k + (if y mod k = 0 then 1 else (0::int))"
proof (cases "y mod k = 0")
  case True
  assume k: "0 < k"
  have "y - 1 = k * (y div k - 1) + (k - 1)" using mult_div_mod_eq [of k y] True by (simp add: algebra_simps)
  then have "(y - 1) div k = y div k - 1" by (rule int_div_pos_eq) (use k in simp_all)
  with True show ?thesis by simp
next
  case False
  assume k: "0 < k"
  have "y - 1 = k * (y div k) + (y mod k - 1)" by (simp add: algebra_simps)
  moreover have "0 \<le> y mod k - 1" "y mod k - 1 < k"
    using False pos_mod_sign [OF k, of y] pos_mod_bound [OF k, of y] by linarith+
  ultimately have "(y - 1) div k = y div k" by (rule int_div_pos_eq)
  with False show ?thesis by simp
qed

lemma mod_0_weaken: "a dvd c \<Longrightarrow> y mod c = 0 \<Longrightarrow> y mod a = (0 :: int)"
  by (metis mod_mod_cancel mod_0)

lemma indicator_chain:
  "(Q \<longrightarrow> P) \<Longrightarrow> (R \<longrightarrow> Q) \<Longrightarrow> (if P \<and> (\<not> Q \<or> R) then 1 else 0)
     = (if P then 1 else 0) - (if Q then 1 else 0) + (if R then 1 else (0 :: int))"
  by (cases P; cases Q; cases R) simp_all

lemma leap_days_step:
  "y div 4 - y div 100 + y div 400 =
     (y - 1) div 4 - (y - 1) div 100 + (y - 1) div 400 + (if is_leap y then 1 else 0)"
proof -
  have i: "y mod 100 = 0 \<longrightarrow> y mod 4 = 0" "y mod 400 = 0 \<longrightarrow> y mod 100 = 0"
    using mod_0_weaken [of 4 100 y] mod_0_weaken [of 100 400 y] by simp_all
  define a b c where "a = (if y mod 4 = 0 then 1 else (0::int))"
    and "b = (if y mod 100 = 0 then 1 else (0::int))" and "c = (if y mod 400 = 0 then 1 else (0::int))"
  have l: "(if is_leap y then 1 else 0) = a - b + c"
    unfolding a_def b_def c_def is_leap_def using i by (rule indicator_chain)
  have "y div 4 = (y - 1) div 4 + a" "y div 100 = (y - 1) div 100 + b" "y div 400 = (y - 1) div 400 + c"
    unfolding a_def b_def c_def by (rule div_step; simp)+
  then show ?thesis unfolding l by (simp only: algebra_simps)
qed

text \<open>The steps also pass the last date of the layout, so they are stated for every year.\<close>

fun proper_date :: "date \<Rightarrow> bool" where
  "proper_date (y, m, d) \<longleftrightarrow> 1 \<le> m \<and> m \<le> 12 \<and> 1 \<le> d \<and> d \<le> days_in_month y m"

lemma valid_proper: "valid_date dt \<Longrightarrow> proper_date dt"
  by (cases dt) simp

lemma next_day_number:
  "proper_date dt \<Longrightarrow> day_number (next_day dt) = day_number dt + 1"
proof (cases dt)
  case (fields y m d)
  assume v: "proper_date dt"
  show ?thesis
  proof (cases "d < days_in_month y m")
    case False
    with v fields have d: "d = days_in_month y m" by simp
    show ?thesis
    proof (cases "m < 12")
      case True
      with d v fields show ?thesis by (simp add: days_before_next_month)
    next
      case False
      with v fields have "m = 12" by simp
      moreover have "days_before_month y 12 + days_in_month y 12 = days_before_month y 13"
        using days_before_next_month [of 12 y] by simp
      moreover have "days_before_month (y + 1) 1 = 0" by (simp add: days_before_month_def)
      ultimately show ?thesis
        using d fields leap_days_step [of y] days_before_13 [of y] by simp
    qed
  qed (use fields in simp)
qed

lemma next_day_proper: "proper_date dt \<Longrightarrow> proper_date (next_day dt)"
  by (cases dt) (auto simp: days_in_month_pos)

lemma parse_date_valid: "parse_date s = Some dt \<Longrightarrow> valid_date dt"
  by (auto simp: parse_date_def Let_def split: if_splits)

end
