(* ===== verification/Ledger.thy ===== *)
theory Ledger
  imports Calendar "HOL-Library.AList"
begin

text \<open>
  The admission ledger of \<^verbatim>\<open>internal/admission/ledger.go\<close>: one append-only file whose
  lines are entries (open, price, hosting, admit, refused, settle). \<open>Parse\<close> checks the bytes and
  replays the entries (\<open>apply\<close>) into a \<open>State\<close>; every operation reads and checks the whole file
  under an exclusive lock, decides, and appends at most one line (\<open>update\<close>).

  Counts are Go \<open>int\<close>s and wrap at 64 bits (\<open>add64\<close>); amounts are \<open>*big.Rat\<close>, modelled as
  \<open>rat\<close>; Go maps are association lists with distinct keys. The standard library functions a line
  goes through are the fields of \<open>ledger_env\<close>: the hex SHA-256, the JSON coding of an entry, the
  URL check and the clock. The laws a theorem needs of them are its hypotheses. File system errors
  are not modelled, and a locked operation is one step.
\<close>

section \<open>Data\<close>

record tokens =
  tok_Input :: int
  tok_Output :: int

record caps =
  cap_RouteRequests :: int
  cap_TotalRequests :: int
  cap_LiabilityUSD :: string
  cap_RouteLiabilityUSD :: "(string \<times> string) list"
  cap_WindowRequests :: int
  cap_MaxInputTokens :: int
  cap_MaxOutputTokens :: int

record position =
  pos_RouteRequests :: int
  pos_TotalRequests :: int
  pos_LiabilityUSD :: string
  pos_RouteLiabilityUSD :: string
  pos_liab :: rat
  pos_routeLiab :: "rat option"

record counts =
  cnt_Probe :: int
  cnt_Development :: int
  cnt_Warmup :: int
  cnt_Measured :: int

definition counts_total :: "counts \<Rightarrow> int" where
  "counts_total c = add64 (add64 (add64 (cnt_Probe c) (cnt_Development c)) (cnt_Warmup c)) (cnt_Measured c)"

record entry =
  e_Seq :: int
  e_Prev :: string
  e_Time :: string
  e_Kind :: string
  e_SchemaVersion :: int
  e_Caps :: "caps option"
  e_Route :: string
  e_InputUSDPerMTok :: string
  e_OutputUSDPerMTok :: string
  e_InputTokens :: int
  e_OutputTokens :: int
  e_PerRequestUSD :: string
  e_Source :: string
  e_Retrieved :: string
  e_USD :: string
  e_Note :: string
  e_Purpose :: string
  e_Reserve :: int
  e_Before :: "position option"
  e_After :: "position option"
  e_Reason :: string
  e_Admit :: int
  e_Sent :: "counts option"
  e_Overrun :: bool

text \<open>Go's zero value, from which each composite literal starts.\<close>

definition zero_entry :: entry where
  "zero_entry = \<lparr>e_Seq = 0, e_Prev = [], e_Time = [], e_Kind = [], e_SchemaVersion = 0, e_Caps = None,
     e_Route = [], e_InputUSDPerMTok = [], e_OutputUSDPerMTok = [], e_InputTokens = 0, e_OutputTokens = 0,
     e_PerRequestUSD = [], e_Source = [], e_Retrieved = [], e_USD = [], e_Note = [], e_Purpose = [],
     e_Reserve = 0, e_Before = None, e_After = None, e_Reason = [], e_Admit = 0, e_Sent = None,
     e_Overrun = False\<rparr>"

abbreviation "KindOpen \<equiv> ''open''"
abbreviation "KindPrice \<equiv> ''price''"
abbreviation "KindHosting \<equiv> ''hosting''"
abbreviation "KindAdmit \<equiv> ''admit''"
abbreviation "KindRefused \<equiv> ''refused''"
abbreviation "KindSettle \<equiv> ''settle''"

abbreviation "PurposeProbe \<equiv> ''probe''"
abbreviation "PurposeDevelopment \<equiv> ''development''"
abbreviation "PurposeWindow \<equiv> ''window''"
abbreviation "PurposeReplacement \<equiv> ''replacement''"
abbreviation "PurposeCell \<equiv> ''cell''"

record usage =
  u_Probe :: int
  u_Development :: int
  u_Warmup :: int
  u_Measured :: int
  u_Replacement :: int
  u_Reserved :: int
  u_Prices :: "(tokens \<times> rat) list"
  u_PriceSeq :: int
  u_charged :: "(tokens \<times> int) list"

definition zero_usage :: usage where
  "zero_usage = \<lparr>u_Probe = 0, u_Development = 0, u_Warmup = 0, u_Measured = 0, u_Replacement = 0,
     u_Reserved = 0, u_Prices = [], u_PriceSeq = 0, u_charged = []\<rparr>"

text \<open>\<open>Usage.Charged\<close>: every request sent plus every unsettled reservation.\<close>

definition Charged :: "usage \<Rightarrow> int" where
  "Charged u = add64 (add64 (add64 (add64 (add64 (u_Probe u) (u_Development u)) (u_Warmup u))
     (u_Measured u)) (u_Replacement u)) (u_Reserved u)"

record admission =
  a_Seq :: int
  a_Route :: string
  a_Purpose :: string
  a_Reserve :: int
  a_Tokens :: tokens

record state =
  st_Lines :: int
  st_OpenSHA256 :: string
  st_HeadSHA256 :: string
  st_Caps :: caps
  st_Routes :: "(string \<times> usage) list"
  st_HostingUSD :: rat
  st_Open :: "(int \<times> admission) list"
  st_order :: "string list"
  st_liabilityCap :: rat
  st_routeCaps :: "(string \<times> rat) list"

definition zero_caps :: caps where
  "zero_caps = \<lparr>cap_RouteRequests = 0, cap_TotalRequests = 0, cap_LiabilityUSD = [],
     cap_RouteLiabilityUSD = [], cap_WindowRequests = 0, cap_MaxInputTokens = 0, cap_MaxOutputTokens = 0\<rparr>"

definition init_state :: state where
  "init_state = \<lparr>st_Lines = 0, st_OpenSHA256 = [], st_HeadSHA256 = [], st_Caps = zero_caps, st_Routes = [],
     st_HostingUSD = 0, st_Open = [], st_order = [], st_liabilityCap = 0, st_routeCaps = []\<rparr>"

record price =
  pr_InputUSDPerMTok :: string
  pr_OutputUSDPerMTok :: string
  pr_InputTokens :: int
  pr_OutputTokens :: int
  pr_Source :: string
  pr_Retrieved :: string

datatype ledger_error =
    ENegativeRequestCap | ETokenBounds int int | ENotPositive string | EEmptyRouteName
  | ERouteCapExceedsGlobal string | EEmptyRoute | EBoundsNotPositive int int | ENotDecimal string
  | EBadSource string | EBadDate string | ENoCaps | ENegativeCount | EUnknownPurpose string
  | EStrayCount string | EKindOnLine string int | EBadOpen | EPerRequest string | EBadAdmit
  | EBadReserve | ENotHighestPrice | ESettleUnmatched int | EOverrunFlag | EUnknownKind string
  | EEmptyLedger | EIncompleteLine | EBadJSON | ETrailingData | EBadSeq int | EBadPrev int
  | EBoundTo string | ENoPrice string tokens | ENoRouteCap string | EEmptyNote
  | ENoWindow string | EWindowSize string int int | ENoRequest string int
  | Refusal string string string | PriceChanged string int int
  | ENotUnsettled int | EOtherAdmission int | EOverrun int

record ledger_env =
  env_sha256hex :: "string \<Rightarrow> string"
  env_encode :: "entry \<Rightarrow> string"
  env_decode :: "string \<Rightarrow> ledger_error + entry"
  env_http_url :: "string \<Rightarrow> bool"
  env_now :: string

section \<open>Caps and prices\<close>

text \<open>\<open>checkCaps\<close>: the global and per-route liability caps.\<close>

fun check_route_caps :: "rat \<Rightarrow> (string \<times> string) list \<Rightarrow> ledger_error + (string \<times> rat) list" where
  "check_route_caps global [] = Inr []"
| "check_route_caps global ((name, usd) # rest) =
     (if name = [] then Inl EEmptyRouteName
      else case decimal usd of
        None \<Rightarrow> Inl (ENotPositive usd)
      | Some r \<Rightarrow>
          if r = 0 then Inl (ENotPositive usd)
          else if global < r then Inl (ERouteCapExceedsGlobal name)
          else case check_route_caps global rest of
            Inl e \<Rightarrow> Inl e
          | Inr routes \<Rightarrow> Inr ((name, r) # routes))"

definition checkCaps :: "caps \<Rightarrow> ledger_error + rat \<times> (string \<times> rat) list" where
  "checkCaps c =
     (if cap_RouteRequests c < 0 \<or> cap_TotalRequests c < 0 \<or> cap_WindowRequests c < 0
      then Inl ENegativeRequestCap
      else if cap_MaxInputTokens c < 0 \<or> cap_MaxOutputTokens c < 0
        \<or> (cap_MaxInputTokens c = 0) \<noteq> (cap_MaxOutputTokens c = 0)
      then Inl (ETokenBounds (cap_MaxInputTokens c) (cap_MaxOutputTokens c))
      else case decimal (cap_LiabilityUSD c) of
        None \<Rightarrow> Inl (ENotPositive (cap_LiabilityUSD c))
      | Some global \<Rightarrow>
          if global = 0 then Inl (ENotPositive (cap_LiabilityUSD c))
          else case check_route_caps global (cap_RouteLiabilityUSD c) of
            Inl e \<Rightarrow> Inl e
          | Inr routes \<Rightarrow> Inr (global, routes))"

text \<open>\<open>WindowRequests\<close> is an untyped constant: rate 0.1 per second over 60 s of warm-up and 1200 s
  measured, plus the probe request.\<close>

definition WindowRequests :: int where
  "WindowRequests = \<lfloor>(1 / 10) * (60 + 1200) :: rat\<rfloor> + 1"

definition PilotCaps :: caps where
  "PilotCaps =
     \<lparr>cap_RouteRequests = 1024, cap_TotalRequests = 2048, cap_LiabilityUSD = ''40'',
      cap_RouteLiabilityUSD = [], cap_WindowRequests = WindowRequests, cap_MaxInputTokens = 2000,
      cap_MaxOutputTokens = 4096\<rparr>"

definition checkPrice :: "ledger_env \<Rightarrow> string \<Rightarrow> price \<Rightarrow> ledger_error + rat" where
  "checkPrice env route p =
     (if route = [] then Inl EEmptyRoute
      else if pr_InputTokens p < 1 \<or> pr_OutputTokens p < 1
      then Inl (EBoundsNotPositive (pr_InputTokens p) (pr_OutputTokens p))
      else case decimal (pr_InputUSDPerMTok p) of
        None \<Rightarrow> Inl (ENotDecimal (pr_InputUSDPerMTok p))
      | Some pin \<Rightarrow> (case decimal (pr_OutputUSDPerMTok p) of
          None \<Rightarrow> Inl (ENotDecimal (pr_OutputUSDPerMTok p))
        | Some pout \<Rightarrow>
            if \<not> env_http_url env (pr_Source p) then Inl (EBadSource (pr_Source p))
            else if parse_date (pr_Retrieved p) = None then Inl (EBadDate (pr_Retrieved p))
            else Inr (perRequest pin pout (pr_InputTokens p) (pr_OutputTokens p))))"

section \<open>Queries on the state\<close>

definition usage_of :: "state \<Rightarrow> string \<Rightarrow> usage" where
  "usage_of st route = (case map_of (st_Routes st) route of None \<Rightarrow> zero_usage | Some u \<Rightarrow> u)"

text \<open>\<open>State.usage\<close> creates the route's entry on first use and appends it to \<open>order\<close>; the write
  that follows goes through \<open>put_usage\<close>.\<close>

definition put_usage :: "string \<Rightarrow> usage \<Rightarrow> state \<Rightarrow> state" where
  "put_usage route u st =
     st\<lparr>st_Routes := AList.update route u (st_Routes st),
        st_order := (if map_of (st_Routes st) route = None then st_order st @ [route] else st_order st)\<rparr>"

definition total_charge :: "state \<Rightarrow> int" where
  "total_charge st = foldl (\<lambda>n ru. add64 n (Charged (snd ru))) 0 (st_Routes st)"

definition price_of :: "state \<Rightarrow> string \<Rightarrow> tokens \<Rightarrow> rat option" where
  "price_of st route tok =
     (case map_of (st_Routes st) route of None \<Rightarrow> None | Some u \<Rightarrow> map_of (u_Prices u) tok)"

definition PriceRevision :: "state \<Rightarrow> string \<Rightarrow> int" where
  "PriceRevision st route = (case map_of (st_Routes st) route of None \<Rightarrow> 0 | Some u \<Rightarrow> u_PriceSeq u)"

definition ReservationUSD :: "state \<Rightarrow> string \<Rightarrow> int \<Rightarrow> tokens \<Rightarrow> ledger_error + string" where
  "ReservationUSD st route n tok =
     (case price_of st route tok of
        None \<Rightarrow> Inl (ENoPrice route tok)
      | Some p \<Rightarrow> Inr (decimalString (p * of_int n)))"

text \<open>\<open>m[k] += n\<close> on a Go map of counts: a missing key reads 0.\<close>

definition bump :: "tokens \<Rightarrow> int \<Rightarrow> (tokens \<times> int) list \<Rightarrow> (tokens \<times> int) list" where
  "bump t n m = AList.update t (add64 (case map_of m t of None \<Rightarrow> 0 | Some k \<Rightarrow> k) n) m"

fun priced_sum :: "(tokens \<Rightarrow> rat option) \<Rightarrow> string \<Rightarrow> (tokens \<times> int) list \<Rightarrow> ledger_error + rat" where
  "priced_sum price r [] = Inr 0"
| "priced_sum price r ((t, n) # rest) =
     (if n = 0 then priced_sum price r rest
      else case price t of
        None \<Rightarrow> Inl (ENoPrice r t)
      | Some p \<Rightarrow> (case priced_sum price r rest of
          Inl e \<Rightarrow> Inl e
        | Inr s \<Rightarrow> Inr (p * of_int n + s)))"

definition charged_with :: "state \<Rightarrow> string \<Rightarrow> string \<Rightarrow> tokens \<Rightarrow> int \<Rightarrow> (tokens \<times> int) list" where
  "charged_with st r route tok extra =
     (let charged = (case map_of (st_Routes st) r of None \<Rightarrow> [] | Some u \<Rightarrow> u_charged u)
      in if r = route \<and> 0 < extra then bump tok extra charged else charged)"

definition routeLiability :: "state \<Rightarrow> string \<Rightarrow> string \<Rightarrow> tokens \<Rightarrow> int \<Rightarrow> ledger_error + rat" where
  "routeLiability st r route tok extra = priced_sum (price_of st r) r (charged_with st r route tok extra)"

fun sum_routes :: "(string \<Rightarrow> ledger_error + rat) \<Rightarrow> string list \<Rightarrow> rat \<Rightarrow> ledger_error + rat" where
  "sum_routes f [] s = Inr s"
| "sum_routes f (r # rs) s = (case f r of Inl e \<Rightarrow> Inl e | Inr c \<Rightarrow> sum_routes f rs (s + c))"

definition liability :: "state \<Rightarrow> string \<Rightarrow> tokens \<Rightarrow> int \<Rightarrow> ledger_error + rat" where
  "liability st route tok extra =
     sum_routes (\<lambda>r. routeLiability st r route tok extra) (st_order st) (st_HostingUSD st)"

definition Liability :: "state \<Rightarrow> ledger_error + rat" where
  "Liability st = liability st [] \<lparr>tok_Input = 0, tok_Output = 0\<rparr> 0"

definition position_at :: "state \<Rightarrow> string \<Rightarrow> tokens \<Rightarrow> int \<Rightarrow> ledger_error + position" where
  "position_at st route tok extra =
     (if st_routeCaps st \<noteq> [] \<and> map_of (st_routeCaps st) route = None then Inl (ENoRouteCap route)
      else if price_of st route tok = None then Inl (ENoPrice route tok)
      else case liability st route tok extra of
        Inl e \<Rightarrow> Inl e
      | Inr liab \<Rightarrow>
          let n = (case map_of (st_Routes st) route of None \<Rightarrow> extra | Some u \<Rightarrow> add64 extra (Charged u));
              p = \<lparr>pos_RouteRequests = n, pos_TotalRequests = add64 (total_charge st) extra,
                   pos_LiabilityUSD = decimalString liab, pos_RouteLiabilityUSD = [],
                   pos_liab = liab, pos_routeLiab = None\<rparr>
          in if st_routeCaps st \<noteq> [] then
               (case routeLiability st route route tok extra of
                  Inl e \<Rightarrow> Inl e
                | Inr rl \<Rightarrow> Inr (p\<lparr>pos_routeLiab := Some rl, pos_RouteLiabilityUSD := decimalString rl\<rparr>))
             else Inr p)"

definition checkCounts :: "string \<Rightarrow> counts \<Rightarrow> ledger_error option" where
  "checkCounts purpose c =
     (if cnt_Probe c < 0 \<or> cnt_Development c < 0 \<or> cnt_Warmup c < 0 \<or> cnt_Measured c < 0
      then Some ENegativeCount
      else if purpose = PurposeProbe then
        (if 0 < add64 (add64 (cnt_Development c) (cnt_Warmup c)) (cnt_Measured c) then Some (EStrayCount purpose) else None)
      else if purpose = PurposeDevelopment then
        (if 0 < add64 (add64 (cnt_Probe c) (cnt_Warmup c)) (cnt_Measured c) then Some (EStrayCount purpose) else None)
      else if purpose = PurposeWindow \<or> purpose = PurposeReplacement \<or> purpose = PurposeCell then
        (if 0 < cnt_Development c then Some (EStrayCount purpose) else None)
      else Some (EUnknownPurpose purpose))"

section \<open>Replaying the entries\<close>

text \<open>The cases of \<open>State.apply\<close>, one definition each, and the switch.\<close>

definition apply_open :: "entry \<Rightarrow> state \<Rightarrow> ledger_error + state" where
  "apply_open e st =
     (case e_Caps e of
        None \<Rightarrow> Inl EBadOpen
      | Some c \<Rightarrow>
          if e_SchemaVersion e \<noteq> 1 then Inl EBadOpen
          else case checkCaps c of
            Inl err \<Rightarrow> Inl err
          | Inr (global, routes) \<Rightarrow>
              Inr (st\<lparr>st_Caps := c, st_liabilityCap := global, st_routeCaps := routes\<rparr>))"

definition entry_price :: "entry \<Rightarrow> price" where
  "entry_price e = \<lparr>pr_InputUSDPerMTok = e_InputUSDPerMTok e, pr_OutputUSDPerMTok = e_OutputUSDPerMTok e,
     pr_InputTokens = e_InputTokens e, pr_OutputTokens = e_OutputTokens e, pr_Source = e_Source e,
     pr_Retrieved = e_Retrieved e\<rparr>"

definition entry_tokens :: "entry \<Rightarrow> tokens" where
  "entry_tokens e = \<lparr>tok_Input = e_InputTokens e, tok_Output = e_OutputTokens e\<rparr>"

text \<open>The highest price at each pair of token bounds is kept.\<close>

definition raise_price :: "tokens \<Rightarrow> rat \<Rightarrow> (tokens \<times> rat) list \<Rightarrow> (tokens \<times> rat) list" where
  "raise_price tok r prices =
     (case map_of prices tok of
        None \<Rightarrow> AList.update tok r prices
      | Some p \<Rightarrow> if p < r then AList.update tok r prices else prices)"

definition apply_price :: "ledger_env \<Rightarrow> entry \<Rightarrow> state \<Rightarrow> ledger_error + state" where
  "apply_price env e st =
     (case checkPrice env (e_Route e) (entry_price e) of
        Inl err \<Rightarrow> Inl err
      | Inr r \<Rightarrow>
          if e_PerRequestUSD e \<noteq> decimalString r then Inl (EPerRequest (e_PerRequestUSD e))
          else
            let u = usage_of st (e_Route e)
            in Inr (put_usage (e_Route e)
                 (u\<lparr>u_Prices := raise_price (entry_tokens e) r (u_Prices u), u_PriceSeq := e_Seq e\<rparr>) st))"

definition apply_hosting :: "entry \<Rightarrow> state \<Rightarrow> ledger_error + state" where
  "apply_hosting e st =
     (case decimal (e_USD e) of
        None \<Rightarrow> Inl (ENotDecimal (e_USD e))
      | Some r \<Rightarrow> Inr (st\<lparr>st_HostingUSD := st_HostingUSD st + r\<rparr>))"

definition zero_counts :: counts where
  "zero_counts = \<lparr>cnt_Probe = 0, cnt_Development = 0, cnt_Warmup = 0, cnt_Measured = 0\<rparr>"

definition apply_admit :: "entry \<Rightarrow> state \<Rightarrow> ledger_error + state" where
  "apply_admit e st =
     (if e_Route e = [] \<or> e_Reserve e < 1 then Inl EBadAdmit
      else if (e_Purpose e = PurposeWindow \<or> e_Purpose e = PurposeReplacement)
        \<and> e_Reserve e \<noteq> cap_WindowRequests (st_Caps st) then Inl EBadReserve
      else case checkCounts (e_Purpose e) zero_counts of
        Some err \<Rightarrow> Inl err
      | None \<Rightarrow>
          let tok = entry_tokens e
          in (case price_of st (e_Route e) tok of
                None \<Rightarrow> Inl ENotHighestPrice
              | Some p \<Rightarrow>
                  if e_PerRequestUSD e \<noteq> decimalString p then Inl ENotHighestPrice
                  else
                    let u = usage_of st (e_Route e);
                        u' = u\<lparr>u_Reserved := add64 (u_Reserved u) (e_Reserve e),
                               u_charged := bump tok (e_Reserve e) (u_charged u)\<rparr>;
                        a = \<lparr>a_Seq = e_Seq e, a_Route = e_Route e, a_Purpose = e_Purpose e,
                             a_Reserve = e_Reserve e, a_Tokens = tok\<rparr>;
                        st' = put_usage (e_Route e) u' st
                    in Inr (st'\<lparr>st_Open := AList.update (e_Seq e) a (st_Open st')\<rparr>)))"

definition settled_usage :: "admission \<Rightarrow> counts \<Rightarrow> usage \<Rightarrow> usage" where
  "settled_usage a c u =
     (let u1 = u\<lparr>u_Reserved := sub64 (u_Reserved u) (a_Reserve a),
                 u_charged := bump (a_Tokens a) (sub64 (counts_total c) (a_Reserve a)) (u_charged u),
                 u_Probe := add64 (u_Probe u) (cnt_Probe c),
                 u_Development := add64 (u_Development u) (cnt_Development c)\<rparr>
      in if a_Purpose a = PurposeReplacement
         then u1\<lparr>u_Replacement := add64 (u_Replacement u1) (add64 (cnt_Warmup c) (cnt_Measured c))\<rparr>
         else u1\<lparr>u_Warmup := add64 (u_Warmup u1) (cnt_Warmup c),
                 u_Measured := add64 (u_Measured u1) (cnt_Measured c)\<rparr>)"

definition apply_settle :: "entry \<Rightarrow> state \<Rightarrow> ledger_error + state" where
  "apply_settle e st =
     (case (map_of (st_Open st) (e_Admit e), e_Sent e) of
        (Some a, Some c) \<Rightarrow>
          if a_Route a \<noteq> e_Route e then Inl (ESettleUnmatched (e_Admit e))
          else (case checkCounts (a_Purpose a) c of
            Some err \<Rightarrow> Inl err
          | None \<Rightarrow>
              if e_Overrun e \<noteq> (a_Reserve a < counts_total c) then Inl EOverrunFlag
              else
                let st1 = st\<lparr>st_Open := AList.delete (e_Admit e) (st_Open st)\<rparr>
                in Inr (put_usage (a_Route a) (settled_usage a c (usage_of st1 (a_Route a))) st1))
      | _ \<Rightarrow> Inl (ESettleUnmatched (e_Admit e)))"

definition apply_entry :: "ledger_env \<Rightarrow> entry \<Rightarrow> state \<Rightarrow> ledger_error + state" where
  "apply_entry env e st =
     (if (e_Kind e = KindOpen) \<noteq> (e_Seq e = 1) then Inl (EKindOnLine (e_Kind e) (e_Seq e))
      else if e_Kind e = KindOpen then apply_open e st
      else if e_Kind e = KindPrice then apply_price env e st
      else if e_Kind e = KindHosting then apply_hosting e st
      else if e_Kind e = KindAdmit then apply_admit e st
      else if e_Kind e = KindRefused then Inr st
      else if e_Kind e = KindSettle then apply_settle e st
      else Inl (EUnknownKind (e_Kind e)))"

section \<open>Parsing the file\<close>

abbreviation nl :: char where
  "nl \<equiv> CHR 0x0A"

definition first_line :: "string \<Rightarrow> string" where
  "first_line s = takeWhile (\<lambda>ch. ch \<noteq> nl) s"

definition after_line :: "string \<Rightarrow> string" where
  "after_line s = tl (dropWhile (\<lambda>ch. ch \<noteq> nl) s)"

lemma after_line_shorter: "s \<noteq> [] \<Longrightarrow> length (after_line s) < length s"
  unfolding after_line_def
  by (metis diff_less dropWhile_length_le length_greater_0_conv length_tl less_le_trans
      less_imp_diff_less linorder_not_le list.size(3) not_less_zero order_le_less zero_less_one)

text \<open>One iteration of \<open>Parse\<close>'s loop on a line, with \<open>done\<close> the bytes hashed so far.\<close>

definition parse_line :: "ledger_env \<Rightarrow> string \<Rightarrow> string \<Rightarrow> state \<Rightarrow> ledger_error + state" where
  "parse_line env done line st =
     (let seq = st_Lines st + 1
      in case env_decode env line of
           Inl err \<Rightarrow> Inl err
         | Inr e \<Rightarrow>
             if e_Seq e \<noteq> seq then Inl (EBadSeq (e_Seq e))
             else if e_Prev e \<noteq> env_sha256hex env done then Inl (EBadPrev seq)
             else (case apply_entry env e st of
               Inl err \<Rightarrow> Inl err
             | Inr st' \<Rightarrow>
                 let st'' = (if seq = 1 then st'\<lparr>st_OpenSHA256 := env_sha256hex env (done @ line @ [nl])\<rparr> else st')
                 in Inr (st''\<lparr>st_Lines := seq\<rparr>)))"

function parse_loop :: "ledger_env \<Rightarrow> string \<Rightarrow> string \<Rightarrow> state \<Rightarrow> ledger_error + state" where
  "parse_loop env done rest st =
     (if rest = [] then Inr st
      else case parse_line env done (first_line rest) st of
        Inl err \<Rightarrow> Inl err
      | Inr st' \<Rightarrow> parse_loop env (done @ first_line rest @ [nl]) (after_line rest) st')"
  by pat_completeness auto
termination
  by (relation "measure (\<lambda>(env, done, rest, st). length rest)") (auto simp: after_line_shorter)

declare parse_loop.simps [simp del]

definition Parse :: "ledger_env \<Rightarrow> string \<Rightarrow> ledger_error + state" where
  "Parse env b =
     (if b = [] then Inl EEmptyLedger
      else if last b \<noteq> nl then Inl EIncompleteLine
      else case parse_loop env [] b init_state of
        Inl err \<Rightarrow> Inl err
      | Inr st \<Rightarrow> Inr (st\<lparr>st_HeadSHA256 := env_sha256hex env b\<rparr>))"

text \<open>\<open>Ledger.parse\<close>: with the open line \<open>Bind\<close> set (\<open>[]\<close> for none).\<close>

definition parse_bound :: "ledger_env \<Rightarrow> string \<Rightarrow> string \<Rightarrow> ledger_error + state" where
  "parse_bound env bound b =
     (case Parse env b of
        Inl err \<Rightarrow> Inl err
      | Inr st \<Rightarrow> if bound \<noteq> [] \<and> st_OpenSHA256 st \<noteq> bound then Inl (EBoundTo bound) else Inr st)"

section \<open>Appending\<close>

definition stamp :: "ledger_env \<Rightarrow> string \<Rightarrow> entry \<Rightarrow> entry" where
  "stamp env prior e =
     e\<lparr>e_Seq := int (count_list prior nl) + 1, e_Prev := env_sha256hex env prior, e_Time := env_now env\<rparr>"

definition append_entry :: "ledger_env \<Rightarrow> string \<Rightarrow> entry \<Rightarrow> string" where
  "append_entry env prior e = prior @ env_encode env (stamp env prior e) @ [nl]"

definition Create :: "ledger_env \<Rightarrow> caps \<Rightarrow> ledger_error + string" where
  "Create env c =
     (case checkCaps c of
        Inl err \<Rightarrow> Inl err
      | Inr _ \<Rightarrow> Inr (append_entry env [] (zero_entry\<lparr>e_Kind := KindOpen, e_SchemaVersion := 1, e_Caps := Some c\<rparr>)))"

text \<open>\<open>update\<close>: the decision \<open>fn\<close> returns an entry to append and an error; an error that is not a
  refusal appends nothing. The result pairs what the caller gets with the file's new content.\<close>

type_synonym decision = "entry option \<times> ledger_error option"

definition is_refusal :: "ledger_error \<Rightarrow> bool" where
  "is_refusal err \<longleftrightarrow> (case err of Refusal _ _ _ \<Rightarrow> True | _ \<Rightarrow> False)"

definition update :: "ledger_env \<Rightarrow> string \<Rightarrow> string \<Rightarrow> (state \<Rightarrow> decision) \<Rightarrow> decision \<times> string" where
  "update env bound b fn =
     (case parse_bound env bound b of
        Inl err \<Rightarrow> ((None, Some err), b)
      | Inr st \<Rightarrow>
          (case fn st of
             (e, Some err) \<Rightarrow>
               if \<not> is_refusal err then ((None, Some err), b)
               else (case e of
                   None \<Rightarrow> ((None, Some err), b)
                 | Some e' \<Rightarrow> ((Some (stamp env b e'), Some err), append_entry env b e'))
           | (None, None) \<Rightarrow> ((None, None), b)
           | (Some e', None) \<Rightarrow> ((Some (stamp env b e'), None), append_entry env b e')))"

section \<open>Operations\<close>

definition price_decision :: "ledger_env \<Rightarrow> string \<Rightarrow> price \<Rightarrow> state \<Rightarrow> decision" where
  "price_decision env route p st =
     (let p' = (if pr_InputTokens p = 0 \<and> pr_OutputTokens p = 0
                then p\<lparr>pr_InputTokens := cap_MaxInputTokens (st_Caps st), pr_OutputTokens := cap_MaxOutputTokens (st_Caps st)\<rparr>
                else p)
      in case checkPrice env route p' of
           Inl err \<Rightarrow> (None, Some err)
         | Inr r \<Rightarrow> (Some (zero_entry\<lparr>e_Kind := KindPrice, e_Route := route,
               e_InputUSDPerMTok := pr_InputUSDPerMTok p', e_OutputUSDPerMTok := pr_OutputUSDPerMTok p',
               e_InputTokens := pr_InputTokens p', e_OutputTokens := pr_OutputTokens p',
               e_PerRequestUSD := decimalString r, e_Source := pr_Source p', e_Retrieved := pr_Retrieved p'\<rparr>), None))"

definition RecordPrice :: "ledger_env \<Rightarrow> string \<Rightarrow> string \<Rightarrow> string \<Rightarrow> price \<Rightarrow> decision \<times> string" where
  "RecordPrice env bound b route p = update env bound b (price_decision env route p)"

definition hosting_decision :: "string \<Rightarrow> string \<Rightarrow> state \<Rightarrow> decision" where
  "hosting_decision usd note st =
     (case decimal usd of
        None \<Rightarrow> (None, Some (ENotPositive usd))
      | Some r \<Rightarrow>
          if r = 0 then (None, Some (ENotPositive usd))
          else if note = [] then (None, Some EEmptyNote)
          else (Some (zero_entry\<lparr>e_Kind := KindHosting, e_USD := usd, e_Note := note\<rparr>), None))"

definition RecordHosting :: "ledger_env \<Rightarrow> string \<Rightarrow> string \<Rightarrow> string \<Rightarrow> string \<Rightarrow> decision \<times> string" where
  "RecordHosting env bound b usd note = update env bound b (hosting_decision usd note)"

text \<open>The guards of \<open>admit\<close>, before any position is taken.\<close>

definition admit_guard :: "state \<Rightarrow> string \<Rightarrow> string \<Rightarrow> int \<Rightarrow> tokens \<Rightarrow> int option \<Rightarrow> ledger_error option" where
  "admit_guard st route purpose n tok rv =
     (if route = [] then Some EEmptyRoute
      else if (case rv of None \<Rightarrow> False | Some r \<Rightarrow> PriceRevision st route \<noteq> r)
      then Some (PriceChanged route (the rv) (PriceRevision st route))
      else if tok_Input tok < 1 \<or> tok_Output tok < 1 then Some (EBoundsNotPositive (tok_Input tok) (tok_Output tok))
      else if purpose = PurposeWindow \<or> purpose = PurposeReplacement then
        (if cap_WindowRequests (st_Caps st) = 0 then Some (ENoWindow purpose)
         else if n \<noteq> cap_WindowRequests (st_Caps st) then Some (EWindowSize purpose (cap_WindowRequests (st_Caps st)) n)
         else None)
      else if purpose = PurposeProbe \<or> purpose = PurposeDevelopment \<or> purpose = PurposeCell then
        (if n < 1 then Some (ENoRequest purpose n) else None)
      else Some (EUnknownPurpose purpose))"

text \<open>The text of the errors \<open>position_at\<close> returns, which a refusal line carries.\<close>

definition position_error :: "ledger_error \<Rightarrow> string" where
  "position_error err =
     (case err of
        ENoRouteCap r \<Rightarrow> ''no liability cap for route '' @ r
      | ENoPrice r t \<Rightarrow> ''no price recorded for '' @ r @ '' at '' @ int_digits (tok_Input t) @ '' input and ''
          @ int_digits (tok_Output t) @ '' output tokens''
      | _ \<Rightarrow> [])"

text \<open>The four cap tests; \<open>Some\<close> carries the refusal's reason. A route with a cap has a projected
  route liability, since \<open>position_at\<close> fills it whenever the ledger caps routes.\<close>

definition cap_exceeded :: "state \<Rightarrow> string \<Rightarrow> position \<Rightarrow> string option" where
  "cap_exceeded st route after =
     (let c = st_Caps st in
      if 0 < cap_RouteRequests c \<and> cap_RouteRequests c < pos_RouteRequests after
      then Some (int_digits (pos_RouteRequests after) @ '' requests for the route exceed the cap of ''
             @ int_digits (cap_RouteRequests c))
      else if 0 < cap_TotalRequests c \<and> cap_TotalRequests c < pos_TotalRequests after
      then Some (int_digits (pos_TotalRequests after) @ '' requests in total exceed the cap of ''
             @ int_digits (cap_TotalRequests c))
      else if (case (map_of (st_routeCaps st) route, pos_routeLiab after) of
                 (Some cap, Some rl) \<Rightarrow> cap < rl | _ \<Rightarrow> False)
      then Some (''projected liability for the route US$'' @ pos_RouteLiabilityUSD after @ '' exceeds US$''
             @ (case map_of (cap_RouteLiabilityUSD c) route of None \<Rightarrow> [] | Some s \<Rightarrow> s))
      else if st_liabilityCap st < pos_liab after
      then Some (''projected liability US$'' @ pos_LiabilityUSD after @ '' exceeds US$'' @ cap_LiabilityUSD c)
      else None)"

definition admit_decision ::
  "string \<Rightarrow> string \<Rightarrow> int \<Rightarrow> tokens \<Rightarrow> int option \<Rightarrow> state \<Rightarrow> decision" where
  "admit_decision route purpose n tok rv st =
     (let base = zero_entry\<lparr>e_Route := route, e_InputTokens := tok_Input tok, e_OutputTokens := tok_Output tok,
                            e_Purpose := purpose, e_Reserve := n\<rparr>;
          refusal = (\<lambda>before after reason.
            (Some (base\<lparr>e_Kind := KindRefused, e_Before := before, e_After := after, e_Reason := reason\<rparr>),
             Some (Refusal route purpose reason)))
      in case admit_guard st route purpose n tok rv of
           Some err \<Rightarrow> (None, Some err)
         | None \<Rightarrow>
             (case position_at st route tok 0 of
                Inl err \<Rightarrow> refusal None None (position_error err)
              | Inr before \<Rightarrow>
                  (case position_at st route tok n of
                     Inl err \<Rightarrow> refusal None None (position_error err)
                   | Inr after \<Rightarrow>
                       (case cap_exceeded st route after of
                          Some reason \<Rightarrow> refusal (Some before) (Some after) reason
                        | None \<Rightarrow>
                            (Some (base\<lparr>e_Kind := KindAdmit,
                               e_PerRequestUSD := decimalString (the (price_of st route tok)),
                               e_Before := Some before, e_After := Some after\<rparr>), None)))))"

text \<open>\<open>admit\<close> with the optional checked price revision: \<open>Admit\<close> passes \<open>None\<close>, \<open>AdmitAt\<close> \<open>Some rv\<close>.\<close>

definition admit :: "ledger_env \<Rightarrow> string \<Rightarrow> string \<Rightarrow> string \<Rightarrow> string \<Rightarrow> int \<Rightarrow> tokens \<Rightarrow> int option
    \<Rightarrow> (ledger_error + admission) \<times> string" where
  "admit env bound b route purpose n tok rv =
     (case update env bound b (admit_decision route purpose n tok rv) of
        ((_, Some err), b') \<Rightarrow> (Inl err, b')
      | ((_, None), b') \<Rightarrow>
          (case parse_bound env bound b of
             Inl err \<Rightarrow> (Inl err, b')
           | Inr st \<Rightarrow> (Inr \<lparr>a_Seq = st_Lines st + 1, a_Route = route, a_Purpose = purpose, a_Reserve = n,
                             a_Tokens = tok\<rparr>, b')))"

definition Admit :: "ledger_env \<Rightarrow> string \<Rightarrow> string \<Rightarrow> string \<Rightarrow> string \<Rightarrow> int \<Rightarrow> tokens
    \<Rightarrow> (ledger_error + admission) \<times> string" where
  "Admit env bound b route purpose n tok = admit env bound b route purpose n tok None"

definition AdmitAt :: "ledger_env \<Rightarrow> string \<Rightarrow> string \<Rightarrow> string \<Rightarrow> string \<Rightarrow> int \<Rightarrow> tokens \<Rightarrow> int
    \<Rightarrow> (ledger_error + admission) \<times> string" where
  "AdmitAt env bound b route purpose n tok rv = admit env bound b route purpose n tok (Some rv)"

definition settle_decision :: "admission \<Rightarrow> counts \<Rightarrow> state \<Rightarrow> decision" where
  "settle_decision a sent st =
     (case map_of (st_Open st) (a_Seq a) of
        None \<Rightarrow> (None, Some (ENotUnsettled (a_Seq a)))
      | Some opn \<Rightarrow>
          if opn \<noteq> a then (None, Some (EOtherAdmission (a_Seq a)))
          else (case checkCounts (a_Purpose a) sent of
            Some err \<Rightarrow> (None, Some err)
          | None \<Rightarrow> (Some (zero_entry\<lparr>e_Kind := KindSettle, e_Route := a_Route a, e_Admit := a_Seq a,
                e_Sent := Some sent, e_Overrun := a_Reserve a < counts_total sent\<rparr>), None)))"

definition Settle :: "ledger_env \<Rightarrow> string \<Rightarrow> string \<Rightarrow> admission \<Rightarrow> counts \<Rightarrow> ledger_error option \<times> string" where
  "Settle env bound b a sent =
     (case update env bound b (settle_decision a sent) of
        ((_, Some err), b') \<Rightarrow> (Some err, b')
      | ((Some e, None), b') \<Rightarrow> (if e_Overrun e then Some (EOverrun (a_Seq a)) else None, b')
      | ((None, None), b') \<Rightarrow> (None, b'))"

end
