(* ===== verification/LedgerInv.thy ===== *)
theory LedgerInv
  imports Ledger
begin

text \<open>
  The invariant of a replayed ledger and its preservation by every entry kind, the closed form of
  the liability, and what appending a line does to the parsed state.
\<close>

section \<open>Reading the state through \<open>usage_of\<close>\<close>

lemma usage_of_put [ledger_simps]:
  "usage_of (put_usage r u st) r' = (if r' = r then u else usage_of st r')"
  by (simp add: usage_of_def put_usage_def update_conv)

lemma put_usage_frame [ledger_simps]:
  "st_Lines (put_usage r u st) = st_Lines st" "st_Open (put_usage r u st) = st_Open st"
  "st_Caps (put_usage r u st) = st_Caps st" "st_HostingUSD (put_usage r u st) = st_HostingUSD st"
  "st_liabilityCap (put_usage r u st) = st_liabilityCap st" "st_routeCaps (put_usage r u st) = st_routeCaps st"
  "st_OpenSHA256 (put_usage r u st) = st_OpenSHA256 st"
  by (simp_all add: put_usage_def)

lemma usage_of_frame [ledger_simps]:
  "usage_of (st\<lparr>st_Open := x\<rparr>) r = usage_of st r" "usage_of (st\<lparr>st_Lines := n\<rparr>) r = usage_of st r"
  "usage_of (st\<lparr>st_HostingUSD := h\<rparr>) r = usage_of st r" "usage_of (st\<lparr>st_OpenSHA256 := s\<rparr>) r = usage_of st r"
  "usage_of (st\<lparr>st_HeadSHA256 := s\<rparr>) r = usage_of st r"
  "usage_of (st\<lparr>st_Caps := c, st_liabilityCap := g, st_routeCaps := rc\<rparr>) r = usage_of st r"
  by (simp_all add: usage_of_def)

lemma price_of_usage: "price_of st r t = map_of (u_Prices (usage_of st r)) t"
  by (simp add: price_of_def usage_of_def zero_usage_def split: option.splits)

lemma PriceRevision_usage: "PriceRevision st r = u_PriceSeq (usage_of st r)"
  by (simp add: PriceRevision_def usage_of_def zero_usage_def split: option.splits)

lemma charged_with_usage:
  "charged_with st r route tok extra =
     (if r = route \<and> 0 < extra then bump tok extra (u_charged (usage_of st r)) else u_charged (usage_of st r))"
  by (auto simp: charged_with_def usage_of_def zero_usage_def Let_def split: option.splits)

lemma Charged_wrap:
  "Charged u = wrap64 (u_Probe u + u_Development u + u_Warmup u + u_Measured u + u_Replacement u + u_Reserved u)"
  by (simp add: Charged_def add64_def wrap64_absorb)

lemma counts_total_wrap:
  "counts_total c = wrap64 (cnt_Probe c + cnt_Development c + cnt_Warmup c + cnt_Measured c)"
  by (simp add: counts_total_def add64_def wrap64_absorb)

section \<open>Association lists of counts\<close>

definition count_sum :: "(tokens \<times> int) list \<Rightarrow> int" where
  "count_sum m = sum_list (map snd m)"

lemma count_sum_update:
  "distinct (map fst m) \<Longrightarrow>
     count_sum (AList.update t v m) = count_sum m - (case map_of m t of None \<Rightarrow> 0 | Some k \<Rightarrow> k) + v"
proof (induction m)
  case (Cons x m)
  then show ?case
    by (cases x) (auto simp: count_sum_def map_of_eq_None_iff [symmetric] split: option.splits)
qed (simp add: count_sum_def)

lemma count_sum_bump:
  "distinct (map fst m) \<Longrightarrow> wrap64 (count_sum (bump t n m)) = wrap64 (count_sum m + n)"
  unfolding bump_def add64_def
  by (simp add: count_sum_update wrap64_absorb split: option.splits)

lemma bump_keys: "fst ` set (bump t n m) = insert t (fst ` set m)"
proof -
  have "dom (map_of (bump t n m)) = insert t (dom (map_of m))" by (auto simp: bump_def update_conv)
  then show ?thesis by (simp add: dom_map_of_conv_image_fst)
qed

lemma bump_distinct: "distinct (map fst m) \<Longrightarrow> distinct (map fst (bump t n m))"
  by (simp add: bump_def distinct_update)

section \<open>The invariant\<close>

definition usage_inv :: "usage \<Rightarrow> bool" where
  "usage_inv u \<longleftrightarrow> Charged u = wrap64 (count_sum (u_charged u))
     \<and> distinct (map fst (u_charged u))
     \<and> (\<forall>t\<in>fst ` set (u_charged u). map_of (u_Prices u) t \<noteq> None)
     \<and> (\<forall>t p. map_of (u_Prices u) t = Some p \<longrightarrow> 0 \<le> p)"

definition open_reserve :: "(int \<times> admission) list \<Rightarrow> string \<Rightarrow> int" where
  "open_reserve opn r = sum_list (map (\<lambda>ka. a_Reserve (snd ka)) (filter (\<lambda>ka. a_Route (snd ka) = r) opn))"

definition known_purpose :: "string \<Rightarrow> bool" where
  "known_purpose p \<longleftrightarrow> p \<in> {PurposeProbe, PurposeDevelopment, PurposeWindow, PurposeReplacement, PurposeCell}"

definition open_ok :: "int \<Rightarrow> state \<Rightarrow> bool" where
  "open_ok n st \<longleftrightarrow> distinct (map fst (st_Open st)) \<and>
     (\<forall>k a. map_of (st_Open st) k = Some a \<longrightarrow>
        a_Seq a = k \<and> k \<le> n \<and> 1 \<le> a_Reserve a \<and> known_purpose (a_Purpose a)
        \<and> a_Tokens a \<in> fst ` set (u_charged (usage_of st (a_Route a))))"

definition routes_wf :: "state \<Rightarrow> bool" where
  "routes_wf st \<longleftrightarrow> map fst (st_Routes st) = st_order st \<and> distinct (st_order st)"

definition ledger_inv :: "int \<Rightarrow> state \<Rightarrow> bool" where
  "ledger_inv n st \<longleftrightarrow> routes_wf st
     \<and> (\<forall>r. usage_inv (usage_of st r))
     \<and> (\<forall>r. u_Reserved (usage_of st r) = wrap64 (open_reserve (st_Open st) r))
     \<and> open_ok n st \<and> 0 \<le> st_HostingUSD st"

lemma ledger_invI:
  assumes "routes_wf st" and "\<And>r. usage_inv (usage_of st r)"
    and "\<And>r. u_Reserved (usage_of st r) = wrap64 (open_reserve (st_Open st) r)"
    and "open_ok n st" and "0 \<le> st_HostingUSD st"
  shows "ledger_inv n st"
  using assms by (simp add: ledger_inv_def)

lemma ledger_invD:
  assumes "ledger_inv n st"
  shows "routes_wf st" and "usage_inv (usage_of st r)"
    and "u_Reserved (usage_of st r) = wrap64 (open_reserve (st_Open st) r)"
    and "open_ok n st" and "0 \<le> st_HostingUSD st"
  using assms unfolding ledger_inv_def by blast+

lemma usage_inv_zero: "usage_inv zero_usage"
  by (simp add: usage_inv_def zero_usage_def Charged_wrap count_sum_def)

lemma init_inv: "ledger_inv 0 init_state"
  using usage_inv_zero
  by (simp add: ledger_inv_def init_state_def routes_wf_def usage_of_def open_ok_def open_reserve_def
      wrap64_def zero_usage_def)

lemma update_fst: "map fst (AList.update k v al) = (if k \<in> fst ` set al then map fst al else map fst al @ [k])"
  by (induction al) auto

lemma routes_wf_put: "routes_wf st \<Longrightarrow> routes_wf (put_usage r u st)"
  unfolding routes_wf_def put_usage_def
  by (auto simp: update_fst map_of_eq_None_iff simp flip: set_map)

lemma routes_wf_frame [ledger_simps]:
  "routes_wf (st\<lparr>st_Open := x\<rparr>) = routes_wf st" "routes_wf (st\<lparr>st_Lines := n\<rparr>) = routes_wf st"
  "routes_wf (st\<lparr>st_HostingUSD := h\<rparr>) = routes_wf st" "routes_wf (st\<lparr>st_OpenSHA256 := s\<rparr>) = routes_wf st"
  "routes_wf (st\<lparr>st_HeadSHA256 := s\<rparr>) = routes_wf st"
  "routes_wf (st\<lparr>st_Caps := c, st_liabilityCap := g, st_routeCaps := rc\<rparr>) = routes_wf st"
  by (simp_all add: routes_wf_def)

lemma ledger_inv_frame:
  assumes "\<And>r. usage_of st' r = usage_of st r" and "st_Open st' = st_Open st"
    and "routes_wf st' = routes_wf st" and "0 \<le> st_HostingUSD st'" and "n \<le> n'"
  shows "ledger_inv n st \<Longrightarrow> ledger_inv n' st'"
  using assms by (fastforce simp: ledger_inv_def open_ok_def)

section \<open>Every entry kind keeps the invariant\<close>

lemma apply_open_inv: "apply_open e st = Inr st' \<Longrightarrow> ledger_inv n st \<Longrightarrow> ledger_inv (n + 1) st'"
  by (rule ledger_inv_frame [of st' st n])
    (auto simp: apply_open_def ledger_inv_def ledger_simps split: option.splits if_splits sum.splits prod.splits)

lemma apply_hosting_inv: "apply_hosting e st = Inr st' \<Longrightarrow> ledger_inv n st \<Longrightarrow> ledger_inv (n + 1) st'"
  by (rule ledger_inv_frame [of st' st n])
    (auto simp: apply_hosting_def ledger_inv_def ledger_simps dest: decimal_nonneg split: option.splits)

lemma perRequest_nonneg: "0 \<le> pin \<Longrightarrow> 0 \<le> pout \<Longrightarrow> 0 \<le> i \<Longrightarrow> 0 \<le> j \<Longrightarrow> 0 \<le> perRequest pin pout i j"
  by (simp add: perRequest_def)

lemma checkPrice_nonneg: "checkPrice env r p = Inr v \<Longrightarrow> 0 \<le> v"
  by (auto simp: checkPrice_def dest!: decimal_nonneg intro!: perRequest_nonneg split: if_splits option.splits)

lemma usage_inv_price:
  assumes "usage_inv u" and "0 \<le> r"
  shows "usage_inv (u\<lparr>u_Prices := raise_price tok r (u_Prices u), u_PriceSeq := s\<rparr>)"
proof -
  let ?u = "u\<lparr>u_Prices := raise_price tok r (u_Prices u), u_PriceSeq := s\<rparr>"
  have prices: "map_of (u_Prices ?u) t =
      (if t = tok \<and> (\<forall>p. map_of (u_Prices u) tok = Some p \<longrightarrow> p < r) then Some r else map_of (u_Prices u) t)" for t
    by (simp add: raise_price_def update_conv split: option.split)
  have "Charged ?u = Charged u" by (simp add: Charged_def)
  then show ?thesis using assms prices unfolding usage_inv_def by simp
qed

lemma open_ok_usage:
  assumes "open_ok n st" and "st_Open st' = st_Open st" and "n \<le> n'"
    and "\<And>r. fst ` set (u_charged (usage_of st r)) \<subseteq> fst ` set (u_charged (usage_of st' r))"
  shows "open_ok n' st'"
proof -
  have "a_Seq a = k \<and> k \<le> n' \<and> 1 \<le> a_Reserve a \<and> known_purpose (a_Purpose a)
      \<and> a_Tokens a \<in> fst ` set (u_charged (usage_of st' (a_Route a)))"
    if "map_of (st_Open st') k = Some a" for k a
  proof -
    have "a_Seq a = k \<and> k \<le> n \<and> 1 \<le> a_Reserve a \<and> known_purpose (a_Purpose a)
        \<and> a_Tokens a \<in> fst ` set (u_charged (usage_of st (a_Route a)))"
      using assms(1) that unfolding open_ok_def assms(2) by blast
    then show ?thesis using assms(3) assms(4) [of "a_Route a"] by auto
  qed
  then show ?thesis using assms(1) unfolding open_ok_def assms(2) by blast
qed

lemma apply_price_inv:
  assumes "apply_price env e st = Inr st'" and inv: "ledger_inv n st"
  shows "ledger_inv (n + 1) st'"
proof -
  let ?u = "usage_of st (e_Route e)"
  from assms(1) obtain r where st': "st' = put_usage (e_Route e)
        (?u\<lparr>u_Prices := raise_price (entry_tokens e) r (u_Prices ?u), u_PriceSeq := e_Seq e\<rparr>) st"
    and r: "checkPrice env (e_Route e) (entry_price e) = Inr r"
    by (auto simp: apply_price_def Let_def split: sum.splits if_splits)
  have u: "usage_inv (?u\<lparr>u_Prices := raise_price (entry_tokens e) r (u_Prices ?u), u_PriceSeq := e_Seq e\<rparr>)"
    by (rule usage_inv_price [OF ledger_invD(2) [OF inv] checkPrice_nonneg [OF r]])
  note inv = ledger_invD [OF inv]
  show ?thesis
  proof (rule ledger_invI)
    show "routes_wf st'" using inv(1) by (simp add: st' routes_wf_put)
    show "usage_inv (usage_of st' x)" for x using inv(2) u by (simp add: st' ledger_simps)
    show "u_Reserved (usage_of st' x) = wrap64 (open_reserve (st_Open st') x)" for x
      by (simp add: st' ledger_simps inv(3))
    show "open_ok (n + 1) st'"
      by (rule open_ok_usage [OF inv(4)]) (simp_all add: st' ledger_simps)
    show "0 \<le> st_HostingUSD st'" using inv(5) by (simp add: st' ledger_simps)
  qed
qed

lemma open_reserve_update:
  "k \<notin> fst ` set opn \<Longrightarrow>
     open_reserve (AList.update k a opn) r = open_reserve opn r + (if a_Route a = r then a_Reserve a else 0)"
  by (induction opn) (auto simp: open_reserve_def)

lemma open_reserve_delete:
  "distinct (map fst opn) \<Longrightarrow> map_of opn k = Some a \<Longrightarrow>
     open_reserve (AList.delete k opn) r = open_reserve opn r - (if a_Route a = r then a_Reserve a else 0)"
proof (induction opn)
  case (Cons x opn)
  show ?case
  proof (cases "fst x = k")
    case True
    with Cons.prems have "AList.delete k opn = opn" by (intro delete_id) auto
    with True Cons.prems show ?thesis by (cases x) (auto simp: open_reserve_def)
  next
    case False
    with Cons show ?thesis by (cases x) (auto simp: open_reserve_def)
  qed
qed simp

lemma usage_inv_reserve:
  assumes "usage_inv u" and "map_of (u_Prices u) tok \<noteq> None"
  shows "usage_inv (u\<lparr>u_Reserved := add64 (u_Reserved u) n, u_charged := bump tok n (u_charged u)\<rparr>)"
  using assms count_sum_bump [of "u_charged u" tok n]
  unfolding usage_inv_def Charged_wrap add64_def
  by (simp add: bump_keys bump_distinct wrap64_absorb) (metis (no_types, lifting) add.assoc wrap64_add_left)

lemma checkCounts_known: "checkCounts p c = None \<Longrightarrow> known_purpose p"
  by (auto simp: checkCounts_def known_purpose_def split: if_splits)

text \<open>What an accepted admit line does.\<close>

lemma apply_admitD:
  assumes "apply_admit e st = Inr st'"
  defines "tok \<equiv> entry_tokens e" and "u \<equiv> usage_of st (e_Route e)"
  shows "1 \<le> e_Reserve e" and "known_purpose (e_Purpose e)" and "price_of st (e_Route e) tok \<noteq> None"
    and "st' = (put_usage (e_Route e) (u\<lparr>u_Reserved := add64 (u_Reserved u) (e_Reserve e),
               u_charged := bump tok (e_Reserve e) (u_charged u)\<rparr>) st)
           \<lparr>st_Open := AList.update (e_Seq e) \<lparr>a_Seq = e_Seq e, a_Route = e_Route e, a_Purpose = e_Purpose e,
               a_Reserve = e_Reserve e, a_Tokens = tok\<rparr> (st_Open st)\<rparr>"
  using assms
  by (auto simp: apply_admit_def Let_def put_usage_frame dest: checkCounts_known split: if_splits option.splits)

lemma apply_admit_inv:
  assumes "apply_admit e st = Inr st'" and inv: "ledger_inv n st" and seq: "e_Seq e = n + 1"
  shows "ledger_inv (n + 1) st'"
proof -
  note d = apply_admitD [OF assms(1)]
  let ?u = "usage_of st (e_Route e)" and ?tok = "entry_tokens e"
  have fresh: "e_Seq e \<notin> fst ` set (st_Open st)"
  proof
    assume "e_Seq e \<in> fst ` set (st_Open st)"
    then have "map_of (st_Open st) (e_Seq e) \<noteq> None" by (simp add: map_of_eq_None_iff)
    with inv seq show False by (force simp: ledger_inv_def open_ok_def)
  qed
  show ?thesis
  proof (rule ledger_invI)
    show "routes_wf st'" using inv by (simp add: d(4) ledger_simps routes_wf_put ledger_inv_def)
    show "usage_inv (usage_of st' x)" for x
      using inv d(3) usage_inv_reserve [of ?u ?tok "e_Reserve e"]
      by (simp add: d(4) ledger_simps ledger_inv_def price_of_usage)
    show "u_Reserved (usage_of st' x) = wrap64 (open_reserve (st_Open st') x)" for x
      using inv fresh by (simp add: d(4) ledger_simps ledger_inv_def open_reserve_update add64_def wrap64_absorb)
    show "open_ok (n + 1) st'"
      using inv fresh seq d(1,2) unfolding ledger_inv_def open_ok_def
      by (fastforce simp: d(4) ledger_simps distinct_update update_conv bump_keys split: if_splits)
    show "0 \<le> st_HostingUSD st'" using inv by (simp add: d(4) ledger_simps ledger_inv_def)
  qed
qed

lemma usage_inv_settle:
  assumes "usage_inv u" and "a_Tokens a \<in> fst ` set (u_charged u)"
  shows "usage_inv (settled_usage a c u)"
proof -
  let ?d = "sub64 (counts_total c) (a_Reserve a)"
  have ch: "u_charged (settled_usage a c u) = bump (a_Tokens a) ?d (u_charged u)"
    and pr: "u_Prices (settled_usage a c u) = u_Prices u"
    by (simp_all add: settled_usage_def Let_def)
  have "Charged (settled_usage a c u) = wrap64 (Charged u + ?d)"
    unfolding Charged_wrap counts_total_wrap add64_def sub64_def
    by (rule wrap64_eqI, simp only: settled_usage_def Let_def add64_def sub64_def wrap64_expand)
      (simp add: algebra_simps)
  also have "\<dots> = wrap64 (count_sum (bump (a_Tokens a) ?d (u_charged u)))"
    using assms(1) by (simp add: usage_inv_def count_sum_bump wrap64_absorb)
  finally have "Charged (settled_usage a c u) = wrap64 (count_sum (u_charged (settled_usage a c u)))"
    by (simp only: ch)
  then show ?thesis using assms unfolding usage_inv_def ch pr by (auto simp: bump_keys bump_distinct)
qed

lemma apply_settleD:
  assumes "apply_settle e st = Inr st'"
  obtains a c where "map_of (st_Open st) (e_Admit e) = Some a" and "e_Sent e = Some c"
    and "a_Route a = e_Route e" and "checkCounts (a_Purpose a) c = None"
    and "e_Overrun e = (a_Reserve a < counts_total c)"
    and "st' = put_usage (a_Route a) (settled_usage a c (usage_of st (a_Route a)))
           (st\<lparr>st_Open := AList.delete (e_Admit e) (st_Open st)\<rparr>)"
  using assms by (auto simp: apply_settle_def Let_def usage_of_frame split: option.splits if_splits)

lemma settled_Reserved: "u_Reserved (settled_usage a c u) = sub64 (u_Reserved u) (a_Reserve a)"
  by (simp add: settled_usage_def Let_def)

lemma settled_keys:
  "fst ` set (u_charged u) \<subseteq> fst ` set (u_charged (settled_usage a c u))"
  by (auto simp: settled_usage_def Let_def bump_keys)

lemma apply_settle_inv:
  assumes "apply_settle e st = Inr st'" and inv: "ledger_inv n st"
  shows "ledger_inv (n + 1) st'"
proof -
  obtain a c where a: "map_of (st_Open st) (e_Admit e) = Some a"
    and st': "st' = put_usage (a_Route a) (settled_usage a c (usage_of st (a_Route a)))
           (st\<lparr>st_Open := AList.delete (e_Admit e) (st_Open st)\<rparr>)"
    using assms(1) by (rule apply_settleD)
  have ok: "open_ok n st" and dist: "distinct (map fst (st_Open st))"
    using inv by (simp_all add: ledger_inv_def open_ok_def)
  have key: "a_Tokens a \<in> fst ` set (u_charged (usage_of st (a_Route a)))"
    using ok a by (simp add: open_ok_def)
  show ?thesis
  proof (rule ledger_invI)
    show "routes_wf st'" using inv by (simp add: st' ledger_simps routes_wf_put ledger_inv_def)
    show "usage_inv (usage_of st' x)" for x
      using inv usage_inv_settle [OF _ key] by (simp add: st' ledger_simps ledger_inv_def)
    show "u_Reserved (usage_of st' x) = wrap64 (open_reserve (st_Open st') x)" for x
      using inv by (simp add: st' ledger_simps ledger_inv_def open_reserve_delete [OF dist a] settled_Reserved
          sub64_def wrap64_absorb)
    show "open_ok (n + 1) st'"
      using ok settled_keys [of "usage_of st (a_Route a)" a c] unfolding open_ok_def
      by (fastforce simp: st' ledger_simps distinct_delete delete_conv' restrict_map_def split: if_splits)
    show "0 \<le> st_HostingUSD st'" using inv by (simp add: st' ledger_simps ledger_inv_def)
  qed
qed

lemma apply_entry_inv:
  assumes "apply_entry env e st = Inr st'" and "ledger_inv n st" and "e_Seq e = n + 1"
  shows "ledger_inv (n + 1) st'"
proof -
  have refused: "ledger_inv (n + 1) st"
    using assms(2) by (rule ledger_inv_frame [rotated -1]) (use assms(2) in \<open>auto simp: ledger_inv_def\<close>)
  show ?thesis
    using assms refused
    by (auto simp: apply_entry_def split: if_splits
        dest: apply_open_inv apply_price_inv apply_hosting_inv apply_admit_inv apply_settle_inv)
qed

section \<open>Parsing keeps the invariant and counts the lines\<close>

lemma apply_entry_Lines: "apply_entry env e st = Inr st' \<Longrightarrow> st_Lines st' = st_Lines st"
  by (auto simp: apply_entry_def apply_open_def apply_price_def apply_hosting_def apply_admit_def
      apply_settle_def Let_def put_usage_frame split: if_splits option.splits sum.splits prod.splits)

lemma parse_lineD:
  assumes "parse_line env done line st = Inr st'"
  obtains e st1 where "env_decode env line = Inr e" and "e_Seq e = st_Lines st + 1"
    and "e_Prev e = env_sha256hex env done" and "apply_entry env e st = Inr st1"
    and "st' = (if st_Lines st = 0 then st1\<lparr>st_OpenSHA256 := env_sha256hex env (done @ line @ [nl])\<rparr> else st1)
               \<lparr>st_Lines := st_Lines st + 1\<rparr>"
  using assms by (auto simp: parse_line_def Let_def split: sum.splits if_splits)

lemma ledger_inv_cosmetic:
  "ledger_inv n (st\<lparr>st_Lines := m\<rparr>) = ledger_inv n st"
  "ledger_inv n (st\<lparr>st_OpenSHA256 := s\<rparr>) = ledger_inv n st"
  "ledger_inv n (st\<lparr>st_HeadSHA256 := s\<rparr>) = ledger_inv n st"
  by (simp_all add: ledger_inv_def open_ok_def ledger_simps)

lemma parse_line_inv:
  assumes "parse_line env done line st = Inr st'" and "ledger_inv (st_Lines st) st"
  shows "ledger_inv (st_Lines st') st' \<and> st_Lines st' = st_Lines st + 1"
  using assms(1)
proof (rule parse_lineD)
  fix e st1
  assume e: "e_Seq e = st_Lines st + 1" "apply_entry env e st = Inr st1"
    and st': "st' = (if st_Lines st = 0 then st1\<lparr>st_OpenSHA256 := env_sha256hex env (done @ line @ [nl])\<rparr> else st1)
               \<lparr>st_Lines := st_Lines st + 1\<rparr>"
  have "ledger_inv (st_Lines st + 1) st1" by (rule apply_entry_inv [OF e(2) assms(2) e(1)])
  then show ?thesis by (auto simp: st' ledger_inv_cosmetic)
qed

definition terminated :: "string \<Rightarrow> bool" where
  "terminated b \<longleftrightarrow> b = [] \<or> last b = nl"

lemma terminated_split:
  assumes "terminated b" and "b \<noteq> []"
  shows "b = first_line b @ [nl] @ after_line b" and "terminated (after_line b)"
proof -
  have "nl \<in> set b" using assms last_in_set [of b] by (simp add: terminated_def)
  then have ne: "dropWhile (\<lambda>ch. ch \<noteq> nl) b \<noteq> []" by (simp add: dropWhile_eq_Nil_conv)
  have "dropWhile (\<lambda>ch. ch \<noteq> nl) b = nl # after_line b"
    using ne hd_dropWhile [OF ne] by (cases "dropWhile (\<lambda>ch. ch \<noteq> nl) b") (auto simp: after_line_def)
  then show b: "b = first_line b @ [nl] @ after_line b"
    by (metis append_Cons append_Nil first_line_def takeWhile_dropWhile_id)
  show "terminated (after_line b)"
    using assms arg_cong [OF b, of last] by (auto simp: terminated_def split: if_splits)
qed

lemma first_line_append:
  assumes "nl \<notin> set l"
  shows "first_line (l @ nl # x) = l" and "after_line (l @ nl # x) = x"
  using assms by (induction l) (auto simp: first_line_def after_line_def)

lemma first_line_no_nl: "nl \<notin> set (first_line b)"
  by (auto simp: first_line_def dest: set_takeWhileD)

lemma parse_loop_append:
  "terminated b \<Longrightarrow> parse_loop env done (b @ x) st =
     (case parse_loop env done b st of Inl err \<Rightarrow> Inl err | Inr st' \<Rightarrow> parse_loop env (done @ b) x st')"
proof (induction env "done" b st rule: parse_loop.induct)
  case (1 env "done" b st)
  show ?case
  proof (cases "b = []")
    case True
    then show ?thesis by (simp add: parse_loop.simps [of env "done" "[]" st])
  next
    case False
    note sp = terminated_split [OF "1.prems" False]
    have fl: "first_line (b @ x) = first_line b" and al: "after_line (b @ x) = after_line b @ x"
      using first_line_append [OF first_line_no_nl, of b "after_line b @ x"] sp(1) by (metis append.assoc append_Cons append_Nil)+
    have db: "done @ first_line b @ [nl] @ after_line b = done @ b" using sp(1) by simp
    show ?thesis
      using False "1.IH" [OF False _ sp(2)] db
      by (simp add: parse_loop.simps [of env "done" "b @ x" st] parse_loop.simps [of env "done" b st] fl al
          split: sum.split)
  qed
qed

lemma parse_loop_inv:
  "parse_loop env done b st = Inr st' \<Longrightarrow> terminated b \<Longrightarrow> ledger_inv (st_Lines st) st \<Longrightarrow>
     ledger_inv (st_Lines st') st' \<and> st_Lines st' = st_Lines st + int (count_list b nl)"
proof (induction env "done" b st rule: parse_loop.induct)
  case (1 env "done" b st)
  show ?case
  proof (cases "b = []")
    case True
    with "1.prems" show ?thesis by (simp add: parse_loop.simps [of env "done" "[]" st])
  next
    case False
    note sp = terminated_split [OF "1.prems"(2) False]
    from "1.prems"(1) False obtain st1 where line: "parse_line env done (first_line b) st = Inr st1"
      and rest: "parse_loop env (done @ first_line b @ [nl]) (after_line b) st1 = Inr st'"
      by (auto simp: parse_loop.simps [of env "done" b st] split: sum.splits)
    note one = parse_line_inv [OF line "1.prems"(3)]
    have "count_list b nl = Suc (count_list (after_line b) nl)"
      using arg_cong [OF sp(1), of "\<lambda>s. count_list s nl"] first_line_no_nl [of b]
      by (simp add: count_notin)
    with "1.IH" [OF False line rest sp(2)] one show ?thesis by auto
  qed
qed

lemma ParseD:
  assumes "Parse env b = Inr st"
  obtains st1 where "b \<noteq> []" and "terminated b" and "parse_loop env [] b init_state = Inr st1"
    and "st = st1\<lparr>st_HeadSHA256 := env_sha256hex env b\<rparr>"
  using assms by (auto simp: Parse_def terminated_def split: if_splits sum.splits)

lemma Parse_inv:
  assumes "Parse env b = Inr st"
  shows "ledger_inv (st_Lines st) st" and "st_Lines st = int (count_list b nl)" and "1 \<le> st_Lines st"
proof -
  obtain st1 where b: "b \<noteq> []" "terminated b" and l: "parse_loop env [] b init_state = Inr st1"
    and st: "st = st1\<lparr>st_HeadSHA256 := env_sha256hex env b\<rparr>" using assms by (rule ParseD)
  have "st_Lines init_state = 0" by (simp add: init_state_def)
  with parse_loop_inv [OF l b(2)] init_inv
  have i: "ledger_inv (st_Lines st1) st1" "st_Lines st1 = int (count_list b nl)" by (metis add_0)+
  then show "ledger_inv (st_Lines st) st" and n: "st_Lines st = int (count_list b nl)"
    unfolding st by (simp_all add: ledger_inv_cosmetic)
  have "nl \<in> set b" using b last_in_set [of b] by (simp add: terminated_def)
  then have "count_list b nl \<noteq> 0" by (simp add: count_list_0_iff)
  with n show "1 \<le> st_Lines st" by linarith
qed

section \<open>Appending a line\<close>

text \<open>What a line keeps of an entry: the JSON coding drops the unexported amounts of a position.
  \<open>codec_ok\<close> says that the entry's line is one line and decodes to just that, which
  \<^verbatim>\<open>encoding/json\<close> promises of an entry whose strings are valid UTF-8.\<close>

definition wire_position :: "position \<Rightarrow> position" where
  "wire_position p = p\<lparr>pos_liab := 0, pos_routeLiab := None\<rparr>"

definition wire_entry :: "entry \<Rightarrow> entry" where
  "wire_entry e = e\<lparr>e_Before := map_option wire_position (e_Before e), e_After := map_option wire_position (e_After e)\<rparr>"

definition codec_ok :: "ledger_env \<Rightarrow> entry \<Rightarrow> bool" where
  "codec_ok env e \<longleftrightarrow> env_decode env (env_encode env e) = Inr (wire_entry e) \<and> nl \<notin> set (env_encode env e)"

lemma wire_fields [simp]:
  "e_Seq (wire_entry e) = e_Seq e" "e_Prev (wire_entry e) = e_Prev e" "e_Kind (wire_entry e) = e_Kind e"
  "e_SchemaVersion (wire_entry e) = e_SchemaVersion e" "e_Caps (wire_entry e) = e_Caps e"
  "e_Route (wire_entry e) = e_Route e" "e_PerRequestUSD (wire_entry e) = e_PerRequestUSD e"
  "e_USD (wire_entry e) = e_USD e" "e_Purpose (wire_entry e) = e_Purpose e" "e_Reserve (wire_entry e) = e_Reserve e"
  "e_Admit (wire_entry e) = e_Admit e" "e_Sent (wire_entry e) = e_Sent e" "e_Overrun (wire_entry e) = e_Overrun e"
  "entry_price (wire_entry e) = entry_price e" "entry_tokens (wire_entry e) = entry_tokens e"
  by (simp_all add: wire_entry_def entry_price_def entry_tokens_def)

lemma apply_wire: "apply_entry env (wire_entry e) st = apply_entry env e st"
  unfolding apply_entry_def apply_open_def apply_price_def apply_hosting_def apply_admit_def apply_settle_def wire_fields ..

lemma stamp_head: "e_Seq (stamp env b e) = int (count_list b nl) + 1" "e_Prev (stamp env b e) = env_sha256hex env b"
  by (simp_all add: stamp_def)

text \<open>The caps in force are the open line's.\<close>

definition caps_inv :: "state \<Rightarrow> bool" where
  "caps_inv st \<longleftrightarrow> checkCaps (st_Caps st) = Inr (st_liabilityCap st, st_routeCaps st)"

lemma apply_entry_caps:
  assumes "apply_entry env e st = Inr st'" and "e_Seq e \<noteq> 1 \<Longrightarrow> caps_inv st"
  shows "caps_inv st'"
proof (cases "e_Seq e = 1")
  case True
  with assms(1) show ?thesis
    by (auto simp: apply_entry_def apply_open_def caps_inv_def split: if_splits option.splits sum.splits)
next
  case False
  with assms(1) have "st_Caps st' = st_Caps st \<and> st_liabilityCap st' = st_liabilityCap st \<and> st_routeCaps st' = st_routeCaps st"
    by (auto simp: apply_entry_def apply_price_def apply_hosting_def apply_admit_def apply_settle_def Let_def
        put_usage_frame split: if_splits option.splits sum.splits)
  then show ?thesis using assms(2) [OF False] by (simp add: caps_inv_def)
qed

lemma parse_line_caps:
  assumes "parse_line env done line st = Inr st'" and "st_Lines st \<noteq> 0 \<Longrightarrow> caps_inv st"
  shows "caps_inv st'"
  using assms(1)
proof (rule parse_lineD)
  fix e st1
  assume e: "e_Seq e = st_Lines st + 1" "apply_entry env e st = Inr st1"
    and st': "st' = (if st_Lines st = 0 then st1\<lparr>st_OpenSHA256 := env_sha256hex env (done @ line @ [nl])\<rparr> else st1)
               \<lparr>st_Lines := st_Lines st + 1\<rparr>"
  have "caps_inv st1" using apply_entry_caps [OF e(2)] assms(2) e(1) by simp
  then show "caps_inv st'" by (simp add: st' caps_inv_def)
qed

lemma parse_loop_caps:
  "parse_loop env done b st = Inr st' \<Longrightarrow> (b = [] \<Longrightarrow> caps_inv st) \<Longrightarrow> (st_Lines st \<noteq> 0 \<Longrightarrow> caps_inv st) \<Longrightarrow> caps_inv st'"
proof (induction env "done" b st rule: parse_loop.induct)
  case (1 env "done" b st)
  show ?case
  proof (cases "b = []")
    case True
    with "1.prems" show ?thesis by (simp add: parse_loop.simps [of env "done" "[]" st])
  next
    case False
    from "1.prems"(1) False obtain st1 where line: "parse_line env done (first_line b) st = Inr st1"
      and rest: "parse_loop env (done @ first_line b @ [nl]) (after_line b) st1 = Inr st'"
      by (auto simp: parse_loop.simps [of env "done" b st] split: sum.splits)
    have "caps_inv st1" by (rule parse_line_caps [OF line "1.prems"(3)])
    then show ?thesis using "1.IH" [OF False line rest] by blast
  qed
qed

lemma Parse_caps:
  assumes "Parse env b = Inr st"
  shows "caps_inv st" and "0 \<le> cap_WindowRequests (st_Caps st)" and "0 < st_liabilityCap st"
proof -
  obtain st1 where b: "b \<noteq> []" and l: "parse_loop env [] b init_state = Inr st1"
    and st: "st = st1\<lparr>st_HeadSHA256 := env_sha256hex env b\<rparr>" using assms by (rule ParseD)
  have "caps_inv st1" using parse_loop_caps [OF l] b by (simp add: init_state_def)
  then show caps: "caps_inv st" by (simp add: st caps_inv_def)
  then show "0 \<le> cap_WindowRequests (st_Caps st)" "0 < st_liabilityCap st"
    unfolding caps_inv_def checkCaps_def
    by (auto dest: decimal_nonneg simp: less_le split: if_splits option.splits sum.splits)
qed

text \<open>The head hash takes no part in the replay.\<close>

lemma head_frame:
  "usage_of (st\<lparr>st_HeadSHA256 := h\<rparr>) r = usage_of st r"
  "price_of (st\<lparr>st_HeadSHA256 := h\<rparr>) r t = price_of st r t"
  "put_usage r u (st\<lparr>st_HeadSHA256 := h\<rparr>) = (put_usage r u st)\<lparr>st_HeadSHA256 := h\<rparr>"
  by (simp_all add: usage_of_def price_of_def put_usage_def)

lemma apply_entry_head:
  "apply_entry env e (st\<lparr>st_HeadSHA256 := h\<rparr>) =
     (case apply_entry env e st of Inl err \<Rightarrow> Inl err | Inr st' \<Rightarrow> Inr (st'\<lparr>st_HeadSHA256 := h\<rparr>))"
proof -
  have "apply_open e (st\<lparr>st_HeadSHA256 := h\<rparr>) =
      (case apply_open e st of Inl err \<Rightarrow> Inl err | Inr st' \<Rightarrow> Inr (st'\<lparr>st_HeadSHA256 := h\<rparr>))"
    by (simp add: apply_open_def split: option.split sum.split prod.split)
  moreover have "apply_price env e (st\<lparr>st_HeadSHA256 := h\<rparr>) =
      (case apply_price env e st of Inl err \<Rightarrow> Inl err | Inr st' \<Rightarrow> Inr (st'\<lparr>st_HeadSHA256 := h\<rparr>))"
    by (simp add: apply_price_def Let_def head_frame split: sum.split)
  moreover have "apply_hosting e (st\<lparr>st_HeadSHA256 := h\<rparr>) =
      (case apply_hosting e st of Inl err \<Rightarrow> Inl err | Inr st' \<Rightarrow> Inr (st'\<lparr>st_HeadSHA256 := h\<rparr>))"
    by (simp add: apply_hosting_def split: option.split)
  moreover have "apply_admit e (st\<lparr>st_HeadSHA256 := h\<rparr>) =
      (case apply_admit e st of Inl err \<Rightarrow> Inl err | Inr st' \<Rightarrow> Inr (st'\<lparr>st_HeadSHA256 := h\<rparr>))"
    by (simp add: apply_admit_def Let_def head_frame put_usage_frame split: option.split)
  moreover have "apply_settle e (st\<lparr>st_HeadSHA256 := h\<rparr>) =
      (case apply_settle e st of Inl err \<Rightarrow> Inl err | Inr st' \<Rightarrow> Inr (st'\<lparr>st_HeadSHA256 := h\<rparr>))"
    by (simp add: apply_settle_def Let_def usage_of_frame put_usage_def split: option.split)
  ultimately show ?thesis by (simp add: apply_entry_def)
qed

text \<open>Appending replays exactly one more entry.\<close>

lemma Parse_append:
  assumes "Parse env b = Inr st" and "codec_ok env (stamp env b e)"
  shows "Parse env (append_entry env b e) =
    (case apply_entry env (stamp env b e) st of
       Inl err \<Rightarrow> Inl err
     | Inr st' \<Rightarrow> Inr (st'\<lparr>st_Lines := st_Lines st + 1,
                          st_HeadSHA256 := env_sha256hex env (append_entry env b e)\<rparr>))"
proof -
  obtain st1 where b: "b \<noteq> []" "terminated b" and l: "parse_loop env [] b init_state = Inr st1"
    and st: "st = st1\<lparr>st_HeadSHA256 := env_sha256hex env b\<rparr>" using assms(1) by (rule ParseD)
  define line where "line = env_encode env (stamp env b e)"
  have dec: "env_decode env line = Inr (wire_entry (stamp env b e))" and nonl: "nl \<notin> set line"
    using assms(2) by (simp_all add: codec_ok_def line_def)
  have lines: "st_Lines st1 = int (count_list b nl)" and pos: "st_Lines st1 \<noteq> 0"
    using Parse_inv [OF assms(1)] by (simp_all add: st)
  have one: "parse_loop env b (line @ [nl]) st1 =
      (case apply_entry env (stamp env b e) st1 of
         Inl err \<Rightarrow> Inl err | Inr st' \<Rightarrow> Inr (st'\<lparr>st_Lines := st_Lines st1 + 1\<rparr>))"
    using first_line_append [OF nonl, of "[]"] dec pos lines
    by (simp add: parse_loop.simps [of env b "line @ [nl]"] parse_loop.simps [of env _ "[]"] parse_line_def apply_wire
        stamp_head split: sum.split)
  have content: "append_entry env b e = b @ line @ [nl]" by (simp add: append_entry_def line_def)
  have "parse_loop env [] (append_entry env b e) init_state = parse_loop env b (line @ [nl]) st1"
    using parse_loop_append [OF b(2), of env "[]" "line @ [nl]" init_state] l by (simp add: content)
  then show ?thesis
    unfolding Parse_def st apply_entry_head one by (simp add: content split: sum.split)
qed

end
