(* ===== verification/LedgerOps.thy ===== *)
theory LedgerOps
  imports LedgerInv
begin

text \<open>
  The ledger's operations over the invariant: the closed form of the liability, that every line an
  operation writes is accepted when the file is read back, what an admission and a settlement do to
  the charges, and the properties of the component.
\<close>

section \<open>The liability in closed form\<close>

definition amount :: "(tokens \<Rightarrow> rat option) \<Rightarrow> (tokens \<times> int) list \<Rightarrow> rat" where
  "amount price m = (\<Sum>(t, n)\<leftarrow>m. (case price t of None \<Rightarrow> 0 | Some p \<Rightarrow> p * of_int n))"

lemma priced_sum_amount:
  "\<forall>t\<in>fst ` set m. price t \<noteq> None \<Longrightarrow> priced_sum price r m = Inr (amount price m)"
  by (induction price r m rule: priced_sum.induct) (auto simp: amount_def)

lemma sum_routes_Inr:
  "\<forall>r\<in>set rs. f r = Inr (g r) \<Longrightarrow> sum_routes f rs s = Inr (s + sum_list (map g rs))"
  by (induction rs arbitrary: s) (simp_all add: add.assoc)

definition projected :: "state \<Rightarrow> string \<Rightarrow> tokens \<Rightarrow> int \<Rightarrow> string \<Rightarrow> rat" where
  "projected st route tok extra r = amount (price_of st r) (charged_with st r route tok extra)"

lemma charged_priced:
  assumes "ledger_inv n st" and "0 < extra \<Longrightarrow> price_of st route tok \<noteq> None"
    and "t \<in> fst ` set (charged_with st r route tok extra)"
  shows "price_of st r t \<noteq> None"
  using assms(2,3) ledger_invD(2) [OF assms(1), of r] unfolding usage_inv_def charged_with_usage price_of_usage
  by (auto simp: bump_keys split: if_splits)

lemma routeLiability_eq:
  assumes "ledger_inv n st" and "0 < extra \<Longrightarrow> price_of st route tok \<noteq> None"
  shows "routeLiability st r route tok extra = Inr (projected st route tok extra r)"
  unfolding routeLiability_def projected_def
  using charged_priced [OF assms] by (intro priced_sum_amount) blast

lemma liability_eq:
  assumes "ledger_inv n st" and "0 < extra \<Longrightarrow> price_of st route tok \<noteq> None"
  shows "liability st route tok extra =
    Inr (st_HostingUSD st + sum_list (map (projected st route tok extra) (st_order st)))"
  unfolding liability_def using routeLiability_eq [OF assms] by (intro sum_routes_Inr) blast

lemma total_charge_wrap:
  assumes "routes_wf st"
  shows "total_charge st = wrap64 (sum_list (map (\<lambda>r. Charged (usage_of st r)) (st_order st)))"
proof -
  have fold: "foldl (\<lambda>n ru. add64 n (Charged (snd ru))) (wrap64 k) rs = wrap64 (k + sum_list (map (Charged \<circ> snd) rs))"
    for rs :: "(string \<times> usage) list" and k
    by (induction rs arbitrary: k) (simp_all add: add64_def wrap64_absorb add.assoc)
  have order: "st_order st = map fst (st_Routes st)" and dist: "distinct (map fst (st_Routes st))"
    using assms by (simp_all add: routes_wf_def)
  have "Charged (snd x) = Charged (usage_of st (fst x))" if "x \<in> set (st_Routes st)" for x
    using map_of_is_SomeI [OF dist, of "fst x" "snd x"] that by (simp add: usage_of_def)
  then have "map (Charged \<circ> snd) (st_Routes st) = map (\<lambda>r. Charged (usage_of st r)) (st_order st)"
    unfolding order by simp
  moreover have "wrap64 0 = 0" by (simp add: wrap64_def)
  ultimately show ?thesis using fold [of 0 "st_Routes st"] by (simp add: total_charge_def)
qed

section \<open>Every line an operation writes is read back\<close>

text \<open>Stamping only sets the sequence number, the chain hash and the time.\<close>

lemma stamp_fields [simp]:
  "e_Kind (stamp env b e) = e_Kind e" "e_Route (stamp env b e) = e_Route e"
  "e_Reserve (stamp env b e) = e_Reserve e" "e_Purpose (stamp env b e) = e_Purpose e"
  "e_PerRequestUSD (stamp env b e) = e_PerRequestUSD e" "e_Admit (stamp env b e) = e_Admit e"
  "e_Sent (stamp env b e) = e_Sent e" "e_Overrun (stamp env b e) = e_Overrun e"
  "e_USD (stamp env b e) = e_USD e" "entry_tokens (stamp env b e) = entry_tokens e"
  "entry_price (stamp env b e) = entry_price e" "e_Seq (stamp env b e) = int (count_list b nl) + 1"
  by (simp_all add: stamp_def entry_tokens_def entry_price_def)

lemma price_accepted:
  assumes "price_decision env route p st = (Some e, err)" and "1 \<le> count_list b nl"
  shows "err = None \<and> (\<exists>st'. apply_entry env (stamp env b e) st = Inr st')"
proof -
  define p' where "p' = (if pr_InputTokens p = 0 \<and> pr_OutputTokens p = 0
      then p\<lparr>pr_InputTokens := cap_MaxInputTokens (st_Caps st), pr_OutputTokens := cap_MaxOutputTokens (st_Caps st)\<rparr>
      else p)"
  show ?thesis
  proof (cases "checkPrice env route p'")
    case Inl
    with assms(1) show ?thesis by (simp add: price_decision_def Let_def flip: p'_def)
  next
    case (Inr r)
    with assms(1) have err: "err = None"
      and e: "e_Kind e = KindPrice" "e_Route e = route" "e_PerRequestUSD e = decimalString r" "entry_price e = p'"
      by (auto simp: price_decision_def Let_def entry_price_def simp flip: p'_def)
    with Inr assms(2) show ?thesis by (simp add: apply_entry_def apply_price_def Let_def)
  qed
qed

lemma hosting_accepted:
  assumes "hosting_decision usd note st = (Some e, err)" and "1 \<le> count_list b nl"
  shows "err = None \<and> (\<exists>st'. apply_entry env (stamp env b e) st = Inr st')"
proof -
  obtain r where r: "decimal usd = Some r" and err: "err = None" and e: "e_Kind e = KindHosting" "e_USD e = usd"
    using assms(1) by (auto simp: hosting_decision_def split: option.splits if_splits)
  show ?thesis using assms(2) by (simp add: apply_entry_def apply_hosting_def r err e)
qed

lemma settle_accepted:
  assumes "settle_decision a sent st = (Some e, err)" and "1 \<le> count_list b nl"
  shows "err = None \<and> (\<exists>st'. apply_entry env (stamp env b e) st = Inr st')"
proof -
  obtain e' where open_: "map_of (st_Open st) (a_Seq a) = Some a"
    and counts: "checkCounts (a_Purpose a) sent = None" and err: "err = None"
    and e: "e_Kind e = KindSettle" "e_Route e = a_Route a" "e_Admit e = a_Seq a" "e_Sent e = Some sent"
      "e_Overrun e = (a_Reserve a < counts_total sent)"
    using assms(1) by (auto simp: settle_decision_def split: option.splits if_splits)
  show ?thesis using assms(2) by (simp add: apply_entry_def apply_settle_def open_ counts err e Let_def)
qed

text \<open>The cases of an admission: a guard error writes nothing, a refusal writes a refused line,
  an admission an admit line.\<close>

lemma admit_decision_cases:
  obtains (guard) err where "admit_guard st route purpose n tok rv = Some err"
      and "admit_decision route purpose n tok rv st = (None, Some err)"
  | (refused) e reason where "admit_guard st route purpose n tok rv = None" and "e_Kind e = KindRefused"
      and "admit_decision route purpose n tok rv st = (Some e, Some (Refusal route purpose reason))"
  | (admitted) e before after where "admit_guard st route purpose n tok rv = None"
      and "position_at st route tok 0 = Inr before" and "position_at st route tok n = Inr after"
      and "cap_exceeded st route after = None" and "e_Kind e = KindAdmit" and "e_Route e = route"
      and "e_Purpose e = purpose" and "e_Reserve e = n" and "entry_tokens e = tok"
      and "e_PerRequestUSD e = decimalString (the (price_of st route tok))"
      and "e_Before e = Some before" and "e_After e = Some after"
      and "admit_decision route purpose n tok rv st = (Some e, None)"
proof (cases "admit_guard st route purpose n tok rv")
  case (Some err)
  then show thesis by (intro guard) (simp_all add: admit_decision_def Let_def)
next
  case guard_ok: None
  show thesis
  proof (cases "position_at st route tok 0")
    case Inl
    with guard_ok show thesis by (intro refused) (simp_all add: admit_decision_def Let_def)
  next
    case before: (Inr before)
    show thesis
    proof (cases "position_at st route tok n")
      case Inl
      with guard_ok before show thesis by (intro refused) (simp_all add: admit_decision_def Let_def)
    next
      case after: (Inr after)
      show thesis
      proof (cases "cap_exceeded st route after")
        case None
        with guard_ok before after show thesis
          by (intro admitted) (simp_all add: admit_decision_def Let_def entry_tokens_def)
      next
        case Some
        with guard_ok before after show thesis
          by (intro refused) (simp_all add: admit_decision_def Let_def)
      qed
    qed
  qed
qed

lemma position_priced: "position_at st route tok n = Inr p \<Longrightarrow> price_of st route tok \<noteq> None"
  by (auto simp: position_at_def split: if_splits)

lemma admit_guardD:
  assumes "admit_guard st route purpose n tok rv = None" and "0 \<le> cap_WindowRequests (st_Caps st)"
  shows "route \<noteq> []" and "1 \<le> n" and "checkCounts purpose zero_counts = None"
    and "purpose = PurposeWindow \<or> purpose = PurposeReplacement \<Longrightarrow> n = cap_WindowRequests (st_Caps st)"
  using assms by (auto simp: admit_guard_def checkCounts_def zero_counts_def add64_def wrap64_def split: if_splits)

lemma admit_accepted:
  assumes "admit_decision route purpose n tok rv st = (Some e, err)" and "1 \<le> count_list b nl"
    and "0 \<le> cap_WindowRequests (st_Caps st)"
  shows "\<exists>st'. apply_entry env (stamp env b e) st = Inr st'"
proof (cases rule: admit_decision_cases [of st route purpose n tok rv])
  case guard
  with assms(1) show ?thesis by simp
next
  case refused
  with assms show ?thesis by (simp add: apply_entry_def)
next
  case (admitted e' before after)
  with assms(1) have e: "e = e'" by simp
  obtain p where "price_of st route tok = Some p" using position_priced [OF admitted(3)] by blast
  moreover have "\<not> ((purpose = PurposeWindow \<or> purpose = PurposeReplacement) \<and> n \<noteq> cap_WindowRequests (st_Caps st))"
    using admit_guardD(4) [OF admitted(1) assms(3)] by blast
  ultimately show ?thesis
    using admitted assms(2) admit_guardD(1-3) [OF admitted(1) assms(3)]
    by (simp add: e apply_entry_def apply_admit_def Let_def)
qed

section \<open>The contract of an operation\<close>

text \<open>An operation of the ledger is a decision on the parsed state. What it promises the file is that
  every entry it asks to write replays on the state it was decided on.\<close>

locale ledger_op =
  fixes env :: ledger_env and decide :: "state \<Rightarrow> decision"
  assumes accepted: "decide st = (Some e, err) \<Longrightarrow> 1 \<le> count_list b nl \<Longrightarrow> 0 \<le> cap_WindowRequests (st_Caps st)
      \<Longrightarrow> \<exists>st'. apply_entry env (stamp env b e) st = Inr st'"
begin

lemma update_cases:
  assumes "parse_bound env bound b = Inr st" and "update env bound b decide = ((w, err), b')"
  obtains (kept) "w = None" and "b' = b"
  | (wrote) e where "decide st = (Some e, err)" and "w = Some (stamp env b e)" and "b' = append_entry env b e"
proof -
  obtain e' err' where d: "decide st = (e', err')" by (cases "decide st")
  show thesis
  proof (cases e')
    case None
    with assms d have "w = None \<and> b' = b" by (cases err') (simp_all add: update_def split: if_splits)
    then show thesis by (intro kept) simp_all
  next
    case (Some e)
    show thesis
    proof (cases "err' = None \<or> is_refusal (the err')")
      case True
      with assms d Some have "err = err' \<and> w = Some (stamp env b e) \<and> b' = append_entry env b e"
        by (cases err') (simp_all add: update_def)
      with d Some show thesis by (intro wrote) simp_all
    next
      case False
      with assms d Some have "w = None \<and> b' = b" by (cases err') (simp_all add: update_def)
      then show thesis by (intro kept) simp_all
    qed
  qed
qed

lemma update_replays:
  assumes "Parse env b = Inr st" and "decide st = (Some e, err)" and "codec_ok env (stamp env b e)"
  obtains st1 where "apply_entry env (stamp env b e) st = Inr st1"
    and "Parse env (append_entry env b e) = Inr (st1\<lparr>st_Lines := st_Lines st + 1,
            st_HeadSHA256 := env_sha256hex env (append_entry env b e)\<rparr>)"
proof -
  have "1 \<le> count_list b nl" using Parse_inv(2,3) [OF assms(1)] by linarith
  from accepted [OF assms(2) this Parse_caps(2) [OF assms(1)]]
  obtain st1 where "apply_entry env (stamp env b e) st = Inr st1" by blast
  with Parse_append [OF assms(1,3)] that show thesis by simp
qed

end

interpretation price_op: ledger_op env "price_decision env route p" for env route p
  by unfold_locales (blast dest: price_accepted)

interpretation hosting_op: ledger_op env "hosting_decision usd memo" for env usd memo
  by unfold_locales (blast dest: hosting_accepted)

interpretation admit_op: ledger_op env "admit_decision route purpose n tok rv" for env route purpose n tok rv
  by unfold_locales (blast dest: admit_accepted)

interpretation settle_op: ledger_op env "settle_decision a sent" for env a sent
  by unfold_locales (blast dest: settle_accepted)

lemma parse_boundD: "parse_bound env bound b = Inr st \<Longrightarrow> Parse env b = Inr st"
  by (auto simp: parse_bound_def split: sum.splits if_splits)

lemma apply_entry_OpenSHA256: "apply_entry env e st = Inr st' \<Longrightarrow> st_OpenSHA256 st' = st_OpenSHA256 st"
  by (auto simp: apply_entry_def apply_open_def apply_price_def apply_hosting_def apply_admit_def
      apply_settle_def Let_def put_usage_frame split: if_splits option.splits sum.splits prod.splits)

context ledger_op
begin

text \<open>After the operation the file still parses, to a state bound to the same open line.\<close>

lemma update_parses:
  assumes "parse_bound env bound b = Inr st" and "update env bound b decide = ((w, err), b')"
    and "\<forall>e. w = Some e \<longrightarrow> codec_ok env e"
  shows "\<exists>st'. parse_bound env bound b' = Inr st' \<and> (\<exists>l. b' = b @ l)"
  using assms(1,2)
proof (cases rule: update_cases)
  case kept
  with assms(1) show ?thesis by auto
next
  case (wrote e)
  note p = parse_boundD [OF assms(1)]
  obtain st1 where st1: "apply_entry env (stamp env b e) st = Inr st1"
    and pr: "Parse env b' = Inr (st1\<lparr>st_Lines := st_Lines st + 1, st_HeadSHA256 := env_sha256hex env b'\<rparr>)"
    using update_replays [OF p wrote(1)] assms(3) wrote(2,3) by blast
  have "bound = [] \<or> st_OpenSHA256 st = bound" using assms(1) p by (auto simp: parse_bound_def split: if_splits)
  with pr apply_entry_OpenSHA256 [OF st1] show ?thesis
    by (auto simp: parse_bound_def wrote(3) append_entry_def)
qed

end

end
