(* ===== verification/LedgerProps.thy ===== *)
theory LedgerProps
  imports LedgerOps
begin

text \<open>
  The ledger as a state machine on its file, and the properties of the component: every reachable
  file parses and its liability is defined, the hash chain, what an admission, a refusal, a price
  and a settlement do to the charges, and the one way past the caps.
\<close>

section \<open>Files reachable by the operations\<close>

text \<open>Every operation holds the file's lock from its read to its append, so concurrent clients
  interleave as a sequence of whole operations. Each runs at its own time \<open>t\<close>.\<close>

inductive ledger_file :: "ledger_env \<Rightarrow> string \<Rightarrow> bool" for env where
  created: "Create (env\<lparr>env_now := t\<rparr>) c = Inr b \<Longrightarrow>
     codec_ok env (stamp (env\<lparr>env_now := t\<rparr>) [] (zero_entry\<lparr>e_Kind := KindOpen, e_SchemaVersion := 1, e_Caps := Some c\<rparr>)) \<Longrightarrow>
     ledger_file env b"
| priced: "ledger_file env b \<Longrightarrow> RecordPrice (env\<lparr>env_now := t\<rparr>) bound b route p = ((w, err), b') \<Longrightarrow>
     \<forall>e. w = Some e \<longrightarrow> codec_ok env e \<Longrightarrow> ledger_file env b'"
| hosted: "ledger_file env b \<Longrightarrow> RecordHosting (env\<lparr>env_now := t\<rparr>) bound b usd memo = ((w, err), b') \<Longrightarrow>
     \<forall>e. w = Some e \<longrightarrow> codec_ok env e \<Longrightarrow> ledger_file env b'"
| admitted: "ledger_file env b \<Longrightarrow>
     update (env\<lparr>env_now := t\<rparr>) bound b (admit_decision route purpose n tok rv) = ((w, err), b') \<Longrightarrow>
     \<forall>e. w = Some e \<longrightarrow> codec_ok env e \<Longrightarrow> ledger_file env b'"
| settled: "ledger_file env b \<Longrightarrow>
     update (env\<lparr>env_now := t\<rparr>) bound b (settle_decision a sent) = ((w, err), b') \<Longrightarrow>
     \<forall>e. w = Some e \<longrightarrow> codec_ok env e \<Longrightarrow> ledger_file env b'"

text \<open>The clock takes no part in reading.\<close>

lemma env_now_fields:
  "env_sha256hex (env\<lparr>env_now := t\<rparr>) = env_sha256hex env" "env_decode (env\<lparr>env_now := t\<rparr>) = env_decode env"
  "env_http_url (env\<lparr>env_now := t\<rparr>) = env_http_url env" "env_encode (env\<lparr>env_now := t\<rparr>) = env_encode env"
  by simp_all

lemma apply_entry_now: "apply_entry (env\<lparr>env_now := t\<rparr>) e st = apply_entry env e st"
  unfolding apply_entry_def apply_price_def checkPrice_def env_now_fields ..

lemma parse_line_now: "parse_line (env\<lparr>env_now := t\<rparr>) d l st = parse_line env d l st"
  unfolding parse_line_def apply_entry_now env_now_fields ..

lemma parse_loop_now: "parse_loop (env\<lparr>env_now := t\<rparr>) d b st = parse_loop env d b st"
proof (induction env d b st rule: parse_loop.induct)
  case (1 env d b st)
  then show ?case
    by (simp add: parse_loop.simps [of "env\<lparr>env_now := t\<rparr>" d b st] parse_loop.simps [of env d b st] parse_line_now
        split: sum.split)
qed

lemma Parse_now [simp]: "Parse (env\<lparr>env_now := t\<rparr>) b = Parse env b"
  unfolding Parse_def parse_loop_now env_now_fields ..

lemma codec_ok_now [simp]: "codec_ok (env\<lparr>env_now := t\<rparr>) e = codec_ok env e"
  by (simp add: codec_ok_def)

lemma parse_bound_now [simp]: "parse_bound (env\<lparr>env_now := t\<rparr>) bound b = parse_bound env bound b"
  by (simp add: parse_bound_def)

lemma Create_parses:
  assumes "Create env c = Inr b"
    and "codec_ok env (stamp env [] (zero_entry\<lparr>e_Kind := KindOpen, e_SchemaVersion := 1, e_Caps := Some c\<rparr>))"
  shows "\<exists>st. Parse env b = Inr st"
proof -
  let ?e = "stamp env [] (zero_entry\<lparr>e_Kind := KindOpen, e_SchemaVersion := 1, e_Caps := Some c\<rparr>)"
  obtain g rs where caps: "checkCaps c = Inr (g, rs)" and b: "b = env_encode env ?e @ [nl]"
    using assms(1) by (auto simp: Create_def append_entry_def split: sum.splits)
  have e: "e_Kind ?e = KindOpen" "e_Seq ?e = 1" "e_SchemaVersion ?e = 1" "e_Caps ?e = Some c" "e_Prev ?e = env_sha256hex env []"
    by (simp_all add: stamp_def)
  have nonl: "nl \<notin> set (env_encode env ?e)" and dec: "env_decode env (env_encode env ?e) = Inr (wire_entry ?e)"
    using assms(2) unfolding codec_ok_def by blast+
  define line where "line = env_encode env ?e"
  have "is_ok (parse_line env [] line init_state)"
    using e dec by (simp add: line_def parse_line_def apply_wire apply_entry_def apply_open_def caps init_state_def Let_def)
  then obtain st where st: "parse_line env [] line init_state = Inr st" by (auto simp: is_ok_iff)
  then have "parse_loop env [] b init_state = Inr st"
    using first_line_append [OF nonl, of "[]"]
    by (simp add: b line_def parse_loop.simps [of env _ "[]"] parse_loop.simps [of env "[]" "env_encode env ?e @ [nl]"])
  then show ?thesis by (simp add: Parse_def b)
qed

lemma update_keeps_parsing:
  assumes "ledger_op env decide" and "Parse env b = Inr st" and "update env bound b decide = ((w, err), b')"
    and "\<forall>e. w = Some e \<longrightarrow> codec_ok env e"
  shows "\<exists>st'. Parse env b' = Inr st'"
proof (cases "parse_bound env bound b")
  case Inl
  then show ?thesis using assms(2,3) by (auto simp: update_def)
next
  case (Inr st1)
  show ?thesis using ledger_op.update_parses [OF assms(1) Inr assms(3,4)] by (blast dest: parse_boundD)
qed

lemma ledger_file_Parse: "ledger_file env b \<Longrightarrow> \<exists>st. Parse env b = Inr st"
proof (induction rule: ledger_file.induct)
  case (created t c b)
  then show ?case using Create_parses [of "env\<lparr>env_now := t\<rparr>" c b] by simp
next
  case (priced b t bound route p w err b')
  then show ?case
    using update_keeps_parsing [OF price_op.ledger_op_axioms, of "env\<lparr>env_now := t\<rparr>" b]
    by (fastforce simp: RecordPrice_def)
next
  case (hosted b t bound usd memo w err b')
  then show ?case
    using update_keeps_parsing [OF hosting_op.ledger_op_axioms, of "env\<lparr>env_now := t\<rparr>" b]
    by (fastforce simp: RecordHosting_def)
next
  case (admitted b t bound route purpose n tok rv w err b')
  then show ?case
    using update_keeps_parsing [OF admit_op.ledger_op_axioms, of "env\<lparr>env_now := t\<rparr>" b] by fastforce
next
  case (settled b t bound a sent w err b')
  then show ?case
    using update_keeps_parsing [OF settle_op.ledger_op_axioms, of "env\<lparr>env_now := t\<rparr>" b] by fastforce
qed

lemma Liability_defined: "ledger_inv n st \<Longrightarrow> \<exists>L. Liability st = Inr L"
  unfolding Liability_def using liability_eq by fastforce

section \<open>The hash chain\<close>

lemma Parse_chain:
  assumes "Parse env (p @ l @ nl # rest) = Inr st" and "terminated p" and "nl \<notin> set l"
  shows "\<exists>e. env_decode env l = Inr e \<and> e_Seq e = int (count_list p nl) + 1 \<and> e_Prev e = env_sha256hex env p"
proof -
  obtain st2 where "parse_loop env [] (p @ l @ nl # rest) init_state = Inr st2" using assms(1) by (rule ParseD)
  then obtain st1 where st1: "parse_loop env [] p init_state = Inr st1"
    and more: "parse_loop env p (l @ nl # rest) st1 = Inr st2"
    using parse_loop_append [OF assms(2), of env "[]"] by (auto split: sum.splits)
  have "st_Lines st1 = int (count_list p nl)"
    using parse_loop_inv [OF st1 assms(2)] init_inv by (simp add: init_state_def)
  moreover obtain st3 where "parse_line env p l st1 = Inr st3"
    using more first_line_append(1) [OF assms(3)]
    by (auto simp: parse_loop.simps [of env p "l @ nl # rest"] split: sum.splits)
  ultimately show ?thesis by (auto elim!: parse_lineD)
qed

section \<open>What the operations do to the charges\<close>

lemma update_wrote:
  assumes "Parse env b = Inr st" and "update env bound b decide = ((Some w, err), b')"
  obtains e where "decide st = (Some e, err)" and "w = stamp env b e" and "b' = append_entry env b e"
    and "parse_bound env bound b = Inr st"
proof (cases "parse_bound env bound b")
  case Inl
  with assms(2) show thesis by (simp add: update_def)
next
  case (Inr st1)
  with assms(1) have st1: "st1 = st" using parse_boundD by fastforce
  obtain e' err' where d: "decide st = (e', err')" by (cases "decide st")
  have "e' = Some (the e') \<and> err' = err \<and> w = stamp env b (the e') \<and> b' = append_entry env b (the e')"
    using assms(2) Inr d by (cases e'; cases err') (auto simp: update_def st1 split: if_splits)
  with d Inr st1 that show thesis by metis
qed

lemma position_at_eq:
  assumes "position_at st route tok n = Inr p"
  shows "pos_RouteRequests p = add64 n (Charged (usage_of st route))"
    and "pos_TotalRequests p = add64 (total_charge st) n"
    and "liability st route tok n = Inr (pos_liab p)"
    and "map_of (st_routeCaps st) route \<noteq> None \<Longrightarrow>
      \<exists>rl. pos_routeLiab p = Some rl \<and> routeLiability st route route tok n = Inr rl"
proof -
  have known: "map_of (st_Routes st) route \<noteq> None"
    using position_priced [OF assms] by (auto simp: price_of_def split: option.splits)
  obtain L where L: "liability st route tok n = Inr L"
    using assms by (auto simp: position_at_def split: if_splits sum.splits)
  show "pos_RouteRequests p = add64 n (Charged (usage_of st route))" "pos_TotalRequests p = add64 (total_charge st) n"
    "liability st route tok n = Inr (pos_liab p)"
    using assms known L
    by (auto simp: position_at_def Let_def usage_of_def split: if_splits sum.splits)
  show "\<exists>rl. pos_routeLiab p = Some rl \<and> routeLiability st route route tok n = Inr rl"
    if "map_of (st_routeCaps st) route \<noteq> None"
    using assms that L by (cases "st_routeCaps st") (auto simp: position_at_def Let_def split: if_splits sum.splits)
qed

lemma cap_exceededD:
  assumes "cap_exceeded st route p = None"
  shows "cap_RouteRequests (st_Caps st) = 0 \<or> cap_RouteRequests (st_Caps st) < 0 \<or> pos_RouteRequests p \<le> cap_RouteRequests (st_Caps st)"
    and "cap_TotalRequests (st_Caps st) = 0 \<or> cap_TotalRequests (st_Caps st) < 0 \<or> pos_TotalRequests p \<le> cap_TotalRequests (st_Caps st)"
    and "pos_liab p \<le> st_liabilityCap st"
    and "map_of (st_routeCaps st) route = Some cap \<Longrightarrow> pos_routeLiab p = Some rl \<Longrightarrow> rl \<le> cap"
  using assms by (auto simp: cap_exceeded_def Let_def split: if_splits option.splits)

lemma put_usage_order: "map_of (st_Routes st) r \<noteq> None \<Longrightarrow> st_order (put_usage r u st) = st_order st"
  by (simp add: put_usage_def)

lemma known_in_order: "routes_wf st \<Longrightarrow> map_of (st_Routes st) r \<noteq> None \<Longrightarrow> r \<in> set (st_order st)"
  by (auto simp: routes_wf_def map_of_eq_None_iff simp flip: set_map)

lemma sum_list_change:
  assumes "distinct rs" and "r \<in> set rs" and "\<And>x. x \<noteq> r \<Longrightarrow> g x = f x"
  shows "sum_list (map g rs) = sum_list (map f rs) - f r + (g r :: 'a :: ab_group_add)"
  using assms(1,2)
proof (induction rs)
  case (Cons x rs)
  show ?case
  proof (cases "x = r")
    case True
    with Cons.prems have "map g rs = map f rs" using assms(3) by (metis distinct.simps(2) map_cong)
    then have "sum_list (map g rs) = sum_list (map f rs)" by (rule arg_cong)
    with True show ?thesis by simp
  next
    case False
    with Cons show ?thesis by (simp add: assms(3) algebra_simps)
  qed
qed simp

lemma total_charge_change:
  assumes "routes_wf st" and "map_of (st_Routes st) r \<noteq> None" and "st' = put_usage r u st\<lparr>st_Open := opn\<rparr>"
    and "Charged u = wrap64 (Charged (usage_of st r) + d)"
  shows "total_charge st' = add64 (total_charge st) d"
proof -
  have wf': "routes_wf st'" and ord: "st_order st' = st_order st"
    using assms(1,2) by (simp_all add: assms(3) routes_wf_frame routes_wf_put put_usage_order)
  have "sum_list (map (\<lambda>x. Charged (usage_of st' x)) (st_order st)) =
      sum_list (map (\<lambda>x. Charged (usage_of st x)) (st_order st)) - Charged (usage_of st r) + Charged u"
    using sum_list_change [of "st_order st" r "\<lambda>x. Charged (usage_of st' x)" "\<lambda>x. Charged (usage_of st x)"]
      known_in_order [OF assms(1,2)] assms(1) by (simp add: assms(3) ledger_simps routes_wf_def)
  then show ?thesis
    unfolding total_charge_wrap [OF wf'] total_charge_wrap [OF assms(1)] ord add64_def assms(4)
    by (simp only:, intro wrap64_eqI, simp only: wrap64_expand, simp add: algebra_simps)
qed

lemma Charged_reserve:
  "Charged (u\<lparr>u_Reserved := add64 (u_Reserved u) n, u_charged := c\<rparr>) = wrap64 (Charged u + n)"
  unfolding Charged_wrap add64_def
  by (intro wrap64_eqI, simp only: wrap64_expand usage.simps usage.select_convs usage.update_convs, simp add: algebra_simps)

lemma apply_admit_effect:
  assumes "apply_admit e st = Inr st'" and "routes_wf st"
  shows "Charged (usage_of st' (e_Route e)) = add64 (e_Reserve e) (Charged (usage_of st (e_Route e)))"
    and "total_charge st' = add64 (total_charge st) (e_Reserve e)"
    and "Liability st' = liability st (e_Route e) (entry_tokens e) (e_Reserve e)"
    and "routeLiability st' r [] t0 0 = routeLiability st r (e_Route e) (entry_tokens e) (e_Reserve e)"
proof -
  note d = apply_admitD [OF assms(1)]
  let ?r = "e_Route e"
  have known: "map_of (st_Routes st) ?r \<noteq> None" using d(3) by (auto simp: price_of_def split: option.splits)
  show "Charged (usage_of st' ?r) = add64 (e_Reserve e) (Charged (usage_of st ?r))"
    by (simp add: d(4) ledger_simps Charged_reserve) (simp add: add64_def add.commute)
  show "total_charge st' = add64 (total_charge st) (e_Reserve e)"
    by (rule total_charge_change [OF assms(2) known d(4)]) (simp add: Charged_reserve)
  have price: "price_of st' x = price_of st x" for x
    by (rule ext) (simp add: price_of_usage d(4) ledger_simps)
  have charged: "charged_with st' x [] t 0 = charged_with st x ?r (entry_tokens e) (e_Reserve e)" for x t
    using d(1) by (simp add: charged_with_usage d(4) ledger_simps)
  show rl: "routeLiability st' r [] t0 0 = routeLiability st r ?r (entry_tokens e) (e_Reserve e)" for r t0
    by (simp add: routeLiability_def price charged)
  have "st_order st' = st_order st" using put_usage_order [OF known] by (simp add: d(4))
  moreover have "st_HostingUSD st' = st_HostingUSD st" by (simp add: d(4) ledger_simps)
  ultimately show "Liability st' = liability st ?r (entry_tokens e) (e_Reserve e)"
    by (simp add: Liability_def liability_def rl)
qed

lemma amount_update:
  "distinct (map fst m) \<Longrightarrow> map_of m t = Some k \<Longrightarrow> price t = Some p \<Longrightarrow>
     amount price (AList.update t v m) = amount price m + p * of_int (v - k)"
proof (induction m)
  case (Cons x m)
  then show ?case by (cases x) (auto simp: amount_def algebra_simps)
qed simp

lemma amount_bump:
  assumes "distinct (map fst m)" and "map_of m t = Some k" and "price t = Some p" and "in_int64 (k + n)"
  shows "amount price (bump t n m) = amount price m + p * of_int n"
  using amount_update [where price = price, OF assms(1-3), of "k + n"] assms(2,4) by (simp add: bump_def add64_def wrap64_id)

lemma settled_charged:
  "u_charged (settled_usage a c u) = bump (a_Tokens a) (sub64 (counts_total c) (a_Reserve a)) (u_charged u)"
  "u_Prices (settled_usage a c u) = u_Prices u"
  by (simp_all add: settled_usage_def Let_def)

lemma Charged_settled:
  "Charged (settled_usage a c u) = wrap64 (Charged u + (counts_total c - a_Reserve a))"
proof (cases "a_Purpose a = PurposeReplacement")
  case True
  then show ?thesis
    unfolding Charged_wrap counts_total_wrap settled_usage_def Let_def add64_def sub64_def
    by (simp, intro wrap64_eqI, simp only: wrap64_expand, simp add: algebra_simps)
next
  case False
  then show ?thesis
    unfolding Charged_wrap counts_total_wrap settled_usage_def Let_def add64_def sub64_def
    by (simp, intro wrap64_eqI, simp only: wrap64_expand, simp add: algebra_simps)
qed

lemma settle_effect:
  assumes inv: "ledger_inv n st" and a: "map_of (st_Open st) k = Some a"
    and st': "st' = put_usage (a_Route a) (settled_usage a c (usage_of st (a_Route a)))
           (st\<lparr>st_Open := AList.delete k (st_Open st)\<rparr>)"
    and inv': "ledger_inv n' st'"
    and cnt: "map_of (u_charged (usage_of st (a_Route a))) (a_Tokens a) = Some m"
    and range: "in_int64 (m + (counts_total c - a_Reserve a))" "in_int64 (counts_total c - a_Reserve a)"
    and p: "price_of st (a_Route a) (a_Tokens a) = Some p"
    and L: "Liability st = Inr L"
  shows "Liability st' = Inr (L + p * of_int (counts_total c - a_Reserve a))"
proof -
  let ?r = "a_Route a" and ?t0 = "\<lparr>tok_Input = 0, tok_Output = 0\<rparr>"
  have known: "map_of (st_Routes st) ?r \<noteq> None" using p by (auto simp: price_of_def split: option.splits)
  have wf: "routes_wf st" by (rule ledger_invD(1) [OF inv])
  have ord: "st_order st' = st_order st" using known by (simp add: st' put_usage_def)
  have price: "price_of st' x = price_of st x" for x
    by (rule ext) (simp add: price_of_usage st' ledger_simps settled_charged)
  have other: "projected st' [] ?t0 0 x = projected st [] ?t0 0 x" if "x \<noteq> ?r" for x
    using that unfolding projected_def price charged_with_usage by (simp add: st' ledger_simps)
  have this_route: "projected st' [] ?t0 0 ?r = projected st [] ?t0 0 ?r + p * of_int (counts_total c - a_Reserve a)"
  proof -
    have "distinct (map fst (u_charged (usage_of st ?r)))"
      using ledger_invD(2) [OF inv] by (simp add: usage_inv_def)
    from amount_bump [where price = "price_of st ?r", OF this cnt p range(1)] show ?thesis
      unfolding projected_def price charged_with_usage
      by (simp add: st' ledger_simps settled_charged sub64_def wrap64_id range(2))
  qed
  have "sum_list (map (projected st' [] ?t0 0) (st_order st)) = sum_list (map (projected st [] ?t0 0) (st_order st))
      + p * of_int (counts_total c - a_Reserve a)"
    using sum_list_change [of "st_order st" ?r "projected st' [] ?t0 0" "projected st [] ?t0 0"] other
      known_in_order [OF wf known] wf this_route by (simp add: routes_wf_def)
  moreover have "st_HostingUSD st' = st_HostingUSD st" by (simp add: st' ledger_simps)
  ultimately show ?thesis
    using L liability_eq [OF inv', of 0] liability_eq [OF inv, of 0] by (simp add: Liability_def ord)
qed

section \<open>A concrete ledger for the witnesses\<close>

text \<open>The environment of the witnesses codes an entry by its line number and looks the line up in a
  table, and hashes a prefix to its length. Its ledger has a price of US$1 per million tokens each way
  at 1000 input and 1000 output tokens, and one admission of two probes.\<close>

abbreviation demo_tok :: tokens where
  "demo_tok \<equiv> \<lparr>tok_Input = 1000, tok_Output = 1000\<rparr>"

definition demo_caps :: caps where
  "demo_caps = \<lparr>cap_RouteRequests = 10, cap_TotalRequests = 20, cap_LiabilityUSD = ''1'',
     cap_RouteLiabilityUSD = [], cap_WindowRequests = 5, cap_MaxInputTokens = 1000, cap_MaxOutputTokens = 1000\<rparr>"

definition demo_price :: price where
  "demo_price = \<lparr>pr_InputUSDPerMTok = ''1'', pr_OutputUSDPerMTok = ''1'', pr_InputTokens = 0, pr_OutputTokens = 0,
     pr_Source = ''https://example.org'', pr_Retrieved = ''2025-03-01''\<rparr>"

definition demo_admission :: admission where
  "demo_admission = \<lparr>a_Seq = 3, a_Route = ''r'', a_Purpose = PurposeProbe, a_Reserve = 2, a_Tokens = demo_tok\<rparr>"

definition demo_sent :: counts where
  "demo_sent = \<lparr>cnt_Probe = 1, cnt_Development = 0, cnt_Warmup = 0, cnt_Measured = 0\<rparr>"

definition demo_table :: "(string \<times> entry) list" where
  "demo_table =
     [(''1'', zero_entry\<lparr>e_Seq := 1, e_Prev := ''0'', e_Time := ''t'', e_Kind := KindOpen, e_SchemaVersion := 1,
        e_Caps := Some demo_caps\<rparr>),
      (''2'', zero_entry\<lparr>e_Seq := 2, e_Prev := ''2'', e_Time := ''t'', e_Kind := KindPrice, e_Route := ''r'',
        e_InputUSDPerMTok := ''1'', e_OutputUSDPerMTok := ''1'', e_InputTokens := 1000, e_OutputTokens := 1000,
        e_PerRequestUSD := ''0.002'', e_Source := ''https://example.org'', e_Retrieved := ''2025-03-01''\<rparr>),
      (''3'', zero_entry\<lparr>e_Seq := 3, e_Prev := ''4'', e_Time := ''t'', e_Kind := KindAdmit, e_Route := ''r'',
        e_InputTokens := 1000, e_OutputTokens := 1000, e_PerRequestUSD := ''0.002'', e_Purpose := PurposeProbe,
        e_Reserve := 2,
        e_Before := Some \<lparr>pos_RouteRequests = 0, pos_TotalRequests = 0, pos_LiabilityUSD = ''0'',
          pos_RouteLiabilityUSD = [], pos_liab = 0, pos_routeLiab = None\<rparr>,
        e_After := Some \<lparr>pos_RouteRequests = 2, pos_TotalRequests = 2, pos_LiabilityUSD = ''0.004'',
          pos_RouteLiabilityUSD = [], pos_liab = 0, pos_routeLiab = None\<rparr>\<rparr>),
      (''4'', zero_entry\<lparr>e_Seq := 4, e_Prev := ''6'', e_Time := ''t'', e_Kind := KindSettle, e_Route := ''r'',
        e_Admit := 3, e_Sent := Some demo_sent\<rparr>)]"

definition demo_env :: ledger_env where
  "demo_env = \<lparr>env_sha256hex = (\<lambda>s. nat_digits (length s)), env_encode = (\<lambda>e. int_digits (e_Seq e)),
     env_decode = (\<lambda>s. case map_of demo_table s of None \<Rightarrow> Inl EBadJSON | Some e \<Rightarrow> Inr e),
     env_http_url = (\<lambda>s. take 8 s = ''https://''), env_now = ''t''\<rparr>"

definition demo_file :: "nat \<Rightarrow> string" where
  "demo_file k = concat (map (\<lambda>i. nat_digits i @ [nl]) [1..<Suc k])"

lemma demo_parses:
  "is_ok (Parse demo_env (demo_file 2))" "is_ok (Parse demo_env (demo_file 3))" "is_ok (Parse demo_env (demo_file 4))"
  by code_simp+

section \<open>Properties\<close>

text \<open>Claim C3. Whatever bytes \<open>Parse\<close> accepts, the state it returns keeps the books: it has one line
  per newline, a route's reserved count is the sum of its unsettled reservations, its charge is the
  sum of its charges by token bounds, every unsettled admission is keyed by the line that admitted it
  with a positive reservation, and the liability is defined.\<close>

theorem parsed_ledger_books:
  assumes "Parse env b = Inr st"
  shows "st_Lines st = int (count_list b nl)
    \<and> (\<forall>r. u_Reserved (usage_of st r) = wrap64 (open_reserve (st_Open st) r))
    \<and> (\<forall>r. Charged (usage_of st r) = wrap64 (count_sum (u_charged (usage_of st r))))
    \<and> (\<forall>k a. map_of (st_Open st) k = Some a \<longrightarrow> a_Seq a = k \<and> k \<le> st_Lines st \<and> 1 \<le> a_Reserve a)
    \<and> (\<exists>L. Liability st = Inr L)"
proof -
  note inv = Parse_inv(1) [OF assms]
  have "open_ok (st_Lines st) st" by (rule ledger_invD(4) [OF inv])
  then show ?thesis
    using Parse_inv(2) [OF assms] ledger_invD(2,3) [OF inv] Liability_defined [OF inv]
    unfolding usage_inv_def open_ok_def by blast
qed

theorem parsed_ledger_books_witness:
  "\<exists>st. Parse demo_env (demo_file 3) = Inr st \<and> st_Lines st = 3 \<and> (\<exists>L. Liability st = Inr L)"
proof -
  obtain st where st: "Parse demo_env (demo_file 3) = Inr st" using demo_parses(2) by (auto simp: is_ok_iff)
  have "int (count_list (demo_file 3) nl) = 3" by code_simp
  with parsed_ledger_books [OF st] st show ?thesis by auto
qed

text \<open>Claim C1. No sequence of operations can make the ledger unreadable: starting from a created
  file, after any interleaving of prices, hosting costs, admissions and settlements by any number of
  clients, successful or not, the file parses and its liability is defined.\<close>

theorem reachable_ledger_parses:
  assumes "ledger_file env b"
  shows "\<exists>st L. Parse env b = Inr st \<and> Liability st = Inr L \<and> 0 < st_liabilityCap st"
proof -
  obtain st where st: "Parse env b = Inr st" using ledger_file_Parse [OF assms] by blast
  then show ?thesis using Liability_defined [OF Parse_inv(1) [OF st]] Parse_caps(3) [OF st] by blast
qed

lemma demo_created: "ledger_file demo_env (demo_file 1)"
proof (rule ledger_file.created)
  show "Create (demo_env\<lparr>env_now := ''t''\<rparr>) demo_caps = Inr (demo_file 1)" by code_simp
  show "codec_ok demo_env (stamp (demo_env\<lparr>env_now := ''t''\<rparr>) [] (zero_entry\<lparr>e_Kind := KindOpen, e_SchemaVersion := 1, e_Caps := Some demo_caps\<rparr>))"
    unfolding codec_ok_def by code_simp
qed

theorem reachable_ledger_parses_witness:
  "ledger_file demo_env (demo_file 1) \<and> (\<exists>st L. Parse demo_env (demo_file 1) = Inr st \<and> Liability st = Inr L \<and> 0 < st_liabilityCap st)"
  using reachable_ledger_parses [OF demo_created] demo_created by blast

text \<open>Claim C5. The file is a hash chain: in a file that parses, every line decodes to an entry whose
  sequence number is its line number and whose \<open>prev\<close> is the hash of all bytes before it. Changing any
  earlier byte while keeping a later line therefore needs two prefixes with one SHA-256.\<close>

theorem ledger_hash_chain:
  assumes "Parse env (p @ l @ nl # rest) = Inr st" and "terminated p" and "nl \<notin> set l"
  shows "(\<exists>e. env_decode env l = Inr e \<and> e_Seq e = int (count_list p nl) + 1 \<and> e_Prev e = env_sha256hex env p)
    \<and> (\<forall>p' rest' st'. terminated p' \<and> Parse env (p' @ l @ nl # rest') = Inr st' \<longrightarrow> env_sha256hex env p' = env_sha256hex env p)"
  using Parse_chain [OF assms] Parse_chain [OF _ _ assms(3)] by (metis sum.inject(2))

theorem ledger_hash_chain_witness:
  "\<exists>e. env_decode demo_env ''2'' = Inr e \<and> e_Seq e = 2 \<and> e_Prev e = env_sha256hex demo_env (''1'' @ [nl])"
proof -
  have "(''1'' @ [nl]) @ ''2'' @ nl # ''3'' @ [nl] = demo_file 3" by code_simp
  then obtain st where "Parse demo_env ((''1'' @ [nl]) @ ''2'' @ nl # ''3'' @ [nl]) = Inr st"
    using demo_parses(2) by (auto simp: is_ok_iff)
  from ledger_hash_chain [OF this] show ?thesis by (simp add: terminated_def)
qed

text \<open>An admit line, read back.\<close>

lemma admit_written:
  assumes "Parse env b = Inr st"
    and "update env bound b (admit_decision route purpose n tok rv) = ((Some w, None), b')" and "codec_ok env w"
  obtains st' before after where "Parse env b' = Inr st'" and "apply_admit w st = Inr (st'\<lparr>st_Lines := st_Lines st, st_HeadSHA256 := st_HeadSHA256 st\<rparr>)"
    and "position_at st route tok n = Inr after" and "cap_exceeded st route after = None"
    and "e_Route w = route" and "e_Reserve w = n" and "entry_tokens w = tok" and "e_Purpose w = purpose"
    and "e_Seq w = st_Lines st + 1" and "st_Lines st' = st_Lines st + 1"
    and "parse_bound env bound b = Inr st"
  using assms(1,2)
proof (rule update_wrote)
  fix e
  assume dec: "admit_decision route purpose n tok rv st = (Some e, None)" and w: "w = stamp env b e"
    and b': "b' = append_entry env b e" and bnd: "parse_bound env bound b = Inr st"
  have codec: "codec_ok env (stamp env b e)" using assms(3) w by simp
  obtain st1 where st1: "apply_entry env w st = Inr st1"
    and pr: "Parse env b' = Inr (st1\<lparr>st_Lines := st_Lines st + 1, st_HeadSHA256 := env_sha256hex env b'\<rparr>)"
    using admit_op.update_replays [OF assms(1) dec codec] w b' by blast
  show thesis
  proof (cases rule: admit_decision_cases [of st route purpose n tok rv])
    case guard
    with dec show thesis by simp
  next
    case refused
    with dec show thesis by simp
  next
    case (admitted e' before after)
    with dec have e: "e' = e" by simp
    have seq: "e_Seq w = st_Lines st + 1" using Parse_inv(2) [OF assms(1)] by (simp add: w)
    have kind: "apply_entry env w st = apply_admit w st"
      using admitted(5) e seq Parse_inv(3) [OF assms(1)] by (simp add: apply_entry_def w)
    have "st_HeadSHA256 st1 = st_HeadSHA256 st"
      using apply_admitD(4) [OF st1 [unfolded kind]] by (simp add: put_usage_def)
    with st1 have "apply_admit w st = Inr (st1\<lparr>st_Lines := st_Lines st, st_HeadSHA256 := st_HeadSHA256 st\<rparr>)"
      using apply_entry_Lines [OF st1] unfolding kind by simp
    then show thesis
      using that [OF pr _ admitted(3,4) _ _ _ _ seq _ bnd] admitted(6-9) e w by simp
  qed
qed

lemma queries_frame [simp]:
  "usage_of (st\<lparr>st_Lines := l, st_HeadSHA256 := h\<rparr>) r = usage_of st r"
  "total_charge (st\<lparr>st_Lines := l, st_HeadSHA256 := h\<rparr>) = total_charge st"
  "Liability (st\<lparr>st_Lines := l, st_HeadSHA256 := h\<rparr>) = Liability st"
  "routeLiability (st\<lparr>st_Lines := l, st_HeadSHA256 := h\<rparr>) = routeLiability st"
proof -
  show u: "usage_of (st\<lparr>st_Lines := l, st_HeadSHA256 := h\<rparr>) r = usage_of st r" for r by (simp add: usage_of_def)
  have p: "price_of (st\<lparr>st_Lines := l, st_HeadSHA256 := h\<rparr>) r = price_of st r" for r
    by (rule ext) (simp add: price_of_usage u)
  show r: "routeLiability (st\<lparr>st_Lines := l, st_HeadSHA256 := h\<rparr>) = routeLiability st"
    unfolding routeLiability_def charged_with_usage p u ..
  show "total_charge (st\<lparr>st_Lines := l, st_HeadSHA256 := h\<rparr>) = total_charge st" by (simp add: total_charge_def)
  show "Liability (st\<lparr>st_Lines := l, st_HeadSHA256 := h\<rparr>) = Liability st"
    by (simp add: Liability_def liability_def r)
qed

text \<open>Claim C2. An admission that is granted keeps every cap on the ledger that is read back: the
  route's charge and the total charge rise by exactly \<open>n\<close> and stay within their caps, the liability and
  the route's liability stay within theirs, and the returned admission is unsettled under its line.\<close>

theorem admit_keeps_caps:
  assumes "Parse env b = Inr st"
    and "update env bound b (admit_decision route purpose n tok rv) = ((Some w, None), b')" and "codec_ok env w"
  shows "\<exists>st' a L. admit env bound b route purpose n tok rv = (Inr a, b') \<and> Parse env b' = Inr st'
    \<and> map_of (st_Open st') (st_Lines st') = Some a \<and> a_Route a = route \<and> a_Reserve a = n \<and> a_Tokens a = tok
    \<and> Charged (usage_of st' route) = add64 n (Charged (usage_of st route))
    \<and> total_charge st' = add64 (total_charge st) n
    \<and> (0 < cap_RouteRequests (st_Caps st) \<longrightarrow> Charged (usage_of st' route) \<le> cap_RouteRequests (st_Caps st))
    \<and> (0 < cap_TotalRequests (st_Caps st) \<longrightarrow> total_charge st' \<le> cap_TotalRequests (st_Caps st))
    \<and> Liability st' = Inr L \<and> L \<le> st_liabilityCap st
    \<and> (\<forall>cap. map_of (st_routeCaps st) route = Some cap \<longrightarrow>
         (\<exists>rl. routeLiability st' route [] tok 0 = Inr rl \<and> rl \<le> cap))"
  using assms
proof (rule admit_written)
  fix st' before after
  assume pr: "Parse env b' = Inr st'"
    and ap: "apply_admit w st = Inr (st'\<lparr>st_Lines := st_Lines st, st_HeadSHA256 := st_HeadSHA256 st\<rparr>)"
    and pos: "position_at st route tok n = Inr after" and caps: "cap_exceeded st route after = None"
    and w: "e_Route w = route" "e_Reserve w = n" "entry_tokens w = tok" "e_Purpose w = purpose"
    and seq: "e_Seq w = st_Lines st + 1" "st_Lines st' = st_Lines st + 1"
    and bnd: "parse_bound env bound b = Inr st"
  note eff = apply_admit_effect [OF ap ledger_invD(1) [OF Parse_inv(1) [OF assms(1)]], unfolded w, simplified]
  note p = position_at_eq [OF pos]
  define a where "a = \<lparr>a_Seq = st_Lines st + 1, a_Route = route, a_Purpose = purpose, a_Reserve = n, a_Tokens = tok\<rparr>"
  have "admit env bound b route purpose n tok rv = (Inr a, b')"
    using assms(2) bnd by (simp add: admit_def a_def)
  moreover have "map_of (st_Open st') (st_Lines st') = Some a"
    using arg_cong [OF apply_admitD(4) [OF ap], of st_Open] seq w by (simp add: update_conv a_def)
  moreover have "\<exists>rl. routeLiability st' route [] tok 0 = Inr rl \<and> rl \<le> cap" if "map_of (st_routeCaps st) route = Some cap" for cap
    using p(4) cap_exceededD(4) [OF caps that] eff(4) that by auto
  ultimately show ?thesis
    using pr eff p(1-3) cap_exceededD(1-3) [OF caps] by (auto simp: a_def)
qed

lemma demo_admit:
  "\<exists>w. update demo_env [] (demo_file 2) (admit_decision ''r'' PurposeProbe 2 demo_tok None) = ((Some w, None), demo_file 3)
     \<and> codec_ok demo_env w"
proof -
  have "case update demo_env [] (demo_file 2) (admit_decision ''r'' PurposeProbe 2 demo_tok None) of
      ((Some w, None), f) \<Rightarrow> f = demo_file 3 \<and> env_decode demo_env (env_encode demo_env w) = Inr (wire_entry w)
         \<and> nl \<notin> set (env_encode demo_env w) | _ \<Rightarrow> False"
    by code_simp
  then show ?thesis by (auto simp: codec_ok_def split: prod.splits option.splits)
qed

theorem admit_keeps_caps_witness:
  "\<exists>st' a L. admit demo_env [] (demo_file 2) ''r'' PurposeProbe 2 demo_tok None = (Inr a, demo_file 3)
    \<and> Parse demo_env (demo_file 3) = Inr st' \<and> Liability st' = Inr L \<and> a_Reserve a = 2"
proof -
  obtain st where st: "Parse demo_env (demo_file 2) = Inr st" using demo_parses(1) by (auto simp: is_ok_iff)
  obtain w where "update demo_env [] (demo_file 2) (admit_decision ''r'' PurposeProbe 2 demo_tok None) = ((Some w, None), demo_file 3)"
    and "codec_ok demo_env w" using demo_admit by blast
  from admit_keeps_caps [OF st this] show ?thesis by blast
qed

text \<open>Claim C6. An admission that fails charges nothing: a guard error leaves the file as it was, and
  a refusal appends one refused line that, read back, leaves every charge, every unsettled admission
  and the liability as they were.\<close>

theorem refused_admission_charges_nothing:
  assumes "parse_bound env bound b = Inr st" and "admit env bound b route purpose n tok rv = (Inl err, b')"
    and "\<forall>e. fst (fst (update env bound b (admit_decision route purpose n tok rv))) = Some e \<longrightarrow> codec_ok env e"
  shows "if is_refusal err
    then \<exists>st'. Parse env b' = Inr st' \<and> st_Lines st' = st_Lines st + 1 \<and> st_Open st' = st_Open st
       \<and> st_Routes st' = st_Routes st \<and> Liability st' = Liability st
    else b' = b \<and> admit_guard st route purpose n tok rv = Some err"
proof (cases rule: admit_decision_cases [of st route purpose n tok rv])
  case (guard err')
  have "\<not> is_refusal err'"
    using guard(1) by (auto simp: admit_guard_def is_refusal_def split: if_splits)
  with guard assms(1,2) show ?thesis by (auto simp: admit_def update_def)
next
  case (refused e reason)
  note p = parse_boundD [OF assms(1)]
  have up: "update env bound b (admit_decision route purpose n tok rv) =
      ((Some (stamp env b e), Some (Refusal route purpose reason)), append_entry env b e)"
    using refused assms(1) by (simp add: update_def is_refusal_def)
  then have err: "err = Refusal route purpose reason" and b': "b' = append_entry env b e"
    using assms(2) by (simp_all add: admit_def)
  have codec: "codec_ok env (stamp env b e)" using assms(3) up by simp
  have "apply_entry env (stamp env b e) st = Inr st"
    using refused(2) Parse_inv(2,3) [OF p] by (simp add: apply_entry_def)
  with Parse_append [OF p codec] show ?thesis by (simp add: err b' is_refusal_def)
next
  case (admitted e before after)
  with assms(1,2) have False by (simp add: admit_def update_def)
  then show ?thesis ..
qed

lemma demo_bound: "is_ok (parse_bound demo_env [] (demo_file 2))" "is_ok (parse_bound demo_env [] (demo_file 3))"
  by code_simp+

theorem refused_admission_charges_nothing_witness:
  "admit demo_env [] (demo_file 2) ''r'' ''unknown'' 2 demo_tok None = (Inl (EUnknownPurpose ''unknown''), demo_file 2)
   \<and> (\<exists>st. admit_guard st ''r'' ''unknown'' 2 demo_tok None = Some (EUnknownPurpose ''unknown''))"
proof -
  obtain st where st: "parse_bound demo_env [] (demo_file 2) = Inr st" using demo_bound(1) by (auto simp: is_ok_iff)
  have ad: "admit demo_env [] (demo_file 2) ''r'' ''unknown'' 2 demo_tok None = (Inl (EUnknownPurpose ''unknown''), demo_file 2)"
    and up: "fst (fst (update demo_env [] (demo_file 2) (admit_decision ''r'' ''unknown'' 2 demo_tok None))) = None"
    by code_simp+
  from refused_admission_charges_nothing [OF st ad] up ad show ?thesis by (auto simp: is_refusal_def)
qed

text \<open>A settle line, read back.\<close>

lemma settle_written:
  assumes "Parse env b = Inr st"
    and "update env bound b (settle_decision a sent) = ((Some w, err), b')" and "codec_ok env w"
  obtains st' where "Parse env b' = Inr st'" and "map_of (st_Open st) (a_Seq a) = Some a"
    and "checkCounts (a_Purpose a) sent = None" and "e_Overrun w = (a_Reserve a < counts_total sent)" and "err = None"
    and "st'\<lparr>st_Lines := st_Lines st, st_HeadSHA256 := st_HeadSHA256 st\<rparr> =
           put_usage (a_Route a) (settled_usage a sent (usage_of st (a_Route a)))
             (st\<lparr>st_Open := AList.delete (a_Seq a) (st_Open st)\<rparr>)"
    and "parse_bound env bound b = Inr st"
  using assms(1,2)
proof (rule update_wrote)
  fix e
  assume dec: "settle_decision a sent st = (Some e, err)" and w: "w = stamp env b e"
    and b': "b' = append_entry env b e" and bnd: "parse_bound env bound b = Inr st"
  have opn: "map_of (st_Open st) (a_Seq a) = Some a" and cnt: "checkCounts (a_Purpose a) sent = None"
    and e: "e_Kind e = KindSettle" "e_Admit e = a_Seq a" "e_Sent e = Some sent" "e_Route e = a_Route a"
      "e_Overrun e = (a_Reserve a < counts_total sent)" and err: "err = None"
    using dec by (auto simp: settle_decision_def split: option.splits if_splits)
  have codec: "codec_ok env (stamp env b e)" using assms(3) w by simp
  obtain st1 where st1: "apply_entry env (stamp env b e) st = Inr st1"
    and pr: "Parse env b' = Inr (st1\<lparr>st_Lines := st_Lines st + 1, st_HeadSHA256 := env_sha256hex env b'\<rparr>)"
    using settle_op.update_replays [OF assms(1) dec codec] b' by blast
  have "apply_entry env (stamp env b e) st = apply_settle (stamp env b e) st"
    using e(1) Parse_inv(2,3) [OF assms(1)] by (simp add: apply_entry_def)
  with st1 have eq: "st1 = put_usage (a_Route a) (settled_usage a sent (usage_of st (a_Route a)))
      (st\<lparr>st_Open := AList.delete (a_Seq a) (st_Open st)\<rparr>)"
    using opn cnt by (simp add: apply_settle_def e Let_def ledger_simps)
  have "st1\<lparr>st_Lines := st_Lines st, st_HeadSHA256 := st_HeadSHA256 st\<rparr> = st1"
    unfolding eq by (simp add: put_usage_def)
  with that [OF pr opn cnt _ err _ bnd] e(5) w eq show thesis by simp
qed

text \<open>Claim C4. Settling replaces the reservation by what was sent: the admission is closed, the
  route's charge changes by sent less reserved, the liability changes by the price of the difference,
  so a settlement that is not an overrun never raises it, an overrun is recorded and reported, and
  settling the same admission again is refused with nothing written.\<close>

theorem settle_replaces_reservation:
  assumes "Parse env b = Inr st"
    and "update env bound b (settle_decision a sent) = ((Some w, err), b')" and "codec_ok env w"
    and "map_of (u_charged (usage_of st (a_Route a))) (a_Tokens a) = Some m"
    and "in_int64 (m + (counts_total sent - a_Reserve a))" and "in_int64 (counts_total sent - a_Reserve a)"
  shows "\<exists>st' L p. Parse env b' = Inr st' \<and> map_of (st_Open st') (a_Seq a) = None
    \<and> Charged (usage_of st' (a_Route a)) = wrap64 (Charged (usage_of st (a_Route a)) + (counts_total sent - a_Reserve a))
    \<and> Liability st = Inr L \<and> Liability st' = Inr (L + p * of_int (counts_total sent - a_Reserve a)) \<and> 0 \<le> p
    \<and> fst (Settle env bound b a sent) = (if a_Reserve a < counts_total sent then Some (EOverrun (a_Seq a)) else None)
    \<and> Settle env [] b' a sent = (Some (ENotUnsettled (a_Seq a)), b')"
  using assms(1-3)
proof (rule settle_written)
  fix st'
  assume pr: "Parse env b' = Inr st'" and opn: "map_of (st_Open st) (a_Seq a) = Some a"
    and ov: "e_Overrun w = (a_Reserve a < counts_total sent)" and err: "err = None"
    and st': "st'\<lparr>st_Lines := st_Lines st, st_HeadSHA256 := st_HeadSHA256 st\<rparr> =
           put_usage (a_Route a) (settled_usage a sent (usage_of st (a_Route a)))
             (st\<lparr>st_Open := AList.delete (a_Seq a) (st_Open st)\<rparr>)"
    and bnd: "parse_bound env bound b = Inr st"
  define st1 where "st1 = st'\<lparr>st_Lines := st_Lines st, st_HeadSHA256 := st_HeadSHA256 st\<rparr>"
  note inv = Parse_inv(1) [OF assms(1)]
  have inv1: "ledger_inv (st_Lines st') st1" using Parse_inv(1) [OF pr] by (simp add: st1_def ledger_inv_cosmetic)
  have "usage_inv (usage_of st (a_Route a))" by (rule ledger_invD(2) [OF inv])
  moreover have "a_Tokens a \<in> fst ` set (u_charged (usage_of st (a_Route a)))"
    using assms(4) by (force dest: map_of_SomeD)
  ultimately obtain p where p: "price_of st (a_Route a) (a_Tokens a) = Some p" "0 \<le> p"
    unfolding usage_inv_def price_of_usage by blast
  obtain L where L: "Liability st = Inr L" using Liability_defined [OF inv] by blast
  have "Liability st1 = Inr (L + p * of_int (counts_total sent - a_Reserve a))"
    by (rule settle_effect [OF inv opn st' [folded st1_def] inv1 assms(4-6) p(1) L])
  moreover have closed: "map_of (st_Open st') (a_Seq a) = None"
    using arg_cong [OF st', of st_Open] by (simp add: ledger_simps delete_conv')
  moreover have "Charged (usage_of st1 (a_Route a)) = wrap64 (Charged (usage_of st (a_Route a)) + (counts_total sent - a_Reserve a))"
    unfolding st1_def st' by (simp add: ledger_simps Charged_settled)
  moreover have "Settle env [] b' a sent = (Some (ENotUnsettled (a_Seq a)), b')"
    using pr closed by (simp add: Settle_def update_def parse_bound_def settle_decision_def is_refusal_def)
  moreover have "fst (Settle env bound b a sent) = (if a_Reserve a < counts_total sent then Some (EOverrun (a_Seq a)) else None)"
    using assms(2) by (simp add: Settle_def err ov)
  ultimately show ?thesis using pr L p(2) by (auto simp: st1_def)
qed

lemma demo_settle:
  "\<exists>w. update demo_env [] (demo_file 3) (settle_decision demo_admission demo_sent) = ((Some w, None), demo_file 4)
     \<and> codec_ok demo_env w"
proof -
  have "case update demo_env [] (demo_file 3) (settle_decision demo_admission demo_sent) of
      ((Some w, None), f) \<Rightarrow> f = demo_file 4 \<and> env_decode demo_env (env_encode demo_env w) = Inr (wire_entry w)
         \<and> nl \<notin> set (env_encode demo_env w) | _ \<Rightarrow> False"
    by code_simp
  then show ?thesis by (auto simp: codec_ok_def split: prod.splits option.splits)
qed

theorem settle_replaces_reservation_witness:
  "\<exists>st' L p. Parse demo_env (demo_file 4) = Inr st' \<and> map_of (st_Open st') 3 = None
     \<and> Liability st' = Inr (L - p) \<and> 0 \<le> p"
proof -
  have m: "case Parse demo_env (demo_file 3) of
      Inr st \<Rightarrow> map_of (u_charged (usage_of st (a_Route demo_admission))) (a_Tokens demo_admission) = Some 2 | _ \<Rightarrow> False"
    by code_simp
  then obtain st where st: "Parse demo_env (demo_file 3) = Inr st"
    and m: "map_of (u_charged (usage_of st (a_Route demo_admission))) (a_Tokens demo_admission) = Some 2"
    by (auto split: sum.splits)
  have c: "counts_total demo_sent - a_Reserve demo_admission = -1" "a_Seq demo_admission = 3" by code_simp+
  obtain w where "update demo_env [] (demo_file 3) (settle_decision demo_admission demo_sent) = ((Some w, None), demo_file 4)"
    and "codec_ok demo_env w" using demo_settle by blast
  from settle_replaces_reservation [OF st this m] show ?thesis unfolding c by (auto simp: in_int64_def)
qed

text \<open>A price line, read back.\<close>

lemma raise_price_mono:
  "map_of prices t = Some p \<Longrightarrow> \<exists>p'. map_of (raise_price tok r prices) t = Some p' \<and> p \<le> p'"
  by (auto simp: raise_price_def update_conv split: option.split)

lemma price_written:
  assumes "Parse env b = Inr st" and "RecordPrice env bound b route p = ((Some w, err), b')" and "codec_ok env w"
  obtains st' r where "parse_bound env bound b' = Inr st'" and "Parse env b' = Inr st'" and "route \<noteq> []"
    and "\<And>x. usage_of st' x = (if x = route then (usage_of st route)\<lparr>u_Prices := raise_price (entry_tokens w) r (u_Prices (usage_of st route)),
             u_PriceSeq := st_Lines st + 1\<rparr> else usage_of st x)"
  using assms(1) assms(2) [unfolded RecordPrice_def]
proof (rule update_wrote)
  fix e
  assume dec: "price_decision env route p st = (Some e, err)" and w: "w = stamp env b e"
    and b': "b' = append_entry env b e" and bnd: "parse_bound env bound b = Inr st"
  have codec: "codec_ok env (stamp env b e)" using assms(3) w by simp
  obtain st1 where st1: "apply_entry env w st = Inr st1"
    and pr: "Parse env b' = Inr (st1\<lparr>st_Lines := st_Lines st + 1, st_HeadSHA256 := env_sha256hex env b'\<rparr>)"
    using price_op.update_replays [OF assms(1) dec codec] b' w by blast
  have e: "e_Kind e = KindPrice" "e_Route e = route"
    using dec by (auto simp: price_decision_def Let_def split: sum.splits)
  have seq: "e_Seq w = st_Lines st + 1" using Parse_inv(2) [OF assms(1)] by (simp add: w)
  have "apply_entry env w st = apply_price env w st"
    using e(1) Parse_inv(2,3) [OF assms(1)] by (simp add: apply_entry_def w)
  with st1 obtain r where r: "st1 = put_usage route ((usage_of st route)\<lparr>u_Prices := raise_price (entry_tokens w) r (u_Prices (usage_of st route)),
             u_PriceSeq := e_Seq w\<rparr>) st" and ne: "route \<noteq> []"
    by (auto simp: apply_price_def Let_def w e(2) checkPrice_def split: sum.splits if_splits)
  obtain st2 where "parse_bound env bound b' = Inr st2"
    using price_op.update_parses [OF bnd assms(2) [unfolded RecordPrice_def]] assms(3) by blast
  moreover have "st2 = st1\<lparr>st_Lines := st_Lines st + 1, st_HeadSHA256 := env_sha256hex env b'\<rparr>"
    using parse_boundD [OF calculation] pr by simp
  ultimately show thesis using that [OF _ pr ne, of r] by (simp add: r ledger_simps seq)
qed

text \<open>Claim C12. Recording a price gives the route a new revision and lowers no price, of this route or
  another; a client that checked any earlier revision and admits with \<open>AdmitAt\<close> is turned away with
  \<open>PriceChanged\<close> and nothing is written.\<close>

theorem price_revision_guards_admission:
  assumes "Parse env b = Inr st" and "RecordPrice env bound b route p = ((Some w, err), b')" and "codec_ok env w"
  shows "\<exists>st'. Parse env b' = Inr st' \<and> PriceRevision st' route = st_Lines st + 1
    \<and> (\<forall>r t x. price_of st r t = Some x \<longrightarrow> (\<exists>y. price_of st' r t = Some y \<and> x \<le> y))
    \<and> (\<forall>rv purpose n tok. rv \<le> st_Lines st \<longrightarrow>
         AdmitAt env bound b' route purpose n tok rv = (Inl (PriceChanged route rv (st_Lines st + 1)), b'))"
  using assms
proof (rule price_written)
  fix st' r
  assume bnd: "parse_bound env bound b' = Inr st'" and pr: "Parse env b' = Inr st'" and ne: "route \<noteq> []"
    and u: "\<And>x. usage_of st' x = (if x = route then (usage_of st route)\<lparr>u_Prices := raise_price (entry_tokens w) r (u_Prices (usage_of st route)),
             u_PriceSeq := st_Lines st + 1\<rparr> else usage_of st x)"
  have rev: "PriceRevision st' route = st_Lines st + 1" by (simp add: PriceRevision_usage u)
  have "AdmitAt env bound b' route purpose n tok rv = (Inl (PriceChanged route rv (st_Lines st + 1)), b')"
    if "rv \<le> st_Lines st" for rv purpose n tok
    using that bnd ne rev
    by (simp add: AdmitAt_def admit_def update_def admit_decision_def admit_guard_def is_refusal_def Let_def)
  moreover have "\<exists>y. price_of st' x t = Some y \<and> v \<le> y" if "price_of st x t = Some v" for x t v
    using that raise_price_mono [of "u_Prices (usage_of st x)" t v "entry_tokens w" r] by (auto simp: price_of_usage u)
  ultimately show ?thesis using pr rev by blast
qed

theorem price_revision_guards_admission_witness:
  "\<exists>st'. Parse demo_env (demo_file 2) = Inr st' \<and> PriceRevision st' ''r'' = 2
     \<and> AdmitAt demo_env [] (demo_file 2) ''r'' PurposeProbe 2 demo_tok 1 = (Inl (PriceChanged ''r'' 1 2), demo_file 2)"
proof -
  have "case Parse demo_env (demo_file 1) of Inr st \<Rightarrow> st_Lines st = 1 | _ \<Rightarrow> False" by code_simp
  then obtain st where st: "Parse demo_env (demo_file 1) = Inr st" "st_Lines st = 1" by (auto split: sum.splits)
  have "case RecordPrice demo_env [] (demo_file 1) ''r'' demo_price of
      ((Some w, None), f) \<Rightarrow> f = demo_file 2 \<and> env_decode demo_env (env_encode demo_env w) = Inr (wire_entry w)
         \<and> nl \<notin> set (env_encode demo_env w) | _ \<Rightarrow> False" by code_simp
  then obtain w where "RecordPrice demo_env [] (demo_file 1) ''r'' demo_price = ((Some w, None), demo_file 2)"
    and "codec_ok demo_env w" by (auto simp: codec_ok_def split: prod.splits option.splits)
  from price_revision_guards_admission [OF st(1) this] show ?thesis by (auto simp: st(2))
qed



end
