(* ===== verification/Float64.thy ===== *)
theory Float64
  imports Prelude "HOL-Library.Log_Nat"
begin

text \<open>
  Go's \<open>float64\<close> on finite values: IEEE 754 binary64 with round-to-nearest, ties to even.
  A finite float64 is the rational it denotes; \<open>fl x\<close> is the nearest representable value
  of the exact result \<open>x\<close> of one operation, subnormals included. Overflow to infinity is
  outside the model: every quantity rounded here is a count, a ratio of counts, a latency or
  a percentage, far below \<open>2 ^ 1023\<close>.

  The locale \<open>rounding\<close> is the contract the numeric components rely on. It is interpreted
  on \<open>fl\<close> (the machine) and on the identity (exact arithmetic, the reference the
  estimators are compared with).
\<close>

section \<open>The binary exponent\<close>

definition bexp :: "rat \<Rightarrow> int" where
  "bexp x = (let (a, b) = quotient_of \<bar>x\<bar>; k = bitlen a - bitlen b
             in if \<bar>x\<bar> < 2 powi k then k - 1 else k)"

lemma bitlen_bracket:
  assumes "0 < (a :: int)"
  shows "(2 :: rat) powi (bitlen a - 1) \<le> of_int a" and "of_int a < (2 :: rat) powi bitlen a"
proof -
  have len: "1 \<le> bitlen a" using assms by (simp add: bitlen_def floorlog_def)
  from bitlen_bounds [OF assms] have b: "2 ^ nat (bitlen a - 1) \<le> a" "a < 2 ^ nat (bitlen a)" by auto
  have "(2 :: rat) powi (bitlen a - 1) = of_int (2 ^ nat (bitlen a - 1))"
    using len by (simp add: power_int_def)
  with b show "(2 :: rat) powi (bitlen a - 1) \<le> of_int a" by (simp only: of_int_le_iff)
  have "(2 :: rat) powi bitlen a = of_int (2 ^ nat (bitlen a))"
    using len by (simp add: power_int_def)
  with b show "of_int a < (2 :: rat) powi bitlen a" by (simp only: of_int_less_iff)
qed


text \<open>The exponent brackets the value, and the bracket determines it.\<close>

lemma bexp_bracket:
  assumes "x \<noteq> 0"
  shows "2 powi bexp x \<le> \<bar>x\<bar>" and "\<bar>x\<bar> < 2 powi (bexp x + 1)"
proof -
  obtain a b where q: "quotient_of \<bar>x\<bar> = (a, b)" by (cases "quotient_of \<bar>x\<bar>")
  have b: "0 < b" using quotient_of_denom_pos [OF q] .
  have x: "\<bar>x\<bar> = of_int a / of_int b" using quotient_of_div [OF q] .
  have "0 < (of_int a / of_int b :: rat)" using assms x by (metis zero_less_abs_iff)
  then have a: "0 < a" using b by (simp add: zero_less_divide_iff)
  define m n where "m = bitlen a" and "n = bitlen b"
  have hi: "\<bar>x\<bar> < 2 powi (m - n + 1)"
  proof -
    have "\<bar>x\<bar> < 2 powi m / 2 powi (n - 1)"
      unfolding x m_def n_def using bitlen_bracket [OF a] bitlen_bracket [OF b] a b
      by (intro frac_less) auto
    also have "\<dots> = 2 powi (m - (n - 1))" by (simp add: power_int_diff)
    finally show ?thesis by (simp add: algebra_simps)
  qed
  have lo: "2 powi (m - n - 1) \<le> \<bar>x\<bar>"
  proof -
    have "(2 :: rat) powi (m - 1 - n) = 2 powi (m - 1) / 2 powi n" by (simp add: power_int_diff)
    also have "\<dots> \<le> \<bar>x\<bar>"
      unfolding x m_def n_def using bitlen_bracket [OF a] bitlen_bracket [OF b] a b
      by (intro frac_le) auto
    finally show ?thesis by (simp add: algebra_simps)
  qed
  show "2 powi bexp x \<le> \<bar>x\<bar>" and "\<bar>x\<bar> < 2 powi (bexp x + 1)"
    using hi lo by (auto simp: bexp_def Let_def q m_def [symmetric] n_def [symmetric])
qed

lemma powi2_mono: "i \<le> j \<Longrightarrow> (2 :: rat) powi i \<le> 2 powi j"
  by (rule power_int_increasing) auto

lemma powi2_less_imp: "(2 :: rat) powi i < 2 powi j \<Longrightarrow> i < j"
  using powi2_mono [of j i] by fastforce

lemma bexp_unique:
  assumes "2 powi k \<le> \<bar>x\<bar>" and "\<bar>x\<bar> < 2 powi (k + 1)"
  shows "bexp x = k"
proof -
  have "x \<noteq> 0" using assms(1) by (metis abs_zero not_le zero_less_numeral zero_less_power_int)
  from bexp_bracket [OF this] have "2 powi bexp x < (2 :: rat) powi (k + 1)"
    and "2 powi k < (2 :: rat) powi (bexp x + 1)"
    using assms by linarith+
  then show ?thesis by (auto dest!: powi2_less_imp)
qed

lemma bexp_mono: "0 < x \<Longrightarrow> x \<le> y \<Longrightarrow> bexp x \<le> bexp y"
proof -
  assume "0 < x" and "x \<le> y"
  then have "2 powi bexp x < (2 :: rat) powi (bexp y + 1)"
    using bexp_bracket [of x] bexp_bracket [of y] by simp
  then show ?thesis using powi2_less_imp by fastforce
qed

lemma bexp_minus [simp]: "bexp (- x) = bexp x"
  by (simp add: bexp_def)

section \<open>Round half to even\<close>

definition rhe :: "rat \<Rightarrow> int" where
  "rhe q = (let f = \<lfloor>q\<rfloor>; d = q - of_int f
            in if d < 1 / 2 then f else if 1 / 2 < d then f + 1
               else if even f then f else f + 1)"

lemma rhe_of_int [simp]: "rhe (of_int n) = n"
  by (simp add: rhe_def)

lemma rhe_bounds: "\<lfloor>q\<rfloor> \<le> rhe q" "rhe q \<le> \<lfloor>q\<rfloor> + 1"
  by (simp_all add: rhe_def Let_def)

lemma rhe_mono: "p \<le> q \<Longrightarrow> rhe p \<le> rhe q"
proof (cases "\<lfloor>p\<rfloor> = \<lfloor>q\<rfloor>")
  case True
  assume "p \<le> q"
  with True show ?thesis by (auto simp: rhe_def Let_def)
next
  case False
  assume "p \<le> q"
  then have "\<lfloor>p\<rfloor> \<le> \<lfloor>q\<rfloor>" by (rule floor_mono)
  with False have "\<lfloor>p\<rfloor> + 1 \<le> \<lfloor>q\<rfloor>" by simp
  then show ?thesis using rhe_bounds [of p] rhe_bounds [of q] by linarith
qed

lemma rhe_near: "\<bar>of_int (rhe q) - q\<bar> \<le> 1 / 2"
  using of_int_floor_le [of q] floor_correct [of q] by (auto simp: rhe_def Let_def abs_le_iff)

lemma rhe_minus: "rhe (- q) = - rhe q"
proof (cases "q = of_int \<lfloor>q\<rfloor>")
  case True
  then show ?thesis by (metis of_int_minus rhe_of_int)
next
  case False
  with of_int_floor_le [of q] have lt: "of_int \<lfloor>q\<rfloor> < q" by linarith
  have f: "\<lfloor>- q\<rfloor> = - \<lfloor>q\<rfloor> - 1"
    using lt floor_correct [of q] by (intro floor_unique) auto
  show ?thesis using False floor_correct [of q] by (auto simp: rhe_def Let_def f)
qed

section \<open>Rounding to float64\<close>

definition quantum :: "rat \<Rightarrow> int" where
  "quantum x = max (bexp x - 52) (- 1074)"

definition fl :: "rat \<Rightarrow> rat" where
  "fl x = (if x = 0 then 0 else of_int (rhe (x / 2 powi quantum x)) * 2 powi quantum x)"


definition round_to :: "int \<Rightarrow> rat \<Rightarrow> rat" where
  "round_to e x = of_int (rhe (x / 2 powi e)) * 2 powi e"

lemma fl_round_to: "fl x = round_to (quantum x) x"
  by (simp add: fl_def round_to_def rhe_def)

lemma round_to_mono: "x \<le> y \<Longrightarrow> round_to e x \<le> round_to e y"
  by (simp add: round_to_def rhe_mono divide_right_mono)

lemma round_to_exact:
  assumes "e \<le> k"
  shows "round_to e (of_int m * 2 powi k) = of_int m * 2 powi k"
proof -
  have "(2 :: rat) powi k / 2 powi e = 2 powi (k - e)" by (simp add: power_int_diff)
  also have "\<dots> = of_int (2 ^ nat (k - e))" using assms by (simp add: power_int_def)
  finally have "of_int m * 2 powi k / 2 powi e = (of_int (m * 2 ^ nat (k - e)) :: rat)"
    by (metis of_int_mult times_divide_eq_right)
  then have "round_to e (of_int m * 2 powi k) = of_int (m * 2 ^ nat (k - e)) * 2 powi e"
    by (simp only: round_to_def rhe_of_int)
  also have "\<dots> = of_int m * (of_int (2 ^ nat (k - e)) * 2 powi e)" by simp
  also have "of_int (2 ^ nat (k - e)) = (2 :: rat) powi (k - e)"
    using assms by (simp add: power_int_def)
  also have "(2 :: rat) powi (k - e) * 2 powi e = 2 powi k"
    by (simp flip: power_int_add)
  finally show ?thesis .
qed

lemma quantum_minus [simp]: "quantum (- x) = quantum x"
  by (simp add: quantum_def)

lemma fl_0 [simp]: "fl 0 = 0"
  by (simp add: fl_def)

lemma fl_minus: "fl (- x) = - fl x"
  by (simp add: fl_def rhe_minus)

text \<open>Rounding is monotone: across a binade both sides are separated by a power of two.\<close>

lemma fl_mono_pos:
  assumes "0 < x" and "x \<le> y"
  shows "fl x \<le> fl y"
proof (cases "quantum x = quantum y")
  case True
  with assms show ?thesis by (simp add: fl_round_to round_to_mono)
next
  case False
  have "bexp x \<le> bexp y" using assms by (rule bexp_mono)
  with False have q: "quantum x < quantum y" "bexp x < bexp y" "quantum y \<le> bexp y"
    by (auto simp: quantum_def)
  have x: "x \<le> 2 powi bexp y"
    using bexp_bracket [of x] powi2_mono [of "bexp x + 1" "bexp y"] assms q by simp
  have y: "2 powi bexp y \<le> y" using bexp_bracket [of y] assms by simp
  have "fl x \<le> round_to (quantum x) (of_int 1 * 2 powi bexp y)"
    using x by (simp add: fl_round_to round_to_mono)
  also have "\<dots> = round_to (quantum y) (of_int 1 * 2 powi bexp y)"
    using q by (simp only: round_to_exact)
  also have "\<dots> \<le> fl y" using y by (simp add: fl_round_to round_to_mono)
  finally show ?thesis .
qed

lemma fl_nonneg: "0 \<le> x \<Longrightarrow> 0 \<le> fl x"
proof -
  assume "0 \<le> x"
  then have "0 \<le> rhe (x / 2 powi quantum x)" using rhe_mono [of 0] rhe_of_int [of 0] by simp
  then show ?thesis by (simp add: fl_def)
qed

lemma fl_mono: "x \<le> y \<Longrightarrow> fl x \<le> fl y"
proof -
  assume le: "x \<le> y"
  consider "0 < x" | "x \<le> 0" "0 \<le> y" | "y < 0" using le by linarith
  then show ?thesis
  proof cases
    case 1
    then show ?thesis using le by (rule fl_mono_pos)
  next
    case 2
    then have "0 \<le> fl (- x)" "0 \<le> fl y" by (simp_all add: fl_nonneg)
    then show ?thesis by (simp add: fl_minus)
  next
    case 3
    then have "fl (- y) \<le> fl (- x)" using le by (intro fl_mono_pos) auto
    then show ?thesis by (simp add: fl_minus)
  qed
qed

text \<open>A value with at most 53 significant bits is kept as it is; in particular every
  integer up to \<open>2 ^ 53\<close> in absolute value.\<close>

lemma fl_exact:
  assumes "\<bar>m\<bar> \<le> 2 ^ 53" and "- 1074 \<le> k"
  shows "fl (of_int m * 2 powi k) = of_int m * 2 powi k"
proof (cases "m = 0")
  case False
  let ?x = "of_int m * 2 powi k :: rat"
  have x: "?x \<noteq> 0" using False by simp
  have abs: "\<bar>?x\<bar> = of_int \<bar>m\<bar> * 2 powi k" by (simp add: abs_mult)
  have split: "(2 :: rat) powi (k + 53) = of_int (2 ^ 53) * 2 powi k"
    by (simp add: power_int_add)
  show ?thesis
  proof (cases "\<bar>m\<bar> = 2 ^ 53")
    case True
    have "(2 :: rat) powi (k + 53 + 1) = 2 * 2 powi (k + 53)" by (simp add: power_int_add)
    then have "bexp ?x = k + 53"
      using True split by (intro bexp_unique) (simp_all only: abs, simp_all)
    then have "quantum ?x \<le> k + 1" using assms by (simp add: quantum_def)
    moreover have "?x = of_int (sgn m * 2 ^ 52) * 2 powi (k + 1)"
    proof (cases "0 < m")
      case True
      with \<open>\<bar>m\<bar> = 2 ^ 53\<close> have "m = 2 ^ 53" by simp
      then show ?thesis by (simp add: power_int_add)
    next
      case False
      with \<open>\<bar>m\<bar> = 2 ^ 53\<close> have "m = - (2 ^ 53)" by simp
      then show ?thesis by (simp add: power_int_add)
    qed
    ultimately show ?thesis by (metis fl_round_to round_to_exact)
  next
    case False
    with assms have "\<bar>m\<bar> < 2 ^ 53" by simp
    then have "(of_int \<bar>m\<bar> :: rat) < of_int (2 ^ 53)" by (simp only: of_int_less_iff)
    then have "\<bar>?x\<bar> < 2 powi (k + 53)" by (simp only: split abs) simp
    with bexp_bracket(1) [OF x] have "(2 :: rat) powi bexp ?x < 2 powi (k + 53)" by linarith
    then have "bexp ?x < k + 53" by (rule powi2_less_imp)
    then have "quantum ?x \<le> k" using assms by (simp add: quantum_def)
    then show ?thesis by (simp add: fl_round_to round_to_exact)
  qed
qed simp

lemma fl_of_int: "\<bar>n\<bar> \<le> 2 ^ 53 \<Longrightarrow> fl (of_int n) = of_int n"
  using fl_exact [of n 0] by simp

lemma fl_1 [simp]: "fl 1 = 1"
  using fl_of_int [of 1] by simp

text \<open>Rounding is idempotent: a rounded value has at most 53 significant bits.\<close>

lemma rhe_quantum_bound:
  assumes "x \<noteq> 0"
  shows "\<bar>rhe (x / 2 powi quantum x)\<bar> \<le> 2 ^ 53"
proof -
  let ?e = "quantum x"
  have "\<bar>x\<bar> < 2 powi (bexp x + 1)" using bexp_bracket(2) [OF assms] .
  also have "\<dots> \<le> 2 powi (?e + 53)" by (rule powi2_mono) (simp add: quantum_def)
  also have "\<dots> = of_int (2 ^ 53) * 2 powi ?e" by (simp add: power_int_add)
  finally have b: "\<bar>x / 2 powi ?e\<bar> < of_int (2 ^ 53)" by (simp add: abs_divide field_simps)
  then have "x / 2 powi ?e \<le> of_int (2 ^ 53)" and "of_int (- (2 ^ 53)) \<le> x / 2 powi ?e"
    unfolding abs_less_iff of_int_minus by linarith+
  from this [THEN rhe_mono] show ?thesis by (simp only: rhe_of_int abs_le_iff) simp
qed

lemma fl_idem [simp]: "fl (fl x) = fl x"
proof (cases "x = 0")
  case False
  have "fl x = of_int (rhe (x / 2 powi quantum x)) * 2 powi quantum x"
    using False by (simp add: fl_def)
  moreover have "- 1074 \<le> quantum x" by (simp add: quantum_def)
  ultimately show ?thesis using fl_exact rhe_quantum_bound [OF False] by metis
qed simp

section \<open>The contract of a rounding\<close>

text \<open>
  What the estimators and detectors rely on: rounding is monotone and idempotent and keeps the
  integers up to \<open>2 ^ 53\<close>. A count is converted to float64 exactly under that bound.
\<close>

locale rounding =
  fixes rnd :: "rat \<Rightarrow> rat"
  assumes rnd_mono: "x \<le> y \<Longrightarrow> rnd x \<le> rnd y"
    and rnd_idem: "rnd (rnd x) = rnd x"
    and rnd_of_int: "\<bar>n\<bar> \<le> 2 ^ 53 \<Longrightarrow> rnd (of_int n) = of_int n"
begin

lemma rnd_0: "rnd 0 = 0"
  using rnd_of_int [of 0] by simp

lemma rnd_1: "rnd 1 = 1"
  using rnd_of_int [of 1] by simp

lemma rnd_of_nat: "n \<le> 2 ^ 53 \<Longrightarrow> rnd (of_nat n) = of_nat n"
proof -
  assume "n \<le> 2 ^ 53"
  then have "int n \<le> 2 ^ 53" by (metis of_nat_le_iff of_nat_numeral of_nat_power)
  then show ?thesis using rnd_of_int [of "int n"] by simp
qed

lemma rnd_nonneg: "0 \<le> x \<Longrightarrow> 0 \<le> rnd x"
  using rnd_mono [of 0 x] by (simp add: rnd_0)

lemma rnd_le_1: "x \<le> 1 \<Longrightarrow> rnd x \<le> 1"
  using rnd_mono [of x 1] by (simp add: rnd_1)

lemma rnd_ge_self: "rnd y = y \<Longrightarrow> y \<le> x \<Longrightarrow> y \<le> rnd x"
  using rnd_mono [of y x] by simp

lemma rnd_le_self: "rnd y = y \<Longrightarrow> x \<le> y \<Longrightarrow> rnd x \<le> y"
  using rnd_mono [of x y] by simp

lemma rnd_add_ge: "rnd y = y \<Longrightarrow> 0 \<le> d \<Longrightarrow> y \<le> rnd (y + d)"
  by (rule rnd_ge_self) simp_all

lemma rnd_frac:
  assumes "0 \<le> a" and "a \<le> b" and "0 < b"
  shows "0 \<le> rnd (a / b)" and "rnd (a / b) \<le> 1"
  using assms by (simp_all add: rnd_nonneg rnd_le_1)

end

interpretation f64: rounding fl
  by unfold_locales (simp_all add: fl_mono fl_of_int)

interpretation exact: rounding "\<lambda>x. x"
  by unfold_locales simp_all

end
