(* ===== verification/Incidence.thy ===== *)
theory Incidence
  imports Float64
begin

text \<open>
  The completion-incidence estimator of \<^verbatim>\<open>internal/collect/incidence.go\<close>: the
  Aalen-Johansen cumulative incidence of completion, with errors as competing events, and the
  quantile, ceiling and point queries on the curve. Every float64 operation goes through a
  rounding \<open>rnd\<close>; the program is the instance \<open>rnd = fl\<close>, exact arithmetic the
  instance \<open>rnd = (\<lambda>x. x)\<close>.

  The abstract specification is the textbook estimator over the multiset of observations
  (\<open>aj_survival\<close>, \<open>aj_cif\<close>); the refinement lemmas show that the loop over the sorted
  slice computes it.
\<close>

section \<open>Observations and the curve\<close>

text \<open>\<open>ObsKind\<close> is a Go \<open>int\<close>: a value outside the three constants reaches the \<open>default\<close>
  branch of the switch and panics (\<open>None\<close> below).\<close>

datatype obs_kind = ObsCompletion | ObsError | ObsCensored | ObsOther int

record obs =
  TimeUs :: int
  Kind :: obs_kind

record incidence_point =
  pt_TimeUs :: int
  pt_Incidence :: rat
  pt_AtRisk :: nat
  pt_Events :: nat
  pt_Errors :: nat

record incidence_curve =
  curve_N :: nat
  curve_Points :: "incidence_point list"
  curve_Censored :: nat
  curve_FinalSurvival :: rat
  curve_HorizonUs :: int

text \<open>The order of \<open>sort.Slice\<close>: by time, events before censored observations at a tie.\<close>

definition obs_before :: "obs \<Rightarrow> obs \<Rightarrow> bool" where
  "obs_before a b \<longleftrightarrow>
     (if TimeUs a \<noteq> TimeUs b then TimeUs a < TimeUs b
      else Kind a \<noteq> ObsCensored \<and> Kind b = ObsCensored)"

text \<open>One pass of insertion sort by \<open>obs_before\<close>. Go's \<open>sort.Slice\<close> may order equal
  elements differently; \<open>estimate_incidence_perm\<close> shows the curve does not depend on it.\<close>

fun obs_insert :: "obs \<Rightarrow> obs list \<Rightarrow> obs list" where
  "obs_insert x [] = [x]"
| "obs_insert x (y # ys) = (if obs_before y x then y # obs_insert x ys else x # y # ys)"

fun obs_sort :: "obs list \<Rightarrow> obs list" where
  "obs_sort [] = []"
| "obs_sort (x # xs) = obs_insert x (obs_sort xs)"

text \<open>The inner loop: count the observations tied at \<open>t\<close>. The result holds the
  completions, errors, censored, removed and the rest of the slice.\<close>

fun scan_tie :: "int \<Rightarrow> obs list \<Rightarrow> nat \<Rightarrow> nat \<Rightarrow> nat \<Rightarrow> nat \<Rightarrow> (nat \<times> nat \<times> nat \<times> nat \<times> obs list) option" where
  "scan_tie t [] c e z k = Some (c, e, z, k, [])"
| "scan_tie t (x # xs) c e z k =
     (if TimeUs x = t then
        (case Kind x of
           ObsCompletion \<Rightarrow> scan_tie t xs (Suc c) e z (Suc k)
         | ObsError \<Rightarrow> scan_tie t xs c (Suc e) z (Suc k)
         | ObsCensored \<Rightarrow> scan_tie t xs c e (Suc z) (Suc k)
         | ObsOther _ \<Rightarrow> None)
      else Some (c, e, z, k, x # xs))"

lemma scan_tie_length:
  "scan_tie t xs c e z k = Some (c', e', z', k', rest) \<Longrightarrow> length rest \<le> length xs"
proof (induction xs arbitrary: c e z k)
  case (Cons x xs)
  then show ?case
    by (cases "TimeUs x = t"; cases "Kind x") (auto intro: le_SucI)
qed simp

lemma scan_tie_shrinks:
  "scan_tie (TimeUs x) (x # xs) c e z k = Some (c', e', z', k', rest) \<Longrightarrow> length rest \<le> length xs"
  by (cases "Kind x") (auto dest: scan_tie_length)

text \<open>The float64 updates of one time step.\<close>

definition step_cif :: "(rat \<Rightarrow> rat) \<Rightarrow> rat \<Rightarrow> rat \<Rightarrow> nat \<Rightarrow> nat \<Rightarrow> rat" where
  "step_cif rnd s cif c atRisk =
     (if c > 0 then rnd (cif + rnd (rnd (s * rnd (of_nat c)) / rnd (of_nat atRisk))) else cif)"

definition step_surv :: "(rat \<Rightarrow> rat) \<Rightarrow> rat \<Rightarrow> nat \<Rightarrow> nat \<Rightarrow> rat" where
  "step_surv rnd s ce atRisk =
     (if ce > 0 then rnd (s * rnd (1 - rnd (rnd (of_nat ce) / rnd (of_nat atRisk)))) else s)"

definition step_points :: "int \<Rightarrow> rat \<Rightarrow> nat \<Rightarrow> nat \<Rightarrow> nat \<Rightarrow> incidence_point list" where
  "step_points t cif atRisk c e =
     (if c > 0 then [\<lparr>pt_TimeUs = t, pt_Incidence = cif, pt_AtRisk = atRisk, pt_Events = c, pt_Errors = e\<rparr>]
      else [])"

text \<open>The outer loop, one iteration per distinct time.\<close>

function est_loop :: "(rat \<Rightarrow> rat) \<Rightarrow> obs list \<Rightarrow> nat \<Rightarrow> rat \<Rightarrow> rat \<Rightarrow> incidence_point list \<Rightarrow> nat
    \<Rightarrow> (incidence_point list \<times> nat \<times> rat) option" where
  "est_loop rnd [] atRisk s cif pts cens = Some (pts, cens, s)"
| "est_loop rnd (x # xs) atRisk s cif pts cens =
     (case scan_tie (TimeUs x) (x # xs) 0 0 0 0 of
        None \<Rightarrow> None
      | Some (c, e, z, k, rest) \<Rightarrow>
          let cif' = step_cif rnd s cif c atRisk
          in est_loop rnd rest (atRisk - k) (step_surv rnd s (c + e) atRisk) cif'
               (pts @ step_points (TimeUs x) cif' atRisk c e) (cens + z))"
  by pat_completeness auto
termination
  by (relation "measure (\<lambda>(rnd, xs, _). length xs)") (auto dest!: scan_tie_shrinks simp del: scan_tie.simps)

definition estimate_incidence :: "(rat \<Rightarrow> rat) \<Rightarrow> obs list \<Rightarrow> int \<Rightarrow> incidence_curve option" where
  "estimate_incidence rnd os horizonUs =
     (if os = [] then
        Some \<lparr>curve_N = 0, curve_Points = [], curve_Censored = 0, curve_FinalSurvival = 0,
              curve_HorizonUs = horizonUs\<rparr>
      else
        (case est_loop rnd (obs_sort os) (length os) 1 0 [] 0 of
           None \<Rightarrow> None
         | Some (pts, cens, s) \<Rightarrow>
             Some \<lparr>curve_N = length os, curve_Points = pts, curve_Censored = cens,
                   curve_FinalSurvival = s, curve_HorizonUs = horizonUs\<rparr>))"

section \<open>Queries\<close>

text \<open>\<open>Quantile\<close>: the outer \<open>None\<close> is the panic on \<open>q\<close> outside \<open>(0, 1]\<close>, the inner one
  \<open>ok = false\<close>. \<open>eps\<close> is the constant \<open>1e-9\<close>.\<close>

fun quantile_scan :: "rat \<Rightarrow> int \<Rightarrow> incidence_point list \<Rightarrow> int option" where
  "quantile_scan bar h [] = None"
| "quantile_scan bar h (p # ps) =
     (if bar \<le> pt_Incidence p \<and> pt_TimeUs p \<le> h then Some (pt_TimeUs p) else quantile_scan bar h ps)"

definition quantile :: "(rat \<Rightarrow> rat) \<Rightarrow> incidence_curve \<Rightarrow> rat \<Rightarrow> int option option" where
  "quantile rnd c q =
     (if q \<le> 0 \<or> 1 < q then None
      else Some (quantile_scan (rnd (q - rnd (1 / 10 ^ 9))) (curve_HorizonUs c) (curve_Points c)))"

definition final_incidence :: "incidence_curve \<Rightarrow> rat" where
  "final_incidence c = (if curve_Points c = [] then 0 else pt_Incidence (last (curve_Points c)))"

definition ceiling_of :: "(rat \<Rightarrow> rat) \<Rightarrow> incidence_curve \<Rightarrow> rat" where
  "ceiling_of rnd c = rnd (final_incidence c + curve_FinalSurvival c)"

fun incidence_scan :: "int \<Rightarrow> rat \<Rightarrow> incidence_point list \<Rightarrow> rat" where
  "incidence_scan t cif [] = cif"
| "incidence_scan t cif (p # ps) = (if t < pt_TimeUs p then cif else incidence_scan t (pt_Incidence p) ps)"

definition incidence_at :: "incidence_curve \<Rightarrow> int \<Rightarrow> rat" where
  "incidence_at c t = incidence_scan t 0 (curve_Points c)"


section \<open>The textbook estimator\<close>

definition obs_ok :: "obs \<Rightarrow> bool" where
  "obs_ok x \<longleftrightarrow> Kind x = ObsCompletion \<or> Kind x = ObsError \<or> Kind x = ObsCensored"

definition count_at :: "obs list \<Rightarrow> obs_kind \<Rightarrow> int \<Rightarrow> nat" where
  "count_at os k t = length (filter (\<lambda>x. TimeUs x = t \<and> Kind x = k) os)"

definition at_risk :: "obs list \<Rightarrow> int \<Rightarrow> nat" where
  "at_risk os t = length (filter (\<lambda>x. t \<le> TimeUs x) os)"

definition obs_times :: "obs list \<Rightarrow> int set" where
  "obs_times os = TimeUs ` set os"

definition hazard_kept :: "obs list \<Rightarrow> int \<Rightarrow> rat" where
  "hazard_kept os u = 1 - of_nat (count_at os ObsCompletion u + count_at os ObsError u) / of_nat (at_risk os u)"

text \<open>\<open>aj_survival os t\<close> is event-free survival just before \<open>t\<close>; \<open>aj_cif os t\<close> the
  cumulative incidence of completion by \<open>t\<close>.\<close>

definition aj_survival :: "obs list \<Rightarrow> int \<Rightarrow> rat" where
  "aj_survival os t = (\<Prod>u\<in>{u \<in> obs_times os. u < t}. hazard_kept os u)"

definition aj_cif :: "obs list \<Rightarrow> int \<Rightarrow> rat" where
  "aj_cif os t = (\<Sum>u\<in>{u \<in> obs_times os. u \<le> t}.
     aj_survival os u * of_nat (count_at os ObsCompletion u) / of_nat (at_risk os u))"

text \<open>The same estimator as a recursion over the distinct times, with the rounding.\<close>

fun aj_loop :: "(rat \<Rightarrow> rat) \<Rightarrow> obs list \<Rightarrow> int list \<Rightarrow> rat \<Rightarrow> rat \<Rightarrow> incidence_point list \<Rightarrow> nat
    \<Rightarrow> incidence_point list \<times> nat \<times> rat" where
  "aj_loop rnd os [] s cif pts cens = (pts, cens, s)"
| "aj_loop rnd os (t # ts) s cif pts cens =
     (let n = at_risk os t; c = count_at os ObsCompletion t; e = count_at os ObsError t;
          cif' = step_cif rnd s cif c n
      in aj_loop rnd os ts (step_surv rnd s (c + e) n) cif' (pts @ step_points t cif' n c e)
           (cens + count_at os ObsCensored t))"

section \<open>The loop refines the textbook estimator\<close>

lemma mset_obs_insert: "mset (obs_insert x xs) = add_mset x (mset xs)"
  by (induction xs) auto

lemma mset_obs_sort [simp]: "mset (obs_sort xs) = mset xs"
  by (induction xs) (simp_all add: mset_obs_insert)

lemma set_obs_sort [simp]: "set (obs_sort xs) = set xs"
  by (metis mset_obs_sort set_mset_mset)

lemma length_obs_sort [simp]: "length (obs_sort xs) = length xs"
  by (metis mset_obs_sort size_mset)

lemma sorted_obs_insert: "sorted (map TimeUs xs) \<Longrightarrow> sorted (map TimeUs (obs_insert x xs))"
proof (induction xs)
  case (Cons y ys)
  have "set (obs_insert x ys) = insert x (set ys)"
    by (metis mset_obs_insert set_mset_add_mset_insert set_mset_mset)
  with Cons show ?case by (auto simp: obs_before_def split: if_splits)
qed simp

lemma sorted_obs_sort: "sorted (map TimeUs (obs_sort xs))"
  by (induction xs) (simp_all add: sorted_obs_insert)

lemma count_filter_mset: "length (filter P xs) = size (filter_mset P (mset xs))"
  by (metis mset_filter size_mset)

lemma counts_mset:
  assumes "mset xs = mset ys"
  shows "count_at xs k t = count_at ys k t" and "at_risk xs t = at_risk ys t"
    and "obs_times xs = obs_times ys"
  using assms mset_eq_setD [OF assms]
  by (simp_all add: count_at_def at_risk_def obs_times_def count_filter_mset)

lemma scan_tie_eq:
  assumes "sorted (map TimeUs xs)" and "\<forall>x\<in>set xs. t \<le> TimeUs x" and "\<forall>x\<in>set xs. obs_ok x"
  shows "scan_tie t xs c e z k =
    Some (c + count_at xs ObsCompletion t, e + count_at xs ObsError t, z + count_at xs ObsCensored t,
          k + length (filter (\<lambda>x. TimeUs x = t) xs), filter (\<lambda>x. t < TimeUs x) xs)"
  using assms
proof (induction xs arbitrary: c e z k)
  case Nil
  then show ?case by (simp add: count_at_def)
next
  case (Cons x xs)
  show ?case
  proof (cases "TimeUs x = t")
    case True
    then show ?thesis using Cons by (auto simp: count_at_def obs_ok_def)
  next
    case False
    then have later: "\<forall>y\<in>set (x # xs). t < TimeUs y" using Cons.prems(1,2) by auto
    then have "filter (\<lambda>y. t < TimeUs y) (x # xs) = x # xs" by (simp add: filter_id_conv)
    moreover have "filter (\<lambda>y. TimeUs y = t \<and> P y) (x # xs) = []" for P
      using later by (auto simp: filter_empty_conv)
    moreover have "filter (\<lambda>y. TimeUs y = t) (x # xs) = []"
      using later by (auto simp: filter_empty_conv)
    ultimately show ?thesis using False by (simp add: count_at_def del: filter.simps)
  qed
qed

lemma scan_tie_bad:
  assumes "sorted (map TimeUs xs)" and "\<forall>x\<in>set xs. t \<le> TimeUs x"
    and "scan_tie t xs c e z k = Some (c', e', z', k', rest)"
  shows "rest = filter (\<lambda>x. t < TimeUs x) xs \<and> (\<forall>x\<in>set xs. TimeUs x = t \<longrightarrow> obs_ok x)"
  using assms
proof (induction xs arbitrary: c e z k)
  case (Cons x xs)
  show ?case
  proof (cases "TimeUs x = t")
    case True
    with Cons show ?thesis by (cases "Kind x") (auto simp: obs_ok_def)
  next
    case False
    then have later: "\<forall>y\<in>set (x # xs). t < TimeUs y" using Cons.prems(1,2) by auto
    moreover have "rest = x # xs" using False Cons.prems(3) by simp
    ultimately show ?thesis by (force simp: filter_id_conv)
  qed
qed simp

text \<open>One distinct time is consumed per iteration of the outer loop.\<close>

lemma times_split:
  assumes "xs \<noteq> []" and "sorted (map TimeUs xs)"
  shows "sorted_list_of_set (obs_times xs) =
     TimeUs (hd xs) # sorted_list_of_set (obs_times (filter (\<lambda>x. TimeUs (hd xs) < TimeUs x) xs))"
proof -
  let ?t = "TimeUs (hd xs)"
  have le: "\<forall>x\<in>set xs. ?t \<le> TimeUs x" using assms by (cases xs) auto
  have "Min (obs_times xs) = ?t"
    using assms(1) le by (intro Min_eqI) (auto simp: obs_times_def)
  moreover have "obs_times xs - {?t} = obs_times (filter (\<lambda>x. ?t < TimeUs x) xs)"
    using le by (force simp: obs_times_def)
  moreover have "obs_times xs \<noteq> {}" and "finite (obs_times xs)"
    using assms(1) by (auto simp: obs_times_def)
  ultimately show ?thesis by (simp add: sorted_list_of_set_nonempty)
qed

lemma est_loop_eq:
  assumes "sorted (map TimeUs xs)" and "\<forall>x\<in>set xs. obs_ok x"
    and "\<forall>t\<in>obs_times xs. at_risk os t = at_risk xs t \<and> (\<forall>k. count_at os k t = count_at xs k t)"
  shows "est_loop rnd xs (length xs) s cif pts cens =
    Some (aj_loop rnd os (sorted_list_of_set (obs_times xs)) s cif pts cens)"
  using assms
proof (induction xs arbitrary: s cif pts cens rule: length_induct)
  case (1 xs)
  show ?case
  proof (cases xs)
    case Nil
    then show ?thesis by (simp add: obs_times_def)
  next
    case (Cons x ys)
    define t where "t = TimeUs x"
    define rest where "rest = filter (\<lambda>x. t < TimeUs x) xs"
    have le: "\<forall>x\<in>set xs. t \<le> TimeUs x" using "1.prems"(1) Cons by (auto simp: t_def)
    have mem: "t \<in> obs_times xs" using Cons by (simp add: obs_times_def t_def)
    have n: "at_risk os t = length xs"
      using "1.prems"(3) mem le by (simp add: at_risk_def)
    have counts: "count_at os k t = count_at xs k t" for k using "1.prems"(3) mem by blast
    have scan: "scan_tie t xs 0 0 0 0 =
        Some (count_at os ObsCompletion t, count_at os ObsError t, count_at os ObsCensored t,
              length (filter (\<lambda>x. TimeUs x = t) xs), rest)"
      using scan_tie_eq [OF "1.prems"(1) le "1.prems"(2)] counts by (simp add: rest_def)
    have len: "length rest = length xs - length (filter (\<lambda>x. TimeUs x = t) xs)"
    proof -
      have "filter (\<lambda>x. TimeUs x \<noteq> t) xs = rest"
        unfolding rest_def using le by (intro filter_cong) auto
      then show ?thesis using sum_length_filter_compl [of "\<lambda>x. TimeUs x = t" xs] by simp
    qed
    have shorter: "length rest < length xs"
      using Cons by (simp add: rest_def t_def) (meson le_imp_less_Suc length_filter_le)
    have late: "count_at rest k u = count_at xs k u \<and> at_risk rest u = at_risk xs u"
      if "u \<in> obs_times rest" for u k
    proof -
      have "t < u" using that by (auto simp: obs_times_def rest_def)
      then show ?thesis
        by (auto simp: count_at_def at_risk_def rest_def intro!: arg_cong [where f = length] filter_cong)
    qed
    have prems: "sorted (map TimeUs rest)" "\<forall>x\<in>set rest. obs_ok x"
      "\<forall>u\<in>obs_times rest. at_risk os u = at_risk rest u \<and> (\<forall>k. count_at os k u = count_at rest k u)"
      using "1.prems" late by (auto simp: rest_def sorted_filter obs_times_def)
    have ts: "sorted_list_of_set (obs_times xs) = t # sorted_list_of_set (obs_times rest)"
      using times_split [of xs] "1.prems"(1) Cons by (simp add: t_def rest_def)
    have IH: "est_loop rnd rest (length rest) s' cif' pts' cens' =
        Some (aj_loop rnd os (sorted_list_of_set (obs_times rest)) s' cif' pts' cens')"
      for s' cif' pts' cens' using "1.IH" shorter prems by blast
    have "est_loop rnd xs (length xs) s cif pts cens =
        Some (aj_loop rnd os (t # sorted_list_of_set (obs_times rest)) s cif pts cens)"
      using scan IH n unfolding len Cons
      by (simp add: t_def [symmetric] Let_def del: scan_tie.simps)
    then show ?thesis by (simp only: ts)
  qed
qed

lemma est_loop_panic:
  "sorted (map TimeUs xs) \<Longrightarrow> est_loop rnd xs n s cif pts cens \<noteq> None \<Longrightarrow> \<forall>x\<in>set xs. obs_ok x"
proof (induction rnd xs n s cif pts cens rule: est_loop.induct)
  case (2 rnd x xs n s cif pts cens)
  have le: "\<forall>y\<in>set (x # xs). TimeUs x \<le> TimeUs y" using "2.prems"(1) by auto
  from "2.prems"(2) obtain c e z k rest
    where sc: "scan_tie (TimeUs x) (x # xs) 0 0 0 0 = Some (c, e, z, k, rest)"
    by (auto simp del: scan_tie.simps split: option.splits)
  from scan_tie_bad [OF "2.prems"(1) le sc]
  have rest: "rest = filter (\<lambda>y. TimeUs x < TimeUs y) (x # xs)"
    and tied: "\<forall>y\<in>set (x # xs). TimeUs y = TimeUs x \<longrightarrow> obs_ok y" by auto
  have "sorted (map TimeUs rest)" using "2.prems"(1) unfolding rest by (intro sorted_filter)
  with "2.IH" [OF sc] "2.prems"(2) sc have "\<forall>y\<in>set rest. obs_ok y"
    by (simp add: Let_def del: scan_tie.simps)
  with tied le show ?case unfolding rest by fastforce
qed simp


lemma aj_loop_mset:
  assumes m: "mset os = mset os'"
  shows "aj_loop rnd os ts s cif pts cens = aj_loop rnd os' ts s cif pts cens"
  by (induction ts arbitrary: s cif pts cens) (simp_all add: counts_mset(1,2) [OF m] Let_def)

text \<open>Refinement: the sorted sweep computes the estimator over the distinct times.\<close>

lemma estimate_incidence_aj:
  assumes "os \<noteq> []" and "\<forall>x\<in>set os. obs_ok x"
  shows "estimate_incidence rnd os h =
    (case aj_loop rnd os (sorted_list_of_set (obs_times os)) 1 0 [] 0 of (pts, cens, s) \<Rightarrow>
       Some \<lparr>curve_N = length os, curve_Points = pts, curve_Censored = cens,
             curve_FinalSurvival = s, curve_HorizonUs = h\<rparr>)"
proof -
  have m: "mset (obs_sort os) = mset os" by simp
  have "est_loop rnd (obs_sort os) (length (obs_sort os)) 1 0 [] 0 =
      Some (aj_loop rnd os (sorted_list_of_set (obs_times (obs_sort os))) 1 0 [] 0)"
    using assms counts_mset [OF m] by (intro est_loop_eq) (simp_all add: sorted_obs_sort)
  then show ?thesis
    using assms(1) by (simp add: estimate_incidence_def counts_mset(3) [OF m] split: prod.splits)
qed

text \<open>The estimator panics exactly on an observation with an undefined kind.\<close>

lemma estimate_incidence_total:
  "(\<exists>c. estimate_incidence rnd os h = Some c) \<longleftrightarrow> (\<forall>x\<in>set os. obs_ok x)"
proof
  assume "\<exists>c. estimate_incidence rnd os h = Some c"
  then show "\<forall>x\<in>set os. obs_ok x"
  proof (cases "os = []")
    case False
    assume "\<exists>c. estimate_incidence rnd os h = Some c"
    with False have "est_loop rnd (obs_sort os) (length os) 1 0 [] 0 \<noteq> None"
      by (auto simp: estimate_incidence_def split: option.splits)
    from est_loop_panic [OF sorted_obs_sort this] show ?thesis by simp
  qed simp
next
  assume ok: "\<forall>x\<in>set os. obs_ok x"
  show "\<exists>c. estimate_incidence rnd os h = Some c"
    using estimate_incidence_aj [OF _ ok]
    by (cases "os = []") (auto simp: estimate_incidence_def split: prod.splits)
qed

section \<open>Shape of the curve under any rounding\<close>

lemma aj_loop_frame:
  "\<exists>more z s'. aj_loop rnd os ts s cif pts cens = (pts @ more, cens + z, s')
     \<and> aj_loop rnd os ts s cif [] 0 = (more, z, s')"
proof (induction ts arbitrary: s cif pts cens)
  case (Cons t ts)
  let ?n = "at_risk os t" and ?c = "count_at os ObsCompletion t" and ?e = "count_at os ObsError t"
  let ?cif = "step_cif rnd s cif ?c ?n" and ?s = "step_surv rnd s (?c + ?e) ?n"
  let ?p = "step_points t ?cif ?n ?c ?e" and ?z = "count_at os ObsCensored t"
  obtain m1 z1 s1 where 1: "aj_loop rnd os ts ?s ?cif (pts @ ?p) (cens + ?z) = (pts @ ?p @ m1, cens + ?z + z1, s1)"
    "aj_loop rnd os ts ?s ?cif [] 0 = (m1, z1, s1)"
    using Cons.IH [of ?s ?cif "pts @ ?p" "cens + ?z"] by auto
  moreover obtain m2 z2 s2 where "aj_loop rnd os ts ?s ?cif ?p ?z = (?p @ m2, ?z + z2, s2)"
    "aj_loop rnd os ts ?s ?cif [] 0 = (m2, z2, s2)"
    using Cons.IH [of ?s ?cif ?p ?z] by auto
  ultimately show ?case by (auto simp: Let_def)
qed simp


lemma aj_loop_Cons:
  fixes os t s cif rnd
  defines "n \<equiv> at_risk os t" and "c \<equiv> count_at os ObsCompletion t" and "e \<equiv> count_at os ObsError t"
  defines "cif' \<equiv> step_cif rnd s cif c n"
  assumes "aj_loop rnd os (t # ts) s cif [] 0 = (pts, z, s')"
  obtains m z1 where "aj_loop rnd os ts (step_surv rnd s (c + e) n) cif' [] 0 = (m, z1, s')"
    and "pts = step_points t cif' n c e @ m"
  using assms aj_loop_frame [of rnd os ts "step_surv rnd s (c + e) n" cif' "step_points t cif' n c e"
      "count_at os ObsCensored t"]
  by (auto simp: Let_def)

lemma aj_loop_times:
  "aj_loop rnd os ts s cif [] 0 = (pts, z, s') \<Longrightarrow>
     map pt_TimeUs pts = filter (\<lambda>t. 0 < count_at os ObsCompletion t) ts"
proof (induction ts arbitrary: s cif pts z)
  case (Cons t ts)
  from Cons.prems show ?case
    by (rule aj_loop_Cons) (auto simp: step_points_def dest: Cons.IH)
qed simp


lemma events_le_at_risk:
  "count_at os ObsCompletion t + count_at os ObsError t \<le> at_risk os t"
proof -
  have "count_at os ObsCompletion t + count_at os ObsError t
      = length (filter (\<lambda>x. TimeUs x = t \<and> (Kind x = ObsCompletion \<or> Kind x = ObsError)) os)"
    unfolding count_at_def by (induction os) auto
  also have "\<dots> \<le> length (filter (\<lambda>x. t \<le> TimeUs x) os)"
    by (induction os) auto
  finally show ?thesis by (simp add: at_risk_def)
qed

context rounding
begin

lemma step_cif_ge:
  assumes "0 \<le> s" and "rnd cif = cif"
  shows "cif \<le> step_cif rnd s cif c n"
proof -
  have "0 \<le> rnd (s * rnd (of_nat c)) / rnd (of_nat n)"
    by (rule divide_nonneg_nonneg; rule rnd_nonneg) (simp_all add: assms(1) rnd_nonneg)
  then have "0 \<le> rnd (rnd (s * rnd (of_nat c)) / rnd (of_nat n))" by (rule rnd_nonneg)
  from rnd_add_ge [OF assms(2) this] show ?thesis unfolding step_cif_def by (simp only: if_split) simp
qed

lemma step_cif_fix: "rnd cif = cif \<Longrightarrow> rnd (step_cif rnd s cif c n) = step_cif rnd s cif c n"
  unfolding step_cif_def by (simp only: rnd_idem split: if_split) simp

lemma kept_fraction:
  assumes "ce \<le> n"
  defines "f \<equiv> rnd (1 - rnd (rnd (of_nat ce) / rnd (of_nat n)))"
  shows "0 \<le> f" and "f \<le> 1"
proof -
  let ?a = "rnd (of_nat ce)" and ?b = "rnd (of_nat n)"
  have ab: "0 \<le> ?a" "?a \<le> ?b" using assms(1) by (simp_all add: rnd_nonneg rnd_mono)
  then have "0 \<le> ?a / ?b" "?a / ?b \<le> 1" by (cases "?b = 0"; auto simp: divide_le_eq_1)+
  then have "0 \<le> rnd (?a / ?b)" "rnd (?a / ?b) \<le> 1" using rnd_nonneg rnd_le_1 by blast+
  then show "0 \<le> f" "f \<le> 1" unfolding f_def by (intro rnd_nonneg rnd_le_1; simp)+
qed

lemma step_surv_bounds:
  assumes "0 \<le> s" and "rnd s = s" and "ce \<le> n"
  shows "0 \<le> step_surv rnd s ce n" and "step_surv rnd s ce n \<le> s"
proof -
  define f where "f = rnd (1 - rnd (rnd (of_nat ce) / rnd (of_nat n)))"
  have "0 \<le> s * f" and "s * f \<le> s"
    using assms(1) kept_fraction [OF assms(3)] by (simp_all add: f_def mult_left_le)
  then have "0 \<le> rnd (s * f)" "rnd (s * f) \<le> s"
    using rnd_nonneg rnd_le_self [OF assms(2)] by blast+
  then show "0 \<le> step_surv rnd s ce n" and "step_surv rnd s ce n \<le> s"
    using assms(1) by (simp_all add: step_surv_def f_def)
qed

lemma step_surv_fix: "rnd s = s \<Longrightarrow> rnd (step_surv rnd s ce n) = step_surv rnd s ce n"
  unfolding step_surv_def by (simp only: rnd_idem split: if_split) simp


text \<open>The points of the curve are nondecreasing, and survival stays within \<open>[0, s]\<close>.\<close>

lemma aj_loop_mono:
  assumes "aj_loop rnd os ts s cif [] 0 = (pts, z, s')" and "0 \<le> s" and "rnd s = s" and "rnd cif = cif"
  shows "sorted (cif # map pt_Incidence pts) \<and> 0 \<le> s' \<and> s' \<le> s"
  using assms
proof (induction ts arbitrary: s cif pts z)
  case (Cons t ts)
  let ?n = "at_risk os t" and ?c = "count_at os ObsCompletion t" and ?e = "count_at os ObsError t"
  let ?cif = "step_cif rnd s cif ?c ?n" and ?s = "step_surv rnd s (?c + ?e) ?n"
  from Cons.prems(1) obtain m z1 where m: "aj_loop rnd os ts ?s ?cif [] 0 = (m, z1, s')"
    and pts: "pts = step_points t ?cif ?n ?c ?e @ m" by (rule aj_loop_Cons)
  note b = step_surv_bounds [OF Cons.prems(2,3) events_le_at_risk]
  note fixed = step_surv_fix [OF Cons.prems(3)] step_cif_fix [OF Cons.prems(4)]
  have IH: "sorted (?cif # map pt_Incidence m) \<and> 0 \<le> s' \<and> s' \<le> ?s"
    by (rule Cons.IH [OF m b(1) fixed])
  have "cif \<le> ?cif" using Cons.prems(2,4) by (rule step_cif_ge)
  with IH have "sorted (cif # ?cif # map pt_Incidence m)" by (auto intro: order_trans)
  then have "sorted (cif # map pt_Incidence pts)" by (simp add: pts step_points_def)
  moreover have "s' \<le> s" using IH order_trans [OF _ b(2)] by blast
  ultimately show ?case using IH by blast
qed simp

end

lemma times_strict: "sorted_wrt (<) (filter P (sorted_list_of_set (A :: int set)))"
  by (simp add: sorted_wrt_filter)

text \<open>Everything the loop guarantees of a curve, whatever the rounding.\<close>

lemma estimate_incidence_loop:
  assumes "estimate_incidence rnd os h = Some c" and "os \<noteq> []"
  shows "aj_loop rnd os (sorted_list_of_set (obs_times os)) 1 0 [] 0 =
      (curve_Points c, curve_Censored c, curve_FinalSurvival c)"
    and "curve_N c = length os" and "curve_HorizonUs c = h"
proof -
  have ok: "\<forall>x\<in>set os. obs_ok x" using assms(1) estimate_incidence_total by blast
  show "aj_loop rnd os (sorted_list_of_set (obs_times os)) 1 0 [] 0 =
      (curve_Points c, curve_Censored c, curve_FinalSurvival c)"
    and "curve_N c = length os" and "curve_HorizonUs c = h"
    using assms(1) estimate_incidence_aj [OF assms(2) ok, of rnd h] by (auto split: prod.splits)
qed

lemma estimate_incidence_Nil:
  "estimate_incidence rnd [] h = Some c \<Longrightarrow> curve_Points c = [] \<and> curve_FinalSurvival c = 0 \<and> curve_Censored c = 0"
  by (auto simp: estimate_incidence_def)

lemma curve_times_strict:
  assumes "estimate_incidence rnd os h = Some c"
  shows "sorted_wrt (<) (map pt_TimeUs (curve_Points c))"
proof (cases "os = []")
  case False
  from aj_loop_times [OF estimate_incidence_loop(1) [OF assms False]] show ?thesis
    by (simp add: times_strict)
qed (use assms estimate_incidence_Nil in force)

lemma sum_count_at:
  assumes "distinct ts" and "TimeUs ` set os \<subseteq> set ts"
  shows "sum_list (map (count_at os k) ts) = length (filter (\<lambda>x. Kind x = k) os)"
  using assms(2)
proof (induction os)
  case Nil
  then show ?case by (simp add: count_at_def)
next
  case (Cons x xs)
  have "sum_list (map (count_at (x # xs) k) ts) =
      sum_list (map (count_at xs k) ts) + (if Kind x = k then sum_list (map (\<lambda>t. if t = TimeUs x then 1 else 0) ts) else 0)"
    by (induction ts) (auto simp: count_at_def)
  moreover have "sum_list (map (\<lambda>t. if t = TimeUs x then 1 else 0) ts) = (1 :: nat)"
    using assms(1) Cons.prems by (simp add: sum_list_distinct_conv_sum_set)
  ultimately show ?case using Cons by simp
qed


context rounding
begin

lemma curve_mono:
  assumes "estimate_incidence rnd os h = Some c"
  shows "sorted (0 # map pt_Incidence (curve_Points c))"
    and "0 \<le> curve_FinalSurvival c" and "curve_FinalSurvival c \<le> 1"
proof -
  have "sorted (0 # map pt_Incidence (curve_Points c)) \<and> 0 \<le> curve_FinalSurvival c \<and> curve_FinalSurvival c \<le> 1"
  proof (cases "os = []")
    case False
    show ?thesis
      by (rule aj_loop_mono [OF estimate_incidence_loop(1) [OF assms False]]) (simp_all add: rnd_0 rnd_1)
  qed (use assms estimate_incidence_Nil in force)
  then show "sorted (0 # map pt_Incidence (curve_Points c))"
    and "0 \<le> curve_FinalSurvival c" and "curve_FinalSurvival c \<le> 1" by blast+
qed

end

section \<open>Exact arithmetic: the loop computes the textbook estimator\<close>

definition aj_term :: "obs list \<Rightarrow> int \<Rightarrow> rat" where
  "aj_term os u = aj_survival os u * of_nat (count_at os ObsCompletion u) / of_nat (at_risk os u)"

lemma aj_cif_alt: "aj_cif os t = (\<Sum>u\<in>{u \<in> obs_times os. u \<le> t}. aj_term os u)"
  by (simp add: aj_cif_def aj_term_def)

lemma finite_obs_times [simp]: "finite (obs_times os)"
  by (simp add: obs_times_def)

lemma step_cif_exact: "step_cif (\<lambda>x. x) s cif c n = cif + s * of_nat c / of_nat n"
  by (simp add: step_cif_def)

lemma step_surv_exact: "step_surv (\<lambda>x. x) s ce n = s * (1 - of_nat ce / of_nat n)"
  by (simp add: step_surv_def)

lemma aj_loop_exact:
  assumes "aj_loop (\<lambda>x. x) os ts s cif [] 0 = (pts, z, s')"
    and "sorted_wrt (<) ts" and "set ts = {u \<in> obs_times os. \<forall>v\<in>P. v < u}" and "P \<subseteq> obs_times os"
    and "\<forall>v\<in>obs_times os. v \<in> P \<or> v \<in> set ts"
    and "s = (\<Prod>u\<in>P. hazard_kept os u)" and "cif = (\<Sum>u\<in>P. aj_term os u)"
  shows "s' = (\<Prod>u\<in>obs_times os. hazard_kept os u) \<and> (\<forall>p\<in>set pts. pt_Incidence p = aj_cif os (pt_TimeUs p))"
  using assms
proof (induction ts arbitrary: P s cif pts z)
  case Nil
  then have "P = obs_times os" by auto
  with Nil show ?case by simp
next
  case (Cons t ts)
  let ?n = "at_risk os t" and ?c = "count_at os ObsCompletion t" and ?e = "count_at os ObsError t"
  let ?cif = "step_cif (\<lambda>x. x) s cif ?c ?n" and ?s = "step_surv (\<lambda>x. x) s (?c + ?e) ?n"
  from Cons.prems(1) obtain m z1 where m: "aj_loop (\<lambda>x. x) os ts ?s ?cif [] 0 = (m, z1, s')"
    and pts: "pts = step_points t ?cif ?n ?c ?e @ m" by (rule aj_loop_Cons)
  have t: "t \<in> obs_times os" "\<forall>v\<in>P. v < t" using Cons.prems(3) by auto
  then have notin: "t \<notin> P" by auto
  have finP: "finite P" using Cons.prems(4) by (rule finite_subset) simp
  have before: "{u \<in> obs_times os. u < t} = P"
    using Cons.prems(2,4,5) t by fastforce
  have upto: "{u \<in> obs_times os. u \<le> t} = insert t P"
    using before t(1) by (auto simp: order.order_iff_strict)
  have surv: "s = aj_survival os t" by (simp add: aj_survival_def before Cons.prems(6))
  have cif': "?cif = (\<Sum>u\<in>insert t P. aj_term os u)"
    using finP notin Cons.prems(7) surv by (simp add: step_cif_exact aj_term_def)
  have s': "?s = (\<Prod>u\<in>insert t P. hazard_kept os u)"
    using finP notin Cons.prems(6) by (simp add: step_surv_exact hazard_kept_def)
  have "s' = (\<Prod>u\<in>obs_times os. hazard_kept os u) \<and> (\<forall>p\<in>set m. pt_Incidence p = aj_cif os (pt_TimeUs p))"
  proof (rule Cons.IH [OF m])
    show "sorted_wrt (<) ts" using Cons.prems(2) by simp
    show "set ts = {u \<in> obs_times os. \<forall>v\<in>insert t P. v < u}"
      using Cons.prems(2,3) t by fastforce
    show "insert t P \<subseteq> obs_times os" using Cons.prems(4) t by simp
    show "\<forall>v\<in>obs_times os. v \<in> insert t P \<or> v \<in> set ts" using Cons.prems(5) by auto
  qed (fact s' cif')+
  moreover have "?cif = aj_cif os t" by (simp only: aj_cif_alt upto cif')
  ultimately show ?case by (auto simp: pts step_points_def)
qed

lemma aj_loop_exact_init:
  assumes "aj_loop (\<lambda>x. x) os (sorted_list_of_set (obs_times os)) 1 0 [] 0 = (pts, z, s')"
  shows "s' = (\<Prod>u\<in>obs_times os. hazard_kept os u)"
    and "p \<in> set pts \<Longrightarrow> pt_Incidence p = aj_cif os (pt_TimeUs p)"
  using aj_loop_exact [OF assms, of "{}"] by auto

text \<open>The query \<open>IncidenceAt\<close> reads the last point at or before \<open>t\<close>.\<close>

lemma incidence_scan_cases:
  assumes "sorted_wrt (<) (map pt_TimeUs pts)"
  shows "(incidence_scan t cif pts = cif \<and> (\<forall>p\<in>set pts. t < pt_TimeUs p))
    \<or> (\<exists>q\<in>set pts. incidence_scan t cif pts = pt_Incidence q \<and> pt_TimeUs q \<le> t
          \<and> (\<forall>p\<in>set pts. pt_TimeUs p \<le> t \<longrightarrow> pt_TimeUs p \<le> pt_TimeUs q))"
  using assms
proof (induction pts arbitrary: cif)
  case (Cons p ps)
  show ?case
  proof (cases "t < pt_TimeUs p")
    case True
    then show ?thesis using Cons.prems by auto
  next
    case False
    have srt: "sorted_wrt (<) (map pt_TimeUs ps)" and first: "\<forall>r\<in>set ps. pt_TimeUs p < pt_TimeUs r"
      using Cons.prems by auto
    from Cons.IH [OF srt, of "pt_Incidence p"] show ?thesis
    proof (elim disjE bexE conjE)
      assume "incidence_scan t (pt_Incidence p) ps = pt_Incidence p" "\<forall>r\<in>set ps. t < pt_TimeUs r"
      with False show ?thesis by (intro disjI2 bexI [of _ p]) auto
    next
      fix q assume "q \<in> set ps" "incidence_scan t (pt_Incidence p) ps = pt_Incidence q" "pt_TimeUs q \<le> t"
        "\<forall>r\<in>set ps. pt_TimeUs r \<le> t \<longrightarrow> pt_TimeUs r \<le> pt_TimeUs q"
      with False first show ?thesis by (intro disjI2 bexI [of _ q]) auto
    qed
  qed
qed simp

lemma aj_cif_flat:
  assumes "\<tau> \<le> t" and "\<forall>u\<in>obs_times os. \<tau> < u \<and> u \<le> t \<longrightarrow> count_at os ObsCompletion u = 0"
  shows "aj_cif os t = aj_cif os \<tau>"
  unfolding aj_cif_alt using assms
  by (intro sum.mono_neutral_right) (auto simp: aj_term_def)

lemma incidence_at_exact:
  assumes c: "estimate_incidence (\<lambda>x. x) os h = Some c"
  shows "incidence_at c t = aj_cif os t"
proof (cases "os = []")
  case True
  with c show ?thesis by (auto simp: estimate_incidence_def incidence_at_def aj_cif_def obs_times_def)
next
  case False
  define pts where "pts = curve_Points c"
  note loop = estimate_incidence_loop(1) [OF c False]
  have times: "map pt_TimeUs pts = filter (\<lambda>t. 0 < count_at os ObsCompletion t) (sorted_list_of_set (obs_times os))"
    using aj_loop_times [OF loop] by (simp add: pts_def)
  have strict: "sorted_wrt (<) (map pt_TimeUs pts)" using curve_times_strict [OF c] by (simp add: pts_def)
  have tset: "u \<in> obs_times os \<Longrightarrow> count_at os ObsCompletion u \<noteq> 0 \<Longrightarrow> u \<in> pt_TimeUs ` set pts" for u
    using times by (metis (mono_tags, lifting) finite_obs_times gr0I list.set_map mem_Collect_eq set_filter set_sorted_list_of_set)
  from incidence_scan_cases [OF strict, of t 0] show ?thesis
  proof (elim disjE bexE conjE)
    assume v: "incidence_scan t 0 pts = 0" and none: "\<forall>p\<in>set pts. t < pt_TimeUs p"
    have "count_at os ObsCompletion u = 0" if "u \<in> obs_times os" "u \<le> t" for u
      using tset [OF that(1)] none that(2) by force
    then have "aj_cif os t = 0" by (auto simp: aj_cif_def intro!: sum.neutral)
    with v show ?thesis by (simp add: incidence_at_def pts_def)
  next
    fix q assume q: "q \<in> set pts" "incidence_scan t 0 pts = pt_Incidence q" "pt_TimeUs q \<le> t"
      and last: "\<forall>p\<in>set pts. pt_TimeUs p \<le> t \<longrightarrow> pt_TimeUs p \<le> pt_TimeUs q"
    have "aj_cif os t = aj_cif os (pt_TimeUs q)"
      using tset last by (intro aj_cif_flat q(3)) force
    moreover have "pt_Incidence q = aj_cif os (pt_TimeUs q)"
      using aj_loop_exact_init(2) [OF loop] q(1) by (simp add: pts_def)
    ultimately show ?thesis using q(2) by (simp add: incidence_at_def pts_def)
  qed
qed

lemma final_survival_exact:
  assumes "estimate_incidence (\<lambda>x. x) os h = Some c" and "os \<noteq> []"
  shows "curve_FinalSurvival c = (\<Prod>u\<in>obs_times os. hazard_kept os u)"
  using aj_loop_exact_init(1) [OF estimate_incidence_loop(1) [OF assms]] .

section \<open>Closed forms in exact arithmetic\<close>

definition aj_err :: "obs list \<Rightarrow> int \<Rightarrow> rat" where
  "aj_err os t = (\<Sum>u\<in>{u \<in> obs_times os. u \<le> t}.
     aj_survival os u * of_nat (count_at os ObsError u) / of_nat (at_risk os u))"

definition surv_after :: "obs list \<Rightarrow> int \<Rightarrow> rat" where
  "surv_after os t = (\<Prod>u\<in>{u \<in> obs_times os. u \<le> t}. hazard_kept os u)"

lemma at_risk_pos: "u \<in> obs_times os \<Longrightarrow> 0 < at_risk os u"
  by (auto simp: at_risk_def obs_times_def length_greater_0_conv filter_empty_conv simp del: length_greater_0_conv)

text \<open>Induction over the observation times: from the times before \<open>m\<close> to those up to \<open>m\<close>.\<close>

lemma times_induct [case_names base flat step]:
  assumes base: "\<And>t. {u \<in> obs_times os. u \<le> t} = {} \<Longrightarrow> Q t"
    and flat: "\<And>m t. m \<in> obs_times os \<Longrightarrow> m \<le> t \<Longrightarrow> {u \<in> obs_times os. m < u \<and> u \<le> t} = {} \<Longrightarrow> Q m \<Longrightarrow> Q t"
    and step: "\<And>m. m \<in> obs_times os \<Longrightarrow> Q (m - 1) \<Longrightarrow> Q m"
  shows "Q (t :: int)"
proof (induction "card {u \<in> obs_times os. u \<le> t}" arbitrary: t rule: less_induct)
  case less
  let ?A = "{u \<in> obs_times os. u \<le> t}"
  show ?case
  proof (cases "?A = {}")
    case False
    define m where "m = Max ?A"
    have m: "m \<in> obs_times os" "m \<le> t" using Max_in [of ?A] False by (auto simp: m_def)
    have none: "{u \<in> obs_times os. m < u \<and> u \<le> t} = {}"
      using Max_ge [of ?A] by (auto simp: m_def not_less)
    have "{u \<in> obs_times os. u \<le> m - 1} \<subset> ?A" using m by auto
    then have "card {u \<in> obs_times os. u \<le> m - 1} < card ?A" by (intro psubset_card_mono) auto
    then have "Q (m - 1)" by (rule less)
    then have "Q m" by (rule step [OF m(1)])
    then show ?thesis by (rule flat [OF m none])
  qed (rule base)
qed

lemma upto_insert:
  "m \<in> obs_times os \<Longrightarrow> {u \<in> obs_times os. u \<le> m} = insert m {u \<in> obs_times os. u \<le> m - 1}"
  by auto

lemma upto_flat:
  "m \<le> t \<Longrightarrow> {u \<in> obs_times os. m < u \<and> u \<le> t} = {} \<Longrightarrow> {u \<in> obs_times os. u \<le> t} = {u \<in> obs_times os. u \<le> m}"
  by (metis (mono_tags, lifting) Collect_empty_eq Collect_cong linorder_not_less order_trans)

lemma sum_upto_insert:
  "m \<in> obs_times os \<Longrightarrow>
     (\<Sum>u\<in>{u \<in> obs_times os. u \<le> m}. f u) = f m + (\<Sum>u\<in>{u \<in> obs_times os. u \<le> m - 1}. f u :: rat)"
  by (subst upto_insert, assumption, subst sum.insert) auto

lemma surv_after_insert:
  "m \<in> obs_times os \<Longrightarrow> surv_after os m = hazard_kept os m * surv_after os (m - 1)"
  unfolding surv_after_def by (subst upto_insert, assumption, subst prod.insert) auto

lemma aj_survival_pred: "aj_survival os m = surv_after os (m - 1)"
  unfolding aj_survival_def surv_after_def by (intro prod.cong) auto

text \<open>Completions, errors and the still event-free share add up to one.\<close>

lemma aj_conservation: "aj_cif os t + aj_err os t + surv_after os t = 1"
proof (induction t rule: times_induct [of os])
  case (base t)
  then show ?case by (simp only: aj_cif_def aj_err_def surv_after_def) simp
next
  case (flat m t)
  then show ?case by (simp only: aj_cif_def aj_err_def surv_after_def upto_flat)
next
  case (step m)
  let ?c = "of_nat (count_at os ObsCompletion m) / of_nat (at_risk os m) :: rat"
  let ?e = "of_nat (count_at os ObsError m) / of_nat (at_risk os m) :: rat"
  have "aj_cif os m = surv_after os (m - 1) * ?c + aj_cif os (m - 1)"
    and "aj_err os m = surv_after os (m - 1) * ?e + aj_err os (m - 1)"
    unfolding aj_cif_def aj_err_def by (simp_all only: sum_upto_insert [OF step(1)] aj_survival_pred times_divide_eq_right)
  moreover have "surv_after os m = (1 - ?c - ?e) * surv_after os (m - 1)"
    by (simp add: surv_after_insert [OF step(1)] hazard_kept_def add_divide_distrib)
  ultimately show ?case using step(2) by (simp add: algebra_simps)
qed


lemma surv_after_nonneg: "0 \<le> surv_after os t"
proof -
  have "0 \<le> hazard_kept os u" if "u \<in> obs_times os" for u
    using events_le_at_risk [of os u] at_risk_pos [OF that]
    by (simp add: hazard_kept_def divide_le_eq_1 del: of_nat_add)
  then show ?thesis unfolding surv_after_def by (intro prod_nonneg) auto
qed

lemma aj_err_nonneg: "0 \<le> aj_err os t"
  unfolding aj_err_def aj_survival_pred
  by (intro sum_nonneg divide_nonneg_nonneg mult_nonneg_nonneg) (simp_all add: surv_after_nonneg)

text \<open>Before the first censored observation survival is the share still at risk, so the curve
  is the plain share of all scheduled requests completed by \<open>t\<close>.\<close>

definition uncensored_before :: "obs list \<Rightarrow> int \<Rightarrow> bool" where
  "uncensored_before os t \<longleftrightarrow> (\<forall>x\<in>set os. obs_ok x \<and> (Kind x = ObsCensored \<longrightarrow> t \<le> TimeUs x))"

lemma at_risk_next:
  assumes "uncensored_before os t" and "m < t" and "{u \<in> obs_times os. m < u \<and> u < t} = {}"
  shows "at_risk os m = count_at os ObsCompletion m + count_at os ObsError m + at_risk os t"
proof -
  have "(m \<le> TimeUs x) = (TimeUs x = m \<or> t \<le> TimeUs x)" if "x \<in> set os" for x
    using assms(2,3) that by (force simp: obs_times_def)
  then have "at_risk os m = length (filter (\<lambda>x. TimeUs x = m \<or> t \<le> TimeUs x) os)"
    unfolding at_risk_def by (intro arg_cong [where f = length] filter_cong) auto
  also have "\<dots> = count_at os ObsCompletion m + count_at os ObsError m + at_risk os t"
    using assms(1,2) unfolding count_at_def at_risk_def
    by (induction os) (auto simp: uncensored_before_def obs_ok_def)
  finally show ?thesis .
qed

lemma surv_after_uncensored:
  "\<forall>x\<in>set os. obs_ok x \<and> (Kind x = ObsCensored \<longrightarrow> t < TimeUs x) \<Longrightarrow> os \<noteq> [] \<Longrightarrow>
     surv_after os t = of_nat (at_risk os (t + 1)) / of_nat (length os)"
proof (induction t rule: times_induct [of os])
  case (base t)
  then have "filter (\<lambda>x. t + 1 \<le> TimeUs x) os = os" by (force simp: filter_id_conv obs_times_def)
  then have "at_risk os (t + 1) = length os" by (simp only: at_risk_def)
  moreover have "surv_after os t = 1" by (simp only: surv_after_def base.hyps) simp
  ultimately show ?case using base.prems(2) by simp
next
  case (flat m t)
  have "at_risk os (t + 1) = at_risk os (m + 1)"
    using flat.hyps(2,3) unfolding at_risk_def
    by (intro arg_cong [where f = length] filter_cong) (force simp: obs_times_def)+
  moreover have "surv_after os t = surv_after os m"
    unfolding surv_after_def using upto_flat [OF flat.hyps(2,3)] by simp
  moreover have "surv_after os m = of_nat (at_risk os (m + 1)) / of_nat (length os)"
    using flat.prems flat.hyps(2) by (intro flat.IH) force+
  ultimately show ?case by simp
next
  case (step m)
  have unc: "uncensored_before os (m + 1)" using step.prems(1) by (force simp: uncensored_before_def)
  have nxt: "at_risk os m = count_at os ObsCompletion m + count_at os ObsError m + at_risk os (m + 1)"
    by (rule at_risk_next [OF unc]) auto
  have n: "of_nat (at_risk os m) \<noteq> (0 :: rat)" using at_risk_pos [OF step.hyps(1)] by simp
  have IH: "surv_after os (m - 1) = of_nat (at_risk os m) / of_nat (length os)"
    using step.IH step.prems by force
  have "surv_after os m = hazard_kept os m * surv_after os (m - 1)"
    by (rule surv_after_insert [OF step.hyps(1)])
  also have "hazard_kept os m = of_nat (at_risk os (m + 1)) / of_nat (at_risk os m)"
    using n nxt by (simp add: hazard_kept_def field_simps)
  finally show ?case using n IH by simp
qed

lemma aj_cif_uncensored:
  assumes "uncensored_before os t" and "os \<noteq> []"
  shows "aj_cif os t = of_nat (length (filter (\<lambda>x. Kind x = ObsCompletion \<and> TimeUs x \<le> t) os)) / of_nat (length os)"
proof -
  have term_eq: "aj_survival os u * of_nat (count_at os ObsCompletion u) / of_nat (at_risk os u)
      = of_nat (count_at os ObsCompletion u) / of_nat (length os)"
    if "u \<in> obs_times os" "u \<le> t" for u
  proof -
    have "aj_survival os u = of_nat (at_risk os u) / of_nat (length os)"
      unfolding aj_survival_pred using assms that surv_after_uncensored [of os "u - 1"]
      by (force simp: uncensored_before_def)
    then show ?thesis using at_risk_pos [OF that(1)] by simp
  qed
  have "aj_cif os t = (\<Sum>u\<in>{u \<in> obs_times os. u \<le> t}. of_nat (count_at os ObsCompletion u) / of_nat (length os))"
    unfolding aj_cif_def using term_eq by (intro sum.cong) auto
  also have "\<dots> = of_nat (\<Sum>u\<in>{u \<in> obs_times os. u \<le> t}. count_at os ObsCompletion u) / of_nat (length os)"
    by (simp add: sum_divide_distrib)
  also have "(\<Sum>u\<in>{u \<in> obs_times os. u \<le> t}. count_at os ObsCompletion u)
      = length (filter (\<lambda>x. Kind x = ObsCompletion \<and> TimeUs x \<le> t) os)"
  proof -
    let ?ys = "filter (\<lambda>x. TimeUs x \<le> t) os" and ?A = "{u \<in> obs_times os. u \<le> t}"
    have "(\<Sum>u\<in>?A. count_at os ObsCompletion u) = (\<Sum>u\<in>?A. count_at ?ys ObsCompletion u)"
      by (intro sum.cong) (auto simp: count_at_def intro!: arg_cong [where f = length] filter_cong)
    also have "\<dots> = sum_list (map (count_at ?ys ObsCompletion) (sorted_list_of_set ?A))"
      by (simp add: sum_list_distinct_conv_sum_set)
    also have "\<dots> = length (filter (\<lambda>x. Kind x = ObsCompletion) ?ys)"
      by (rule sum_count_at) (auto simp: obs_times_def)
    finally show ?thesis by (simp add: conj_commute)
  qed
  finally show ?thesis .
qed

section \<open>Quantiles\<close>

lemma quantile_scan_Some:
  assumes "quantile_scan bar h pts = Some t"
  shows "\<exists>p\<in>set pts. pt_TimeUs p = t \<and> bar \<le> pt_Incidence p \<and> t \<le> h"
  using assms by (induction pts) (auto split: if_splits)

lemma quantile_scan_None:
  "quantile_scan bar h pts = None \<longleftrightarrow> (\<forall>p\<in>set pts. pt_TimeUs p \<le> h \<longrightarrow> pt_Incidence p < bar)"
  by (induction pts) (auto simp: not_le)

lemma quantile_scan_first:
  assumes "quantile_scan bar h pts = Some t" and "sorted_wrt (<) (map pt_TimeUs pts)"
    and "p \<in> set pts" and "pt_TimeUs p < t"
  shows "pt_Incidence p < bar"
  using assms
proof (induction pts)
  case (Cons q qs)
  show ?case
  proof (cases "bar \<le> pt_Incidence q \<and> pt_TimeUs q \<le> h")
    case True
    with Cons.prems show ?thesis by auto
  next
    case False
    with Cons.prems(1) have rest: "quantile_scan bar h qs = Some t" by (simp split: if_splits)
    then obtain r where r: "r \<in> set qs" "pt_TimeUs r = t" "t \<le> h"
      using quantile_scan_Some by blast
    show ?thesis
    proof (cases "p = q")
      case True
      with Cons.prems(4) r(3) False show ?thesis by auto
    next
      case False
      with Cons.IH [OF rest] Cons.prems show ?thesis by auto
    qed
  qed
qed simp

lemma incidence_scan_at_point:
  assumes "sorted_wrt (<) (map pt_TimeUs pts)" and "p \<in> set pts"
  shows "incidence_scan (pt_TimeUs p) cif pts = pt_Incidence p"
proof -
  have inj: "q \<in> set pts \<Longrightarrow> pt_TimeUs q = pt_TimeUs p \<Longrightarrow> q = p" for q
    using assms by (metis distinct_map inj_onD strict_sorted_iff)
  from incidence_scan_cases [OF assms(1), of "pt_TimeUs p" cif] assms(2) inj show ?thesis
    by (metis order.antisym order_less_irrefl order_refl)
qed

text \<open>A curve whose times rise strictly answers a quantile with the first crossing time.\<close>

lemma quantile_first_crossing:
  assumes srt: "sorted_wrt (<) (map pt_TimeUs (curve_Points c))" and bar: "0 < bar"
    and q: "quantile_scan bar (curve_HorizonUs c) (curve_Points c) = Some t"
  shows "t \<le> curve_HorizonUs c \<and> bar \<le> incidence_at c t \<and> (\<forall>t'<t. incidence_at c t' < bar)"
proof (intro conjI allI impI)
  from quantile_scan_Some [OF q] obtain p where p: "p \<in> set (curve_Points c)" "pt_TimeUs p = t"
    "bar \<le> pt_Incidence p" "t \<le> curve_HorizonUs c" by blast
  show "t \<le> curve_HorizonUs c" by (fact p(4))
  show "bar \<le> incidence_at c t"
    using incidence_scan_at_point [OF srt p(1)] p by (simp add: incidence_at_def)
  fix t' assume "t' < t"
  with incidence_scan_cases [OF srt, of t' 0] bar show "incidence_at c t' < bar"
    unfolding incidence_at_def using quantile_scan_first [OF q srt] by fastforce
qed

lemma quantile_refused:
  assumes srt: "sorted_wrt (<) (map pt_TimeUs (curve_Points c))" and bar: "0 < bar"
    and q: "quantile_scan bar (curve_HorizonUs c) (curve_Points c) = None"
    and t: "t \<le> curve_HorizonUs c"
  shows "incidence_at c t < bar"
  using incidence_scan_cases [OF srt, of t 0] bar q t
  unfolding incidence_at_def quantile_scan_None by fastforce

lemma incidence_scan_all:
  "\<forall>p\<in>set pts. pt_TimeUs p \<le> t \<Longrightarrow> incidence_scan t cif pts = last (cif # map pt_Incidence pts)"
  by (induction pts arbitrary: cif) auto

lemma final_incidence_last: "final_incidence c = last (0 # map pt_Incidence (curve_Points c))"
  by (simp add: final_incidence_def last_map)

lemma final_incidence_exact:
  assumes "estimate_incidence (\<lambda>x. x) os h = Some c" and "os \<noteq> []"
  shows "final_incidence c = aj_cif os (Max (obs_times os))"
proof -
  have "pt_TimeUs ` set (curve_Points c) \<subseteq> obs_times os"
    using arg_cong [OF aj_loop_times [OF estimate_incidence_loop(1) [OF assms]], of set] by auto
  then have "\<forall>p\<in>set (curve_Points c). pt_TimeUs p \<le> Max (obs_times os)" by auto
  from incidence_scan_all [OF this] show ?thesis
    using incidence_at_exact [OF assms(1)] by (metis incidence_at_def final_incidence_last)
qed

section \<open>Properties\<close>

definition sample_obs :: "obs list" where
  "sample_obs = [\<lparr>TimeUs = 300, Kind = ObsCompletion\<rparr>, \<lparr>TimeUs = 100, Kind = ObsCompletion\<rparr>,
     \<lparr>TimeUs = 200, Kind = ObsError\<rparr>, \<lparr>TimeUs = 400, Kind = ObsCensored\<rparr>]"

lemma sample_obs_ok: "\<forall>x\<in>set sample_obs. obs_ok x"
  by (simp add: sample_obs_def obs_ok_def)

text \<open>
  Claim C36. In exact arithmetic \<open>EstimateIncidence\<close> returns for every list of defined
  observations, the curve read at any time \<open>t\<close> is the Aalen-Johansen cumulative incidence
  \<open>\<Sum>u\<le>t. S(u-) d(u) / n(u)\<close>, and \<open>FinalSurvival\<close> is the product-limit survival over all event
  times.
\<close>

theorem estimate_is_aalen_johansen:
  assumes "\<forall>x\<in>set os. obs_ok x"
  shows "\<exists>c. estimate_incidence (\<lambda>x. x) os h = Some c
    \<and> (\<forall>t. incidence_at c t = aj_cif os t)
    \<and> (os \<noteq> [] \<longrightarrow> curve_FinalSurvival c = (\<Prod>u\<in>obs_times os. hazard_kept os u))"
  using assms estimate_incidence_total [of "\<lambda>x. x" os h] incidence_at_exact final_survival_exact by blast

theorem estimate_is_aalen_johansen_witness:
  "\<exists>c. estimate_incidence (\<lambda>x. x) sample_obs 1000 = Some c
    \<and> (\<forall>t. incidence_at c t = aj_cif sample_obs t)
    \<and> (sample_obs \<noteq> [] \<longrightarrow> curve_FinalSurvival c = (\<Prod>u\<in>obs_times sample_obs. hazard_kept sample_obs u))"
  by (rule estimate_is_aalen_johansen [OF sample_obs_ok])



text \<open>Above one: of fifteen requests three complete first and the other twelve together, and the float64 incidence ends one
  unit in the last place above one.\<close>

definition fifteen :: "obs list" where
  "fifteen = replicate 3 \<lparr>TimeUs = 1, Kind = ObsCompletion\<rparr> @ replicate 12 \<lparr>TimeUs = 2, Kind = ObsCompletion\<rparr>"

theorem incidence_can_exceed_one:
  "\<exists>c. estimate_incidence fl fifteen 10 = Some c \<and> final_incidence c = 1 + 1 / 2 ^ 52"
proof -
  have v: "step_cif fl 1 0 3 15 = (3602879701896397 / 18014398509481984)" "step_surv fl 1 3 15 = (3602879701896397 / 4503599627370496)"
    "step_cif fl (3602879701896397 / 4503599627370496) (3602879701896397 / 18014398509481984) 12 12 = (4503599627370497 / 4503599627370496)" by code_simp+
  have srt: "obs_sort fifteen = fifteen" by code_simp
  have one: "scan_tie 1 fifteen 0 0 0 0 = Some (3, 0, 0, 3, replicate 12 \<lparr>TimeUs = 2, Kind = ObsCompletion\<rparr>)"
    "scan_tie 2 (replicate 12 \<lparr>TimeUs = 2, Kind = ObsCompletion\<rparr>) 0 0 0 0 = Some (12, 0, 0, 12, [])" by code_simp+
  have split: "fifteen = \<lparr>TimeUs = 1, Kind = ObsCompletion\<rparr> # replicate 2 \<lparr>TimeUs = 1, Kind = ObsCompletion\<rparr> @ replicate 12 \<lparr>TimeUs = 2, Kind = ObsCompletion\<rparr>"
    "replicate 12 \<lparr>TimeUs = 2, Kind = ObsCompletion\<rparr> = \<lparr>TimeUs = 2, Kind = ObsCompletion\<rparr> # replicate 11 \<lparr>TimeUs = 2, Kind = ObsCompletion\<rparr>"
    by code_simp+
  have len: "length fifteen = 15" by code_simp
  have second: "est_loop fl (replicate 12 \<lparr>TimeUs = 2, Kind = ObsCompletion\<rparr>) 12 s cif pts 0 =
      Some (pts @ step_points 2 (step_cif fl s cif 12 12) 12 12 0, 0, step_surv fl s 12 12)" for s cif pts
    unfolding split(2) by (simp add: Let_def one(2) [unfolded split(2)] del: scan_tie.simps)
  have "est_loop fl fifteen 15 1 0 [] 0 = est_loop fl (replicate 12 \<lparr>TimeUs = 2, Kind = ObsCompletion\<rparr>) 12
      (step_surv fl 1 3 15) (step_cif fl 1 0 3 15) (step_points 1 (step_cif fl 1 0 3 15) 15 3 0) 0"
    unfolding split(1) by (simp add: Let_def one(1) [unfolded split(1)] del: scan_tie.simps)
  then have "est_loop fl fifteen (length fifteen) 1 0 [] 0 =
      Some (step_points 1 (step_cif fl 1 0 3 15) 15 3 0 @ step_points 2 (4503599627370497 / 4503599627370496) 12 12 0, 0, step_surv fl (3602879701896397 / 4503599627370496) 12 12)"
    unfolding len second v by simp
  then show ?thesis
    using len by (auto simp: estimate_incidence_def srt final_incidence_def step_points_def)
qed

text \<open>
  Claim C35. \<open>sort.Slice\<close> is not stable, and the curve does not depend on it: every
  arrangement of the observations in time order gives the loop the same result, the panic on
  an undefined kind included.
\<close>

theorem estimate_sort_independent:
  assumes "mset ys = mset os" and "sorted (map TimeUs ys)"
  shows "est_loop fl ys (length ys) 1 0 [] 0 = est_loop fl (obs_sort os) (length os) 1 0 [] 0"
proof (cases "\<forall>x\<in>set os. obs_ok x")
  case True
  have m: "mset ys = mset (obs_sort os)" using assms(1) by simp
  have len: "length ys = length os" using assms(1) by (rule mset_eq_length)
  have "est_loop fl ys (length ys) 1 0 [] 0 = Some (aj_loop fl ys (sorted_list_of_set (obs_times ys)) 1 0 [] 0)"
    using True assms mset_eq_setD [OF assms(1)] by (intro est_loop_eq) simp_all
  moreover have "est_loop fl (obs_sort os) (length (obs_sort os)) 1 0 [] 0 =
      Some (aj_loop fl (obs_sort os) (sorted_list_of_set (obs_times (obs_sort os))) 1 0 [] 0)"
    using True by (intro est_loop_eq) (simp_all add: sorted_obs_sort)
  ultimately show ?thesis by (simp add: aj_loop_mset [OF m] counts_mset(3) [OF m] len)
next
  case False
  then have "\<not> (\<forall>x\<in>set ys. obs_ok x)" using mset_eq_setD [OF assms(1)] by simp
  then have "est_loop fl ys (length ys) 1 0 [] 0 = None" using est_loop_panic [OF assms(2)] by blast
  moreover have "est_loop fl (obs_sort os) (length os) 1 0 [] 0 = None"
    using False est_loop_panic [OF sorted_obs_sort] by (metis set_obs_sort)
  ultimately show ?thesis by simp
qed

theorem estimate_sort_independent_witness:
  "est_loop fl [\<lparr>TimeUs = 1, Kind = ObsError\<rparr>, \<lparr>TimeUs = 1, Kind = ObsCompletion\<rparr>] 2 1 0 [] 0
   = est_loop fl (obs_sort [\<lparr>TimeUs = 1, Kind = ObsCompletion\<rparr>, \<lparr>TimeUs = 1, Kind = ObsError\<rparr>]) 2 1 0 [] 0"
  using estimate_sort_independent [of "[\<lparr>TimeUs = 1, Kind = ObsError\<rparr>, \<lparr>TimeUs = 1, Kind = ObsCompletion\<rparr>]"
      "[\<lparr>TimeUs = 1, Kind = ObsCompletion\<rparr>, \<lparr>TimeUs = 1, Kind = ObsError\<rparr>]"]
  by (simp add: numeral_2_eq_2)

text \<open>
  Claim C36. Where no observation is censored before \<open>t\<close>, the curve at \<open>t\<close> is, in exact
  arithmetic, the plain share of all scheduled requests completed by \<open>t\<close>.
\<close>

theorem incidence_is_completed_share:
  assumes "uncensored_before os t" and "os \<noteq> []" and "estimate_incidence (\<lambda>x. x) os h = Some c"
  shows "incidence_at c t =
    of_nat (length (filter (\<lambda>x. Kind x = ObsCompletion \<and> TimeUs x \<le> t) os)) / of_nat (length os)"
  using aj_cif_uncensored [OF assms(1,2)] incidence_at_exact [OF assms(3)] by simp

theorem incidence_is_completed_share_witness:
  "\<exists>c. estimate_incidence (\<lambda>x. x) sample_obs 1000 = Some c \<and> incidence_at c 350 = 2 / 4"
proof -
  obtain c where c: "estimate_incidence (\<lambda>x. x) sample_obs 1000 = Some c"
    using estimate_incidence_total sample_obs_ok by blast
  have "uncensored_before sample_obs 350" and "sample_obs \<noteq> []"
    by (simp_all add: uncensored_before_def sample_obs_def obs_ok_def)
  from incidence_is_completed_share [OF this c] c show ?thesis by (simp add: sample_obs_def)
qed

text \<open>
  Claim C33. In exact arithmetic completions, errors and the event-free rest add up to one, so
  the ceiling (final incidence plus final survival) is at most one; it is one exactly when the
  errors carry no incidence, and a quantile above the ceiling can never be reached.
\<close>

theorem ceiling_bounds_incidence:
  assumes "os \<noteq> []" and "estimate_incidence (\<lambda>x. x) os h = Some c"
  shows "ceiling_of (\<lambda>x. x) c = 1 - aj_err os (Max (obs_times os))
    \<and> ceiling_of (\<lambda>x. x) c \<le> 1 \<and> (\<forall>t. incidence_at c t \<le> ceiling_of (\<lambda>x. x) c)"
proof -
  let ?M = "Max (obs_times os)" and ?pts = "curve_Points c"
  have "{u \<in> obs_times os. u \<le> ?M} = obs_times os" by auto
  then have surv: "curve_FinalSurvival c = surv_after os ?M"
    by (simp add: final_survival_exact [OF assms(2,1)] surv_after_def)
  have eq: "ceiling_of (\<lambda>x. x) c = 1 - aj_err os ?M"
    using aj_conservation [of os ?M] by (simp add: ceiling_of_def surv final_incidence_exact [OF assms(2,1)])
  have mono: "sorted (0 # map pt_Incidence ?pts)" by (rule exact.curve_mono(1) [OF assms(2)])
  have le_final: "incidence_at c t \<le> final_incidence c" for t
    using incidence_scan_cases [OF curve_times_strict [OF assms(2)], of t 0] sorted_le_last [OF mono]
    unfolding incidence_at_def final_incidence_last by auto
  have "0 \<le> curve_FinalSurvival c" by (rule exact.curve_mono(2) [OF assms(2)])
  with le_final have "incidence_at c t \<le> ceiling_of (\<lambda>x. x) c" for t
    unfolding ceiling_of_def by (metis add_increasing2)
  with eq aj_err_nonneg [of os ?M] show ?thesis by simp
qed

theorem ceiling_bounds_incidence_witness:
  "\<exists>c. estimate_incidence (\<lambda>x. x) sample_obs 1000 = Some c
     \<and> ceiling_of (\<lambda>x. x) c = 1 - aj_err sample_obs (Max (obs_times sample_obs))"
proof -
  obtain c where c: "estimate_incidence (\<lambda>x. x) sample_obs 1000 = Some c"
    using estimate_incidence_total sample_obs_ok by blast
  have "sample_obs \<noteq> []" by (simp add: sample_obs_def)
  from ceiling_bounds_incidence [OF this c] c show ?thesis by blast
qed

text \<open>
  Claim C38. On a curve the program built in float64, \<open>Quantile(q)\<close> returns the smallest time
  whose incidence reaches the bar \<open>q - eps\<close>, inside the horizon; when it refuses, the curve
  stays below the bar everywhere inside the horizon, so nothing is extrapolated.
\<close>

theorem quantile_first_time:
  assumes "estimate_incidence fl os h = Some c" and "0 < q" and "q \<le> 1"
    and "0 < fl (q - fl (1 / 10 ^ 9))"
  shows "(\<exists>t. quantile fl c q = Some (Some t) \<and> t \<le> h \<and> fl (q - fl (1 / 10 ^ 9)) \<le> incidence_at c t
            \<and> (\<forall>t'<t. incidence_at c t' < fl (q - fl (1 / 10 ^ 9))))
       \<or> (quantile fl c q = Some None \<and> (\<forall>t\<le>h. incidence_at c t < fl (q - fl (1 / 10 ^ 9))))"
proof -
  note srt = curve_times_strict [OF assms(1)]
  have h: "curve_HorizonUs c = h"
    using assms(1) estimate_incidence_loop(3) by (cases "os = []") (auto simp: estimate_incidence_def)
  show ?thesis
    using quantile_first_crossing [OF srt assms(4)] quantile_refused [OF srt assms(4)] assms(2,3)
    by (cases "quantile_scan (fl (q - fl (1 / 10 ^ 9))) (curve_HorizonUs c) (curve_Points c)")
      (auto simp: quantile_def h)
qed

theorem quantile_first_time_witness:
  "\<exists>c. estimate_incidence fl sample_obs 1000 = Some c \<and> 0 < fl (1 / 2 - fl (1 / 10 ^ 9)) \<and>
     ((\<exists>t. quantile fl c (1 / 2) = Some (Some t) \<and> t \<le> 1000 \<and> fl (1 / 2 - fl (1 / 10 ^ 9)) \<le> incidence_at c t
            \<and> (\<forall>t'<t. incidence_at c t' < fl (1 / 2 - fl (1 / 10 ^ 9))))
       \<or> (quantile fl c (1 / 2) = Some None \<and> (\<forall>t\<le>1000. incidence_at c t < fl (1 / 2 - fl (1 / 10 ^ 9)))))"
proof -
  obtain c where c: "estimate_incidence fl sample_obs 1000 = Some c"
    using estimate_incidence_total sample_obs_ok by blast
  have bar: "0 < fl (1 / 2 - fl (1 / 10 ^ 9))" by code_simp
  show ?thesis using quantile_first_time [OF c _ _ bar] bar c by auto
qed

end
