(* ===== verification/Client.thy ===== *)
theory Client
  imports Float64
begin

text \<open>
  The client's request record and the run-failing validity gates of
  \<^verbatim>\<open>internal/loadgen/loadgen.go\<close> (\<open>Request\<close>, \<open>Outcome\<close>) and
  \<^verbatim>\<open>internal/loadgen/gates.go\<close> (\<open>evaluateGates\<close>). The record holds the fields the analysis reads;
  the response evidence fields (headers, frames, usage and error text) are not read by it. Times are
  nanosecond offsets from the run epoch, modelled as integers: a run is far shorter than \<open>2 ^ 63\<close> ns.
\<close>

section \<open>Requests\<close>

datatype outcome = OutcomeCompleted | OutcomeErrored | OutcomeCensored | OutcomeOther string

record request =
  r_Index :: int
  r_IntendedNs :: int
  r_DispatchNs :: int
  r_FirstTokNs :: int
  r_DoneNs :: int
  r_Outcome :: outcome
  r_ErrClass :: string
  r_Tokens :: int
  r_CompletionTokens :: int
  r_UsageSeen :: bool
  r_Replica :: string
  r_ITLsUs :: "int list"

definition TTFTNs :: "request \<Rightarrow> int" where
  "TTFTNs r = r_FirstTokNs r - r_IntendedNs r"

definition E2ENs :: "request \<Rightarrow> int" where
  "E2ENs r = r_DoneNs r - r_IntendedNs r"

section \<open>The client-validity gates\<close>

record client_validity =
  cv_SendSkewP99Ms :: int
  cv_SendSkewMaxMs :: int
  cv_MaxCPUPct :: int
  cv_CPUWindowS :: int
  cv_GoGCPauseP99Ms :: int

record cpu_sample =
  cpu_atNs :: int
  cpu_pct :: rat

text \<open>The upper edge of the garbage collector's p99 bucket: a finite float64, or \<open>+Inf\<close>.\<close>

datatype edge = Finite rat | PosInf

record gate_report =
  g_SendSkewP99Us :: int
  g_SendSkewMaxUs :: int
  g_SendSkewPass :: bool
  g_Undispatched :: nat
  g_UndispatchedPass :: bool
  g_CPUMeasured :: bool
  g_CPUPeakPct :: rat
  g_CPUWorstWindowPct :: rat
  g_CPUPass :: bool
  g_GCPauseP99LoMs :: rat
  g_GCPauseP99Ms :: rat
  g_GCPauseOpen :: bool
  g_GCPass :: bool
  g_Pass :: bool

text \<open>The skews of the dispatched requests intended in the span, and the undispatched count.\<close>

definition send_skews :: "request list \<Rightarrow> int \<Rightarrow> int \<Rightarrow> int list" where
  "send_skews rs t0 t1 =
     map (\<lambda>r. r_DispatchNs r - r_IntendedNs r)
       (filter (\<lambda>r. r_DispatchNs r \<noteq> 0 \<and> t0 \<le> r_IntendedNs r \<and> r_IntendedNs r < t1) rs)"

definition undispatched :: "request list \<Rightarrow> nat" where
  "undispatched rs = length (filter (\<lambda>r. r_DispatchNs r = 0) rs)"

text \<open>The p99 (ceiling rank) and the maximum of the skews, zero when there are none; \<open>None\<close> is an
  index out of range.\<close>

definition skew_tail :: "int list \<Rightarrow> (int \<times> int) option" where
  "skew_tail skews =
     (let s = sort skews; n = int (length s)
      in if n = 0 then Some (0, 0)
         else case (go_nth s ((n * 99 + 99) div 100 - 1), go_nth s (n - 1)) of
           (Some p, Some m) \<Rightarrow> Some (p, m) | _ \<Rightarrow> None)"

definition in_span :: "cpu_sample list \<Rightarrow> int \<Rightarrow> int \<Rightarrow> rat list" where
  "in_span samples t0 t1 = map cpu_pct (filter (\<lambda>s. t0 \<le> cpu_atNs s \<and> cpu_atNs s < t1) samples)"

text \<open>The mean of one window of \<open>win\<close> samples, summed in float64 from the left.\<close>

definition window_mean :: "(rat \<Rightarrow> rat) \<Rightarrow> nat \<Rightarrow> rat list \<Rightarrow> rat" where
  "window_mean rnd win xs = rnd (foldl (\<lambda>s p. rnd (s + p)) 0 (take win xs) / rnd (of_nat win))"

fun window_means :: "(rat \<Rightarrow> rat) \<Rightarrow> nat \<Rightarrow> rat list \<Rightarrow> rat list" where
  "window_means rnd win [] = []"
| "window_means rnd win (x # xs) =
     (if win \<le> length (x # xs) then window_mean rnd win (x # xs) # window_means rnd win xs else [])"

definition raise_to :: "rat \<Rightarrow> rat \<Rightarrow> rat" where
  "raise_to m x = (if m < x then x else m)"

text \<open>A CPU window below one second would divide by zero or slice backwards; the configuration pins
  five.\<close>

definition evaluateGates :: "(rat \<Rightarrow> rat) \<Rightarrow> client_validity \<Rightarrow> request list \<Rightarrow> cpu_sample list \<Rightarrow> rat \<Rightarrow> edge
    \<Rightarrow> int \<Rightarrow> int \<Rightarrow> gate_report option" where
  "evaluateGates rnd v rs samples gcLo gcHi t0 t1 =
     (if cv_CPUWindowS v < 1 then None
      else case skew_tail (send_skews rs t0 t1) of
        None \<Rightarrow> None
      | Some (p99, mx) \<Rightarrow>
          let win = nat (cv_CPUWindowS v);
              xs = in_span samples t0 t1;
              means = window_means rnd win xs;
              measured = win \<le> length xs;
              skewPass = p99 \<le> cv_SendSkewP99Ms v * 1000000 \<and> mx \<le> cv_SendSkewMaxMs v * 1000000;
              cpuPass = measured \<and> (\<forall>m\<in>set means. m \<le> rnd (of_int (cv_MaxCPUPct v)));
              gcOpen = (gcHi = PosInf);
              gcPass = (case gcHi of PosInf \<Rightarrow> False | Finite x \<Rightarrow> x < rnd (of_int (cv_GoGCPauseP99Ms v)))
          in Some
            \<lparr>g_SendSkewP99Us = go_div p99 1000, g_SendSkewMaxUs = go_div mx 1000, g_SendSkewPass = skewPass,
             g_Undispatched = undispatched rs, g_UndispatchedPass = (undispatched rs = 0),
             g_CPUMeasured = measured, g_CPUPeakPct = foldl raise_to 0 xs,
             g_CPUWorstWindowPct = foldl raise_to 0 means, g_CPUPass = cpuPass,
             g_GCPauseP99LoMs = gcLo, g_GCPauseP99Ms = (case gcHi of PosInf \<Rightarrow> 0 | Finite x \<Rightarrow> x),
             g_GCPauseOpen = gcOpen, g_GCPass = gcPass,
             g_Pass = (skewPass \<and> undispatched rs = 0 \<and> cpuPass \<and> gcPass)\<rparr>)"

text \<open>\<open>SyntheticGateCheck\<close>: the pinned thresholds on one dispatched and one undispatched request.\<close>

definition zero_request :: request where
  "zero_request = \<lparr>r_Index = 0, r_IntendedNs = 0, r_DispatchNs = 0, r_FirstTokNs = 0, r_DoneNs = 0,
     r_Outcome = OutcomeOther [], r_ErrClass = [], r_Tokens = 0, r_CompletionTokens = 0, r_UsageSeen = False,
     r_Replica = [], r_ITLsUs = []\<rparr>"

definition pinned_validity :: client_validity where
  "pinned_validity = \<lparr>cv_SendSkewP99Ms = 5, cv_SendSkewMaxMs = 50, cv_MaxCPUPct = 70, cv_CPUWindowS = 5,
     cv_GoGCPauseP99Ms = 1\<rparr>"

definition SyntheticGateCheck :: "(rat \<Rightarrow> rat) \<Rightarrow> gate_report option" where
  "SyntheticGateCheck rnd = evaluateGates rnd pinned_validity
     [zero_request\<lparr>r_Index := 0, r_IntendedNs := 1000000000, r_DispatchNs := 1000100000\<rparr>,
      zero_request\<lparr>r_Index := 1, r_IntendedNs := 2000000000\<rparr>] [] 0 (Finite 0) 0 10000000000"

section \<open>The gates' order statistics\<close>

lemma skew_tail_spec:
  assumes "skews \<noteq> []"
  obtains p m where "skew_tail skews = Some (p, m)"
    and "\<And>L. p \<le> L \<longleftrightarrow> 99 * length skews \<le> 100 * length (filter (\<lambda>x. x \<le> L) skews)"
    and "\<And>L. m \<le> L \<longleftrightarrow> (\<forall>x\<in>set skews. x \<le> L)"
proof -
  obtain p where p: "go_nth (sort skews) ((int (length skews) * int 99 + 99) div 100 - 1) = Some p"
    and p_le: "\<And>L. p \<le> L \<longleftrightarrow> 99 * length skews \<le> 100 * length (filter (\<lambda>x. x \<le> L) skews)"
    using ceil_order_stat [OF assms, of 99] by auto
  obtain m where m: "go_nth (sort skews) (int (length skews) - 1) = Some m"
    and m_le: "\<And>L. m \<le> L \<longleftrightarrow> (\<forall>x\<in>set skews. x \<le> L)" using max_order_stat [OF assms] by blast
  have "sort skews \<noteq> []" using assms by (metis length_0_conv length_sort)
  with p m have "skew_tail skews = Some (p, m)" by (simp add: skew_tail_def Let_def)
  from that [OF this p_le m_le] show thesis .
qed

lemma window_means_set:
  "0 < win \<Longrightarrow> (\<forall>m\<in>set (window_means rnd win xs). P m) \<longleftrightarrow>
     (\<forall>i. i + win \<le> length xs \<longrightarrow> P (window_mean rnd win (drop i xs)))"
proof (induction rnd win xs rule: window_means.induct)
  case (2 rnd win x xs)
  have split: "(\<forall>i. Q i) \<longleftrightarrow> Q 0 \<and> (\<forall>i. Q (Suc i))" for Q by (metis not0_implies_Suc)
  show ?case
  proof (cases "win \<le> length (x # xs)")
    case True
    have "(\<forall>i. i + win \<le> length (x # xs) \<longrightarrow> P (window_mean rnd win (drop i (x # xs)))) \<longleftrightarrow>
        P (window_mean rnd win (x # xs)) \<and> (\<forall>i. i + win \<le> length xs \<longrightarrow> P (window_mean rnd win (drop i xs)))"
      using split [of "\<lambda>i. i + win \<le> length (x # xs) \<longrightarrow> P (window_mean rnd win (drop i (x # xs)))"] True by simp
    with True "2.IH" [OF True "2.prems"] show ?thesis by simp
  next
    case False
    then show ?thesis by auto
  qed
qed simp

section \<open>Properties\<close>

text \<open>Claim C37. The client-validity gate always yields a verdict, and it passes exactly when every
  request was dispatched, at least 99 percent of the send skews in the span are within the p99 bound
  and all within the maximum, at least one full CPU window was sampled and the mean of every window of
  consecutive samples is within the bound, and the garbage collector's p99 bucket has a finite upper
  edge below its bound.\<close>

theorem gate_passes_iff:
  fixes rs :: "request list" and samples :: "cpu_sample list" and t0 t1 :: int
  assumes "1 \<le> cv_CPUWindowS v" and "0 \<le> cv_SendSkewP99Ms v" and "0 \<le> cv_SendSkewMaxMs v"
  defines "skews \<equiv> send_skews rs t0 t1" and "xs \<equiv> in_span samples t0 t1" and "win \<equiv> nat (cv_CPUWindowS v)"
  shows "\<exists>g. evaluateGates rnd v rs samples gcLo gcHi t0 t1 = Some g \<and>
    (g_Pass g \<longleftrightarrow> (\<forall>r\<in>set rs. r_DispatchNs r \<noteq> 0)
      \<and> 99 * length skews \<le> 100 * length (filter (\<lambda>s. s \<le> cv_SendSkewP99Ms v * 1000000) skews)
      \<and> (\<forall>s\<in>set skews. s \<le> cv_SendSkewMaxMs v * 1000000)
      \<and> win \<le> length xs
      \<and> (\<forall>i. i + win \<le> length xs \<longrightarrow> window_mean rnd win (drop i xs) \<le> rnd (of_int (cv_MaxCPUPct v)))
      \<and> (\<exists>x. gcHi = Finite x \<and> x < rnd (of_int (cv_GoGCPauseP99Ms v))))"
proof -
  have win: "0 < win" using assms(1) by (simp add: win_def)
  obtain p m where tail: "skew_tail skews = Some (p, m)"
    and p: "p \<le> cv_SendSkewP99Ms v * 1000000 \<longleftrightarrow> 99 * length skews \<le> 100 * length (filter (\<lambda>s. s \<le> cv_SendSkewP99Ms v * 1000000) skews)"
    and m: "m \<le> cv_SendSkewMaxMs v * 1000000 \<longleftrightarrow> (\<forall>s\<in>set skews. s \<le> cv_SendSkewMaxMs v * 1000000)"
  proof (cases "skews = []")
    case True
    then have "skew_tail skews = Some (0, 0)" by (simp add: skew_tail_def)
    with that [OF this] True assms(2,3) show thesis by simp
  next
    case False
    obtain p m where "skew_tail skews = Some (p, m)"
      and "\<And>L. p \<le> L \<longleftrightarrow> 99 * length skews \<le> 100 * length (filter (\<lambda>x. x \<le> L) skews)"
      and "\<And>L. m \<le> L \<longleftrightarrow> (\<forall>x\<in>set skews. x \<le> L)" using skew_tail_spec [OF False] by blast
    then show thesis by (intro that)
  qed
  have und: "undispatched rs = 0 \<longleftrightarrow> (\<forall>r\<in>set rs. r_DispatchNs r \<noteq> 0)"
    by (auto simp: undispatched_def filter_empty_conv)
  have gc: "(case gcHi of PosInf \<Rightarrow> False | Finite x \<Rightarrow> x < rnd (of_int (cv_GoGCPauseP99Ms v))) \<longleftrightarrow>
      (\<exists>x. gcHi = Finite x \<and> x < rnd (of_int (cv_GoGCPauseP99Ms v)))" by (cases gcHi) auto
  obtain g where g: "evaluateGates rnd v rs samples gcLo gcHi t0 t1 = Some g"
    and pass: "g_Pass g = ((p \<le> cv_SendSkewP99Ms v * 1000000 \<and> m \<le> cv_SendSkewMaxMs v * 1000000) \<and> undispatched rs = 0
        \<and> (win \<le> length xs \<and> (\<forall>m\<in>set (window_means rnd win xs). m \<le> rnd (of_int (cv_MaxCPUPct v))))
        \<and> (case gcHi of PosInf \<Rightarrow> False | Finite x \<Rightarrow> x < rnd (of_int (cv_GoGCPauseP99Ms v))))"
  proof
    have "\<not> cv_CPUWindowS v < 1" using assms(1) by simp
    then show "evaluateGates rnd v rs samples gcLo gcHi t0 t1 = Some (the (evaluateGates rnd v rs samples gcLo gcHi t0 t1))"
      unfolding evaluateGates_def tail [unfolded skews_def] Let_def by (simp only: if_False option.case prod.case option.sel)
    show "g_Pass (the (evaluateGates rnd v rs samples gcLo gcHi t0 t1)) = ((p \<le> cv_SendSkewP99Ms v * 1000000 \<and> m \<le> cv_SendSkewMaxMs v * 1000000) \<and> undispatched rs = 0
        \<and> (win \<le> length xs \<and> (\<forall>m\<in>set (window_means rnd win xs). m \<le> rnd (of_int (cv_MaxCPUPct v))))
        \<and> (case gcHi of PosInf \<Rightarrow> False | Finite x \<Rightarrow> x < rnd (of_int (cv_GoGCPauseP99Ms v))))"
      using \<open>\<not> cv_CPUWindowS v < 1\<close> unfolding evaluateGates_def tail [unfolded skews_def] Let_def xs_def win_def
      by (simp only: if_False option.case prod.case option.sel gate_report.simps)
  qed
  show ?thesis by (rule exI [of _ g]) (simp only: g pass und gc p m window_means_set [OF win] conj_ac simp_thms)
qed

theorem gate_passes_iff_witness:
  "\<exists>g. evaluateGates fl pinned_validity [zero_request\<lparr>r_IntendedNs := 1, r_DispatchNs := 2\<rparr>] [] 0 PosInf 0 10 = Some g
     \<and> \<not> g_Pass g"
  using gate_passes_iff [of pinned_validity fl "[zero_request\<lparr>r_IntendedNs := 1, r_DispatchNs := 2\<rparr>]" "[]" 0 PosInf 0 10]
  by (auto simp: pinned_validity_def)

text \<open>The synthetic gate check, whose second request is never dispatched, fails the gate in
  float64 arithmetic: an undispatched request is not lost.\<close>

theorem synthetic_gate_check_fails:
  "\<exists>g. SyntheticGateCheck fl = Some g \<and> g_Undispatched g = 1 \<and> g_SendSkewPass g \<and> \<not> g_UndispatchedPass g \<and> \<not> g_Pass g"
proof -
  have "case SyntheticGateCheck fl of None \<Rightarrow> False
      | Some g \<Rightarrow> g_Undispatched g = 1 \<and> g_SendSkewPass g \<and> \<not> g_UndispatchedPass g \<and> \<not> g_Pass g" by code_simp
  then show ?thesis by (auto split: option.splits)
qed

end
