(* ===== verification/Collector.thy ===== *)
theory Collector
  imports Client Incidence
begin

text \<open>
  The metrics collector of \<^verbatim>\<open>internal/collect/collect.go\<close>: per-window statistics over the client's
  request records, the fire anchor and guard window, and the in-flight loss accounting.

  The histogram of \<^verbatim>\<open>internal/histo\<close> wraps a third-party package: \<open>hist\<close> gives whether a value can
  be recorded and the snapshot of the recorded values. \<open>rnd\<close> rounds a float64 operation and
  \<open>sqrt64\<close> is \<^verbatim>\<open>math.Sqrt\<close>. Latencies and counts are integers below the width of \<open>int64\<close>.
\<close>

section \<open>Configuration and windows\<close>

record slo_config =
  slo_TTFTMs :: int
  slo_E2EMs :: int
  slo_SweepTTFTMs :: "int list"
  slo_SweepE2EMs :: "int list"

record collect_config =
  cc_SLO :: slo_config
  cc_HTTPTimeoutS :: int

record window =
  w_Name :: string
  w_StartNs :: int
  w_EndNs :: int
  w_Replica :: string

record hist_summary =
  h_Count :: int
  h_P50Us :: int
  h_P95Us :: int
  h_P99Us :: int
  h_P999Us :: int
  h_MaxUs :: int

record hist =
  hist_ok :: "int \<Rightarrow> bool"
  hist_summarize :: "int list \<Rightarrow> hist_summary"

definition FireAnchorNs :: "int \<Rightarrow> int \<Rightarrow> int" where
  "FireAnchorNs tInjectNs actualFireNs =
     (if actualFireNs \<noteq> 0 \<and> actualFireNs < tInjectNs then actualFireNs else tInjectNs)"

definition GuardStartNs :: "collect_config \<Rightarrow> int \<Rightarrow> int \<Rightarrow> int" where
  "GuardStartNs cfg fireAnchorNs measureStartNs =
     (let start = fireAnchorNs - cc_HTTPTimeoutS cfg * 1000000000
      in if start < measureStartNs then measureStartNs else start)"

section \<open>Order statistics\<close>

record count_summary =
  cs_N :: nat
  cs_Mean :: rat
  cs_P50 :: int
  cs_P95 :: int
  cs_Max :: int

text \<open>\<open>None\<close> is an index out of range.\<close>

definition summarizeCounts :: "(rat \<Rightarrow> rat) \<Rightarrow> int list \<Rightarrow> count_summary option" where
  "summarizeCounts rnd xs =
     (let n = length xs; s = sort xs
      in if n = 0 then Some \<lparr>cs_N = 0, cs_Mean = 0, cs_P50 = 0, cs_P95 = 0, cs_Max = 0\<rparr>
         else case (go_nth s ((int n * 50 + 99) div 100 - 1), go_nth s ((int n * 95 + 99) div 100 - 1),
                    go_nth s (int n - 1)) of
           (Some p50, Some p95, Some mx) \<Rightarrow>
             Some \<lparr>cs_N = n, cs_Mean = rnd (rnd (of_int (sum_list s)) / rnd (of_nat n)), cs_P50 = p50, cs_P95 = p95, cs_Max = mx\<rparr>
         | _ \<Rightarrow> None)"

record order_stat_ci =
  ci_LoUs :: int
  ci_HiUs :: int
  ci_Permitted :: bool

text \<open>\<open>OrderStatRanks\<close>: \<open>q\<close> is a float64; the constant \<open>z\<close> is 1.959964.\<close>

definition OrderStatRanks :: "(rat \<Rightarrow> rat) \<Rightarrow> (rat \<Rightarrow> rat) \<Rightarrow> int \<Rightarrow> rat \<Rightarrow> int \<times> int \<times> bool" where
  "OrderStatRanks rnd sqrt64 n q =
     (let fn = rnd (of_int n);
          mean = rnd (fn * q);
          half = rnd (rnd (1959964 / 1000000) * sqrt64 (rnd (rnd (fn * q) * rnd (1 - q))));
          lo = \<lfloor>rnd (mean - half)\<rfloor>;
          hi = \<lceil>rnd (mean + half)\<rceil>
      in (lo, hi, 1 \<le> lo \<and> hi \<le> n))"

text \<open>\<open>None\<close> inside is the absent interval of an empty sample, outside an index out of range.\<close>

definition orderStatCI :: "(rat \<Rightarrow> rat) \<Rightarrow> (rat \<Rightarrow> rat) \<Rightarrow> int list \<Rightarrow> rat \<Rightarrow> order_stat_ci option option" where
  "orderStatCI rnd sqrt64 xs q =
     (if xs = [] then Some None
      else case OrderStatRanks rnd sqrt64 (int (length xs)) q of
        (lo, hi, ok) \<Rightarrow>
          if \<not> ok then Some (Some \<lparr>ci_LoUs = 0, ci_HiUs = 0, ci_Permitted = False\<rparr>)
          else case (go_nth xs (lo - 1), go_nth xs (hi - 1)) of
            (Some l, Some h) \<Rightarrow> Some (Some \<lparr>ci_LoUs = l, ci_HiUs = h, ci_Permitted = True\<rparr>)
          | _ \<Rightarrow> None)"

definition tailCIs :: "(rat \<Rightarrow> rat) \<Rightarrow> (rat \<Rightarrow> rat) \<Rightarrow> int list \<Rightarrow> (order_stat_ci option \<times> order_stat_ci option) option" where
  "tailCIs rnd sqrt64 raw =
     (let s = sort raw
      in case (orderStatCI rnd sqrt64 s (rnd (95 / 100)), orderStatCI rnd sqrt64 s (rnd (99 / 100))) of
           (Some p95, Some p99) \<Rightarrow> Some (p95, p99) | _ \<Rightarrow> None)"

section \<open>Collecting one window\<close>

record token_check =
  tc_Sampled :: nat
  tc_Matched :: nat

record collect_stats =
  st_Window :: window
  st_Scheduled :: nat
  st_Completed :: nat
  st_Errored :: nat
  st_Censored :: nat
  st_ErrClasses :: "(string \<times> nat) list"
  st_ErrorRate :: rat
  st_CensoredRate :: rat
  st_TTFTConditional :: hist_summary
  st_E2EConditional :: hist_summary
  st_ITLPooled :: hist_summary
  st_ContentEvents :: count_summary
  st_CompletionTokens :: count_summary
  st_TokenCheck :: token_check
  st_Incidence :: incidence_curve
  st_ConditionalCaveat :: bool
  st_ThroughputRPS :: rat
  st_GoodputRPS :: rat
  st_GoodputFrac :: rat
  st_GoodputSweep :: "(int \<times> int \<times> rat) list"
  st_TTFTTailCI :: "order_stat_ci option \<times> order_stat_ci option"
  st_E2ETailCI :: "order_stat_ci option \<times> order_stat_ci option"
  st_RawTTFTUs :: "int list"
  st_RawE2EUs :: "int list"

datatype collect_error = ETTFT int | EE2E int | EITL int | ENoOutcome int string | EPanic

definition meetsSLO :: "collect_config \<Rightarrow> request \<Rightarrow> bool" where
  "meetsSLO cfg r \<longleftrightarrow> r_Outcome r = OutcomeCompleted
     \<and> TTFTNs r \<le> slo_TTFTMs (cc_SLO cfg) * 1000000 \<and> E2ENs r \<le> slo_E2EMs (cc_SLO cfg) * 1000000"

definition in_window :: "window \<Rightarrow> request \<Rightarrow> bool" where
  "in_window w r \<longleftrightarrow> w_StartNs w \<le> r_IntendedNs r \<and> r_IntendedNs r < w_EndNs w
     \<and> (w_Replica w = [] \<or> r_Replica r = w_Replica w)"

text \<open>The state of \<open>Collect\<close>'s loop: the counters, the recorded histogram values, the
  observations and the goodput of each sweep cell.\<close>

record collect_acc =
  k_Scheduled :: nat
  k_Completed :: nat
  k_Errored :: nat
  k_Censored :: nat
  k_ErrClasses :: "(string \<times> nat) list"
  k_ttft :: "int list"
  k_e2e :: "int list"
  k_itl :: "int list"
  k_events :: "int list"
  k_tokens :: "int list"
  k_Sampled :: nat
  k_Matched :: nat
  k_obs :: "obs list"
  k_goodput :: nat
  k_sweep :: "nat list"

definition sweep_grid :: "collect_config \<Rightarrow> (int \<times> int) list" where
  "sweep_grid cfg = List.product (slo_SweepTTFTMs (cc_SLO cfg)) (slo_SweepE2EMs (cc_SLO cfg))"

definition zero_acc :: "collect_config \<Rightarrow> collect_acc" where
  "zero_acc cfg = \<lparr>k_Scheduled = 0, k_Completed = 0, k_Errored = 0, k_Censored = 0, k_ErrClasses = [],
     k_ttft = [], k_e2e = [], k_itl = [], k_events = [], k_tokens = [], k_Sampled = 0, k_Matched = 0,
     k_obs = [], k_goodput = 0, k_sweep = replicate (length (sweep_grid cfg)) 0\<rparr>"

text \<open>\<open>m[k]++\<close> on a map of counters.\<close>

fun count_up :: "string \<Rightarrow> (string \<times> nat) list \<Rightarrow> (string \<times> nat) list" where
  "count_up k [] = [(k, 1)]"
| "count_up k ((k', n) # m) = (if k' = k then (k', Suc n) # m else (k', n) # count_up k m)"

definition meets_cell :: "request \<Rightarrow> int \<times> int \<Rightarrow> bool" where
  "meets_cell r te \<longleftrightarrow> TTFTNs r \<le> fst te * 1000000 \<and> E2ENs r \<le> snd te * 1000000"

text \<open>One completed request. An inter-token gap below one microsecond is recorded as one.\<close>

definition add_completed :: "hist \<Rightarrow> collect_config \<Rightarrow> request \<Rightarrow> collect_acc \<Rightarrow> collect_error + collect_acc" where
  "add_completed h cfg r a =
     (let ttft = go_div (TTFTNs r) 1000; e2e = go_div (E2ENs r) 1000;
          itls = map (\<lambda>g. if g < 1 then 1 else g) (r_ITLsUs r)
      in if \<not> hist_ok h ttft then Inl (ETTFT ttft)
         else if \<not> hist_ok h e2e then Inl (EE2E e2e)
         else if \<not> list_all (hist_ok h) itls then Inl (EITL (hd (filter (\<lambda>g. \<not> hist_ok h g) itls)))
         else Inr (a\<lparr>k_Completed := Suc (k_Completed a), k_ttft := k_ttft a @ [ttft], k_e2e := k_e2e a @ [e2e],
               k_itl := k_itl a @ itls, k_obs := k_obs a @ [\<lparr>TimeUs = e2e, Kind = ObsCompletion\<rparr>],
               k_goodput := k_goodput a + (if meetsSLO cfg r then 1 else 0),
               k_events := k_events a @ [r_Tokens r],
               k_tokens := k_tokens a @ (if r_UsageSeen r then [r_CompletionTokens r] else []),
               k_Sampled := k_Sampled a + (if r_UsageSeen r then 1 else 0),
               k_Matched := k_Matched a + (if r_UsageSeen r \<and> r_CompletionTokens r = r_Tokens r then 1 else 0),
               k_sweep := map2 (\<lambda>te n. if meets_cell r te then Suc n else n) (sweep_grid cfg) (k_sweep a)\<rparr>))"

definition add_request :: "hist \<Rightarrow> collect_config \<Rightarrow> request \<Rightarrow> collect_acc \<Rightarrow> collect_error + collect_acc" where
  "add_request h cfg r a =
     (let a1 = a\<lparr>k_Scheduled := Suc (k_Scheduled a)\<rparr>; obsUs = go_div (r_DoneNs r - r_IntendedNs r) 1000
      in case r_Outcome r of
           OutcomeCompleted \<Rightarrow> add_completed h cfg r a1
         | OutcomeErrored \<Rightarrow> Inr (a1\<lparr>k_Errored := Suc (k_Errored a1), k_ErrClasses := count_up (r_ErrClass r) (k_ErrClasses a1),
                                     k_obs := k_obs a1 @ [\<lparr>TimeUs = obsUs, Kind = ObsError\<rparr>]\<rparr>)
         | OutcomeCensored \<Rightarrow> Inr (a1\<lparr>k_Censored := Suc (k_Censored a1),
                                      k_obs := k_obs a1 @ [\<lparr>TimeUs = obsUs, Kind = ObsCensored\<rparr>]\<rparr>)
         | OutcomeOther s \<Rightarrow> Inl (ENoOutcome (r_Index r) s))"

fun collect_loop :: "hist \<Rightarrow> collect_config \<Rightarrow> window \<Rightarrow> request list \<Rightarrow> collect_acc \<Rightarrow> collect_error + collect_acc" where
  "collect_loop h cfg w [] a = Inr a"
| "collect_loop h cfg w (r # rs) a =
     (if \<not> in_window w r then collect_loop h cfg w rs a
      else case add_request h cfg r a of
        Inl e \<Rightarrow> Inl e
      | Inr a' \<Rightarrow> collect_loop h cfg w rs a')"

definition share :: "(rat \<Rightarrow> rat) \<Rightarrow> nat \<Rightarrow> nat \<Rightarrow> rat" where
  "share rnd k n = (if 0 < n then rnd (rnd (of_nat k) / rnd (of_nat n)) else 0)"

text \<open>The window's length in seconds; a rate is filled in only when it is positive.\<close>

definition per_second :: "(rat \<Rightarrow> rat) \<Rightarrow> window \<Rightarrow> nat \<Rightarrow> rat" where
  "per_second rnd w k =
     (let durS = rnd (rnd (of_int (w_EndNs w - w_StartNs w)) / 1000000000)
      in if 0 < durS then rnd (rnd (of_nat k) / durS) else 0)"

definition Collect_stats :: "(rat \<Rightarrow> rat) \<Rightarrow> (rat \<Rightarrow> rat) \<Rightarrow> hist \<Rightarrow> collect_config \<Rightarrow> request list \<Rightarrow> window
    \<Rightarrow> collect_error + collect_stats" where
  "Collect_stats rnd sqrt64 h cfg rs w =
     (case collect_loop h cfg w rs (zero_acc cfg) of
        Inl e \<Rightarrow> Inl e
      | Inr a \<Rightarrow>
          (case (summarizeCounts rnd (k_events a), summarizeCounts rnd (k_tokens a),
                 estimate_incidence rnd (k_obs a) (cc_HTTPTimeoutS cfg * 1000000),
                 tailCIs rnd sqrt64 (k_ttft a), tailCIs rnd sqrt64 (k_e2e a)) of
             (Some ev, Some tk, Some curve, Some ci1, Some ci2) \<Rightarrow>
               let n = k_Scheduled a; er = share rnd (k_Errored a) n; cr = share rnd (k_Censored a) n
               in Inr \<lparr>st_Window = w, st_Scheduled = n, st_Completed = k_Completed a, st_Errored = k_Errored a,
                    st_Censored = k_Censored a, st_ErrClasses = k_ErrClasses a, st_ErrorRate = er, st_CensoredRate = cr,
                    st_TTFTConditional = hist_summarize h (k_ttft a), st_E2EConditional = hist_summarize h (k_e2e a),
                    st_ITLPooled = hist_summarize h (k_itl a), st_ContentEvents = ev, st_CompletionTokens = tk,
                    st_TokenCheck = \<lparr>tc_Sampled = k_Sampled a, tc_Matched = k_Matched a\<rparr>, st_Incidence = curve,
                    st_ConditionalCaveat = (rnd (5 / 100) < rnd (er + cr)),
                    st_ThroughputRPS = per_second rnd w (k_Completed a), st_GoodputRPS = per_second rnd w (k_goodput a),
                    st_GoodputFrac = share rnd (k_goodput a) n,
                    st_GoodputSweep = map2 (\<lambda>te k. (fst te, snd te, share rnd k n)) (sweep_grid cfg) (k_sweep a),
                    st_TTFTTailCI = ci1, st_E2ETailCI = ci2, st_RawTTFTUs = k_ttft a, st_RawE2EUs = k_e2e a\<rparr>
           | _ \<Rightarrow> Inl EPanic))"

section \<open>In-flight accounting\<close>

record outcomes =
  o_Total :: nat
  o_Completed :: nat
  o_Errored :: nat
  o_Censored :: nat
  o_ErroredByClass :: "(string \<times> nat) list"

definition zero_outcomes :: outcomes where
  "zero_outcomes = \<lparr>o_Total = 0, o_Completed = 0, o_Errored = 0, o_Censored = 0, o_ErroredByClass = []\<rparr>"

definition add_outcome :: "request \<Rightarrow> outcomes \<Rightarrow> outcomes" where
  "add_outcome r o1 =
     (let o2 = o1\<lparr>o_Total := Suc (o_Total o1)\<rparr>
      in case r_Outcome r of
           OutcomeCompleted \<Rightarrow> o2\<lparr>o_Completed := Suc (o_Completed o2)\<rparr>
         | OutcomeErrored \<Rightarrow> o2\<lparr>o_Errored := Suc (o_Errored o2), o_ErroredByClass := count_up (r_ErrClass r) (o_ErroredByClass o2)\<rparr>
         | OutcomeCensored \<Rightarrow> o2\<lparr>o_Censored := Suc (o_Censored o2)\<rparr>
         | OutcomeOther _ \<Rightarrow> o2)"

record in_flight =
  f_All :: outcomes
  f_ByReplica :: "(string \<times> nat) list"
  f_OnVictim :: nat
  f_OnVictimCompleted :: nat
  f_OnVictimErrored :: nat
  f_OnVictimCensored :: nat

definition in_flight_at :: "int \<Rightarrow> request \<Rightarrow> bool" where
  "in_flight_at fireNs r \<longleftrightarrow> \<not> (r_DispatchNs r = 0 \<or> fireNs \<le> r_DispatchNs r \<or> r_DoneNs r < fireNs)"

definition bump_if :: "bool \<Rightarrow> nat \<Rightarrow> nat" where
  "bump_if b n = (if b then Suc n else n)"

definition account_one :: "string \<Rightarrow> in_flight \<Rightarrow> request \<Rightarrow> in_flight" where
  "account_one victim acc r =
     (let onVictim = victim \<noteq> [] \<and> r_Replica r = victim
      in acc\<lparr>f_All := add_outcome r (f_All acc),
             f_ByReplica := count_up (r_Replica r) (f_ByReplica acc),
             f_OnVictim := bump_if onVictim (f_OnVictim acc),
             f_OnVictimCompleted := bump_if (onVictim \<and> r_Outcome r = OutcomeCompleted) (f_OnVictimCompleted acc),
             f_OnVictimErrored := bump_if (onVictim \<and> r_Outcome r = OutcomeErrored) (f_OnVictimErrored acc),
             f_OnVictimCensored := bump_if (onVictim \<and> r_Outcome r = OutcomeCensored) (f_OnVictimCensored acc)\<rparr>)"

definition zero_in_flight :: in_flight where
  "zero_in_flight = \<lparr>f_All = zero_outcomes, f_ByReplica = [], f_OnVictim = 0, f_OnVictimCompleted = 0,
     f_OnVictimErrored = 0, f_OnVictimCensored = 0\<rparr>"

definition AccountInFlight :: "request list \<Rightarrow> int \<Rightarrow> string \<Rightarrow> in_flight" where
  "AccountInFlight rs fireNs victim =
     foldl (\<lambda>acc r. if in_flight_at fireNs r then account_one victim acc r else acc) zero_in_flight rs"

definition SplitAtFire :: "request list \<Rightarrow> int \<Rightarrow> int \<Rightarrow> nat \<times> outcomes" where
  "SplitAtFire rs fireNs zoneNs =
     foldl (\<lambda>(n, det) r.
        if \<not> in_flight_at fireNs r then (n, det)
        else if r_DoneNs r - fireNs \<le> zoneNs then (Suc n, det)
        else (n, add_outcome r det)) (0, zero_outcomes) rs"

section \<open>What the loop accumulates\<close>

abbreviation completed :: "request \<Rightarrow> bool" where
  "completed r \<equiv> r_Outcome r = OutcomeCompleted"

definition class_total :: "(string \<times> nat) list \<Rightarrow> nat" where
  "class_total m = sum_list (map snd m)"

lemma class_total_count_up: "class_total (count_up k m) = Suc (class_total m)"
  by (induction k m rule: count_up.induct) (simp_all add: class_total_def)

text \<open>A request can be recorded when its outcome is terminal and, if it completed, its latencies fit
  the histogram.\<close>

definition recordable :: "hist \<Rightarrow> request \<Rightarrow> bool" where
  "recordable h r \<longleftrightarrow> (case r_Outcome r of
       OutcomeCompleted \<Rightarrow> hist_ok h (go_div (TTFTNs r) 1000) \<and> hist_ok h (go_div (E2ENs r) 1000)
         \<and> list_all (\<lambda>g. hist_ok h (if g < 1 then 1 else g)) (r_ITLsUs r)
     | OutcomeErrored \<Rightarrow> True | OutcomeCensored \<Rightarrow> True | OutcomeOther _ \<Rightarrow> False)"

lemma add_request_ok: "is_ok (add_request h cfg r a) \<longleftrightarrow> recordable h r"
  by (simp add: add_request_def add_completed_def recordable_def Let_def list.pred_map comp_def split: outcome.split)

lemma collect_loop_ok: "is_ok (collect_loop h cfg w rs a) \<longleftrightarrow> (\<forall>r\<in>set rs. in_window w r \<longrightarrow> recordable h r)"
proof (induction rs arbitrary: a)
  case (Cons r rs)
  show ?case
    using Cons.IH add_request_ok [of h cfg r a] by (cases "add_request h cfg r a") auto
qed simp

text \<open>One step, on each field of the accumulator.\<close>

lemma add_request_fields:
  assumes "add_request h cfg r a = Inr a'"
  shows "k_Scheduled a' = Suc (k_Scheduled a)"
    and "k_Completed a' = k_Completed a + (if completed r then 1 else 0)"
    and "k_Errored a' = k_Errored a + (if r_Outcome r = OutcomeErrored then 1 else 0)"
    and "k_Censored a' = k_Censored a + (if r_Outcome r = OutcomeCensored then 1 else 0)"
    and "class_total (k_ErrClasses a') = class_total (k_ErrClasses a) + (if r_Outcome r = OutcomeErrored then 1 else 0)"
    and "k_ttft a' = k_ttft a @ (if completed r then [go_div (TTFTNs r) 1000] else [])"
    and "k_e2e a' = k_e2e a @ (if completed r then [go_div (E2ENs r) 1000] else [])"
    and "k_goodput a' = k_goodput a + (if meetsSLO cfg r then 1 else 0)"
    and "k_sweep a' = (if completed r then map2 (\<lambda>te n. if meets_cell r te then Suc n else n) (sweep_grid cfg) (k_sweep a) else k_sweep a)"
    and "\<exists>x. k_obs a' = k_obs a @ [x] \<and> obs_ok x"
  using assms
  by (simp_all add: add_request_def add_completed_def Let_def class_total_count_up meetsSLO_def obs_ok_def
      split: outcome.splits if_splits) (auto simp: class_total_count_up)

abbreviation chosen :: "window \<Rightarrow> request list \<Rightarrow> request list" where
  "chosen w rs \<equiv> filter (in_window w) rs"

lemma collect_loop_fields:
  "collect_loop h cfg w rs a = Inr a' \<Longrightarrow>
     k_Scheduled a' = k_Scheduled a + length (chosen w rs)
   \<and> k_Completed a' = k_Completed a + length (filter completed (chosen w rs))
   \<and> k_Errored a' = k_Errored a + length (filter (\<lambda>r. r_Outcome r = OutcomeErrored) (chosen w rs))
   \<and> k_Censored a' = k_Censored a + length (filter (\<lambda>r. r_Outcome r = OutcomeCensored) (chosen w rs))
   \<and> class_total (k_ErrClasses a') = class_total (k_ErrClasses a) + length (filter (\<lambda>r. r_Outcome r = OutcomeErrored) (chosen w rs))
   \<and> k_ttft a' = k_ttft a @ map (\<lambda>r. go_div (TTFTNs r) 1000) (filter completed (chosen w rs))
   \<and> k_e2e a' = k_e2e a @ map (\<lambda>r. go_div (E2ENs r) 1000) (filter completed (chosen w rs))
   \<and> k_goodput a' = k_goodput a + length (filter (meetsSLO cfg) (chosen w rs))
   \<and> (\<exists>os. k_obs a' = k_obs a @ os \<and> length os = length (chosen w rs) \<and> (\<forall>x\<in>set os. obs_ok x))"
proof (induction rs arbitrary: a)
  case (Cons r rs)
  show ?case
  proof (cases "in_window w r")
    case False
    with Cons show ?thesis by simp
  next
    case True
    with Cons.prems obtain a1 where a1: "add_request h cfg r a = Inr a1" and rest: "collect_loop h cfg w rs a1 = Inr a'"
      by (auto split: sum.splits)
    obtain x where x: "k_obs a1 = k_obs a @ [x]" "obs_ok x" using add_request_fields(10) [OF a1] by blast
    obtain os where os: "k_obs a' = k_obs a1 @ os" "length os = length (chosen w rs)" "\<forall>x\<in>set os. obs_ok x"
      using Cons.IH [OF rest] by blast
    have "k_obs a' = k_obs a @ (x # os) \<and> length (x # os) = length (chosen w (r # rs)) \<and> (\<forall>y\<in>set (x # os). obs_ok y)"
      using x os True by simp
    then have "\<exists>os. k_obs a' = k_obs a @ os \<and> length os = length (chosen w (r # rs)) \<and> (\<forall>x\<in>set os. obs_ok x)" by blast
    then show ?thesis using Cons.IH [OF rest] add_request_fields(1-8) [OF a1] True by simp
  qed
qed simp

lemma map2_sweep:
  "length ns = length g \<Longrightarrow>
     map2 (\<lambda>te n. if meets_cell r te then Suc n else n) g (map2 (\<lambda>te n. n + f te) g ns) =
     map2 (\<lambda>te n. n + (f te + (if meets_cell r te then 1 else 0))) g ns"
  by (induction ns g rule: list_induct2) auto

lemma collect_loop_sweep:
  "collect_loop h cfg w rs a = Inr a' \<Longrightarrow> length (k_sweep a) = length (sweep_grid cfg) \<Longrightarrow>
     k_sweep a' = map2 (\<lambda>te n. n + length (filter (\<lambda>r. meets_cell r te) (filter completed (chosen w rs)))) (sweep_grid cfg) (k_sweep a)"
proof (induction rs arbitrary: a)
  case Nil
  have "map2 (\<lambda>te n. n) g ns = ns" if "length ns = length g" for g :: "(int \<times> int) list" and ns :: "nat list"
    using that by (induction ns g rule: list_induct2) simp_all
  with Nil show ?case by simp
next
  case (Cons r rs)
  show ?case
  proof (cases "in_window w r")
    case False
    with Cons show ?thesis by simp
  next
    case True
    with Cons.prems obtain a1 where a1: "add_request h cfg r a = Inr a1" and rest: "collect_loop h cfg w rs a1 = Inr a'"
      by (auto split: sum.splits)
    have a1s: "k_sweep a1 = (if completed r then map2 (\<lambda>te n. if meets_cell r te then Suc n else n) (sweep_grid cfg) (k_sweep a) else k_sweep a)"
      by (rule add_request_fields(9) [OF a1])
    have len: "length (k_sweep a1) = length (sweep_grid cfg)" using Cons.prems(2) by (simp add: a1s)
    have swap: "map2 (\<lambda>te n. n + f te) g (map2 (\<lambda>te n. if P te then Suc n else n) g ns) =
        map2 (\<lambda>te n. n + (if P te then Suc (f te) else f te)) g ns"
      if "length ns = length g" for f P and g :: "(int \<times> int) list" and ns :: "nat list"
      using that by (induction ns g rule: list_induct2) simp_all
    note ih = Cons.IH [OF rest len]
    show ?thesis
    proof (cases "completed r")
      case comp: True
      have one: "length (filter (\<lambda>r. meets_cell r te) (r # xs)) =
          (if meets_cell r te then Suc (length (filter (\<lambda>r. meets_cell r te) xs)) else length (filter (\<lambda>r. meets_cell r te) xs))" for te xs
        by simp
      have "chosen w (r # rs) = r # chosen w rs" and "filter completed (r # chosen w rs) = r # filter completed (chosen w rs)"
        using True comp by simp_all
      moreover have "k_sweep a1 = map2 (\<lambda>te n. if meets_cell r te then Suc n else n) (sweep_grid cfg) (k_sweep a)"
        using a1s comp by simp
      ultimately show ?thesis using ih by (simp only: one swap [OF Cons.prems(2)])
    next
      case False
      with ih True show ?thesis by (simp add: a1s)
    qed
  qed
qed

section \<open>The summaries never index out of range\<close>

lemma summarizeCounts_total: "\<exists>s. summarizeCounts rnd xs = Some s"
proof (cases "xs = []")
  case True
  then show ?thesis by (simp add: summarizeCounts_def)
next
  case False
  obtain a where "go_nth (sort xs) ((int (length xs) * int 50 + 99) div 100 - 1) = Some a"
    using ceil_order_stat [OF False, of 50] by auto
  moreover obtain b where "go_nth (sort xs) ((int (length xs) * int 95 + 99) div 100 - 1) = Some b"
    using ceil_order_stat [OF False, of 95] by auto
  moreover obtain c where "go_nth (sort xs) (int (length xs) - 1) = Some c" using max_order_stat [OF False] by blast
  ultimately show ?thesis using False by (simp add: summarizeCounts_def Let_def)
qed

context rounding
begin

lemma ranks_ordered:
  assumes "\<forall>x. 0 \<le> sqrt64 x" and "OrderStatRanks rnd sqrt64 n q = (lo, hi, ok)"
  shows "lo \<le> hi"
proof -
  define half where "half = rnd (rnd (1959964 / 1000000) * sqrt64 (rnd (rnd (rnd (of_int n) * q) * rnd (1 - q))))"
  define mean where "mean = rnd (rnd (of_int n) * q)"
  have "0 \<le> half" unfolding half_def using assms(1) by (intro rnd_nonneg mult_nonneg_nonneg) simp_all
  then have "rnd (mean - half) \<le> rnd (mean + half)" by (intro rnd_mono) simp
  then have "\<lfloor>rnd (mean - half)\<rfloor> \<le> \<lceil>rnd (mean + half)\<rceil>" by linarith
  then show ?thesis using assms(2) by (auto simp: OrderStatRanks_def Let_def half_def mean_def)
qed

lemma orderStatCI_total:
  assumes "\<forall>x. 0 \<le> sqrt64 x"
  shows "\<exists>c. orderStatCI rnd sqrt64 xs q = Some c"
proof -
  obtain lo hi ok where r: "OrderStatRanks rnd sqrt64 (int (length xs)) q = (lo, hi, ok)" by (metis prod_cases3)
  have "lo \<le> hi" by (rule ranks_ordered [OF assms r])
  moreover have "ok \<longleftrightarrow> 1 \<le> lo \<and> hi \<le> int (length xs)" using r by (auto simp: OrderStatRanks_def Let_def)
  ultimately show ?thesis by (auto simp: orderStatCI_def r go_nth_def)
qed

lemma tailCIs_total: "\<forall>x. 0 \<le> sqrt64 x \<Longrightarrow> \<exists>c. tailCIs rnd sqrt64 raw = Some c"
  using orderStatCI_total [of sqrt64 "sort raw" "rnd (95 / 100)"] orderStatCI_total [of sqrt64 "sort raw" "rnd (99 / 100)"]
  by (auto simp: tailCIs_def Let_def)

lemma Collect_ok:
  assumes "\<forall>x. 0 \<le> sqrt64 x"
  shows "is_ok (Collect_stats rnd sqrt64 h cfg rs w) \<longleftrightarrow> (\<forall>r\<in>set rs. in_window w r \<longrightarrow> recordable h r)"
proof (cases "collect_loop h cfg w rs (zero_acc cfg)")
  case (Inl e)
  then show ?thesis using collect_loop_ok [of h cfg w rs "zero_acc cfg"] by (simp add: Collect_stats_def)
next
  case (Inr a)
  obtain os where "k_obs a = k_obs (zero_acc cfg) @ os" "\<forall>x\<in>set os. obs_ok x"
    using collect_loop_fields [OF Inr] by blast
  then have "\<forall>x\<in>set (k_obs a). obs_ok x" by (simp add: zero_acc_def)
  then obtain c where "estimate_incidence rnd (k_obs a) (cc_HTTPTimeoutS cfg * 1000000) = Some c"
    using estimate_incidence_total by blast
  moreover obtain c1 c2 where "tailCIs rnd sqrt64 (k_ttft a) = Some c1" "tailCIs rnd sqrt64 (k_e2e a) = Some c2"
    using tailCIs_total [OF assms] by metis
  moreover obtain s1 s2 where "summarizeCounts rnd (k_events a) = Some s1" "summarizeCounts rnd (k_tokens a) = Some s2"
    using summarizeCounts_total by metis
  ultimately show ?thesis
    using Inr collect_loop_ok [of h cfg w rs "zero_acc cfg"] by (simp add: Collect_stats_def Let_def)
qed

lemma share_mono: "k \<le> k' \<Longrightarrow> share rnd k n \<le> share rnd k' n"
  by (simp add: share_def) (intro impI rnd_mono divide_right_mono rnd_nonneg; simp)

end

lemma Collect_statsD:
  assumes "Collect_stats rnd sqrt64 h cfg rs w = Inr st"
  obtains a where "collect_loop h cfg w rs (zero_acc cfg) = Inr a" and "st_Scheduled st = k_Scheduled a"
    and "st_Completed st = k_Completed a" and "st_Errored st = k_Errored a" and "st_Censored st = k_Censored a"
    and "st_ErrClasses st = k_ErrClasses a" and "st_RawTTFTUs st = k_ttft a" and "st_RawE2EUs st = k_e2e a"
    and "estimate_incidence rnd (k_obs a) (cc_HTTPTimeoutS cfg * 1000000) = Some (st_Incidence st)"
    and "st_GoodputSweep st = map2 (\<lambda>te k. (fst te, snd te, share rnd k (k_Scheduled a))) (sweep_grid cfg) (k_sweep a)"
    and "st_GoodputFrac st = share rnd (k_goodput a) (k_Scheduled a)"
  using assms by (auto simp: Collect_stats_def Let_def split: sum.splits option.splits)

lemma estimate_N: "estimate_incidence rnd os h = Some c \<Longrightarrow> curve_N c = length os"
  by (auto simp: estimate_incidence_def split: if_splits option.splits)

lemma Collect_counts:
  assumes "Collect_stats rnd sqrt64 h cfg rs w = Inr st"
  shows "st_Scheduled st = length (chosen w rs)"
    and "st_Completed st = length (filter completed (chosen w rs))"
    and "st_Errored st = length (filter (\<lambda>r. r_Outcome r = OutcomeErrored) (chosen w rs))"
    and "st_Censored st = length (filter (\<lambda>r. r_Outcome r = OutcomeCensored) (chosen w rs))"
    and "class_total (st_ErrClasses st) = st_Errored st"
    and "st_RawTTFTUs st = map (\<lambda>r. go_div (TTFTNs r) 1000) (filter completed (chosen w rs))"
    and "curve_N (st_Incidence st) = st_Scheduled st"
    and "st_GoodputSweep st = map (\<lambda>te. (fst te, snd te, share rnd (length (filter (\<lambda>r. meets_cell r te) (filter completed (chosen w rs)))) (st_Scheduled st))) (sweep_grid cfg)"
    and "\<forall>r\<in>set (chosen w rs). recordable h r"
proof -
  obtain a where a: "collect_loop h cfg w rs (zero_acc cfg) = Inr a" and s: "st_Scheduled st = k_Scheduled a"
    "st_Completed st = k_Completed a" "st_Errored st = k_Errored a" "st_Censored st = k_Censored a"
    "st_ErrClasses st = k_ErrClasses a" "st_RawTTFTUs st = k_ttft a"
    and inc: "estimate_incidence rnd (k_obs a) (cc_HTTPTimeoutS cfg * 1000000) = Some (st_Incidence st)"
    and sweep: "st_GoodputSweep st = map2 (\<lambda>te k. (fst te, snd te, share rnd k (k_Scheduled a))) (sweep_grid cfg) (k_sweep a)"
    using assms by (rule Collect_statsD)
  note f = collect_loop_fields [OF a]
  show "st_Scheduled st = length (chosen w rs)" "st_Completed st = length (filter completed (chosen w rs))"
    "st_Errored st = length (filter (\<lambda>r. r_Outcome r = OutcomeErrored) (chosen w rs))"
    "st_Censored st = length (filter (\<lambda>r. r_Outcome r = OutcomeCensored) (chosen w rs))"
    "class_total (st_ErrClasses st) = st_Errored st"
    "st_RawTTFTUs st = map (\<lambda>r. go_div (TTFTNs r) 1000) (filter completed (chosen w rs))"
    using f s by (simp_all add: zero_acc_def class_total_def)
  have "length (k_obs a) = k_Scheduled a" using f by (auto simp: zero_acc_def)
  then show "curve_N (st_Incidence st) = st_Scheduled st" using estimate_N [OF inc] s(1) by simp
  have rep: "map2 (\<lambda>te k. (fst te, snd te, share rnd k n)) g (map2 (\<lambda>te k. k + c te) g (replicate (length g) 0)) =
      map (\<lambda>te. (fst te, snd te, share rnd (c te) n)) g" for n c and g :: "(int \<times> int) list"
    by (induction g) simp_all
  show "st_GoodputSweep st = map (\<lambda>te. (fst te, snd te, share rnd (length (filter (\<lambda>r. meets_cell r te) (filter completed (chosen w rs)))) (st_Scheduled st))) (sweep_grid cfg)"
    using collect_loop_sweep [OF a] sweep s(1) by (simp add: zero_acc_def rep)
  show "\<forall>r\<in>set (chosen w rs). recordable h r" using collect_loop_ok [of h cfg w rs "zero_acc cfg"] a by auto
qed

section \<open>In-flight accounting\<close>

lemma add_outcome_Total: "o_Total (add_outcome r x) = Suc (o_Total x)"
  by (simp add: add_outcome_def Let_def split: outcome.split)

lemma add_outcome_counts:
  "o_Completed (add_outcome r x) = o_Completed x + (if completed r then 1 else 0)"
  "o_Errored (add_outcome r x) = o_Errored x + (if r_Outcome r = OutcomeErrored then 1 else 0)"
  "o_Censored (add_outcome r x) = o_Censored x + (if r_Outcome r = OutcomeCensored then 1 else 0)"
  "class_total (o_ErroredByClass (add_outcome r x)) = class_total (o_ErroredByClass x) + (if r_Outcome r = OutcomeErrored then 1 else 0)"
  by (simp_all add: add_outcome_def Let_def class_total_count_up split: outcome.split)

definition outcomes_of :: "request list \<Rightarrow> outcomes \<Rightarrow> outcomes" where
  "outcomes_of rs x = foldl (\<lambda>x r. add_outcome r x) x rs"

lemma outcomes_of_counts:
  "o_Total (outcomes_of rs x) = o_Total x + length rs"
  "o_Completed (outcomes_of rs x) = o_Completed x + length (filter completed rs)"
  "o_Errored (outcomes_of rs x) = o_Errored x + length (filter (\<lambda>r. r_Outcome r = OutcomeErrored) rs)"
  "o_Censored (outcomes_of rs x) = o_Censored x + length (filter (\<lambda>r. r_Outcome r = OutcomeCensored) rs)"
  "class_total (o_ErroredByClass (outcomes_of rs x)) = class_total (o_ErroredByClass x) + length (filter (\<lambda>r. r_Outcome r = OutcomeErrored) rs)"
  unfolding outcomes_of_def
  by (induction rs arbitrary: x) (simp_all add: add_outcome_Total add_outcome_counts)

lemma account_fold:
  "f_All (foldl (\<lambda>acc r. if in_flight_at t r then account_one v acc r else acc) acc rs) =
     outcomes_of (filter (in_flight_at t) rs) (f_All acc)"
  "class_total (f_ByReplica (foldl (\<lambda>acc r. if in_flight_at t r then account_one v acc r else acc) acc rs)) =
     class_total (f_ByReplica acc) + length (filter (in_flight_at t) rs)"
  "f_OnVictim (foldl (\<lambda>acc r. if in_flight_at t r then account_one v acc r else acc) acc rs) =
     f_OnVictim acc + length (filter (\<lambda>r. v \<noteq> [] \<and> r_Replica r = v) (filter (in_flight_at t) rs))"
  "f_OnVictimCompleted (foldl (\<lambda>acc r. if in_flight_at t r then account_one v acc r else acc) acc rs) =
     f_OnVictimCompleted acc + length (filter (\<lambda>r. (v \<noteq> [] \<and> r_Replica r = v) \<and> completed r) (filter (in_flight_at t) rs))"
  "f_OnVictimErrored (foldl (\<lambda>acc r. if in_flight_at t r then account_one v acc r else acc) acc rs) =
     f_OnVictimErrored acc + length (filter (\<lambda>r. (v \<noteq> [] \<and> r_Replica r = v) \<and> r_Outcome r = OutcomeErrored) (filter (in_flight_at t) rs))"
  "f_OnVictimCensored (foldl (\<lambda>acc r. if in_flight_at t r then account_one v acc r else acc) acc rs) =
     f_OnVictimCensored acc + length (filter (\<lambda>r. (v \<noteq> [] \<and> r_Replica r = v) \<and> r_Outcome r = OutcomeCensored) (filter (in_flight_at t) rs))"
  by (induction rs arbitrary: acc) (simp_all add: outcomes_of_def account_one_def Let_def class_total_count_up bump_if_def)

lemma split_fold:
  "foldl (\<lambda>(n, det) r. if \<not> in_flight_at t r then (n, det)
        else if r_DoneNs r - t \<le> z then (Suc n, det) else (n, add_outcome r det)) (n, det) rs =
     (n + length (filter (\<lambda>r. r_DoneNs r - t \<le> z) (filter (in_flight_at t) rs)),
      outcomes_of (filter (\<lambda>r. \<not> r_DoneNs r - t \<le> z) (filter (in_flight_at t) rs)) det)"
  by (induction rs arbitrary: n det) (simp_all add: outcomes_of_def)

definition terminal :: "request \<Rightarrow> bool" where
  "terminal r \<longleftrightarrow> r_Outcome r = OutcomeCompleted \<or> r_Outcome r = OutcomeErrored \<or> r_Outcome r = OutcomeCensored"

lemma terminal_partition:
  "\<forall>r\<in>set rs. terminal r \<Longrightarrow>
     length rs = length (filter completed rs) + length (filter (\<lambda>r. r_Outcome r = OutcomeErrored) rs)
       + length (filter (\<lambda>r. r_Outcome r = OutcomeCensored) rs)"
  by (induction rs) (auto simp: terminal_def)

lemma length_filter_sub: "length (filter P (filter Q xs)) \<le> length (filter P xs)"
  by (induction xs) simp_all

lemma recordable_terminal: "recordable h r \<Longrightarrow> terminal r"
  by (simp add: recordable_def terminal_def split: outcome.splits)

section \<open>The samples and the counters by key\<close>

abbreviation errored :: "request \<Rightarrow> bool" where
  "errored r \<equiv> r_Outcome r = OutcomeErrored"

abbreviation censored :: "request \<Rightarrow> bool" where
  "censored r \<equiv> r_Outcome r = OutcomeCensored"

text \<open>What a map of counters filled by \<open>m[k]++\<close> over the keys \<open>ks\<close> holds.\<close>

definition tally :: "string list \<Rightarrow> string \<Rightarrow> nat option" where
  "tally ks k = (if k \<in> set ks then Some (count_list ks k) else None)"

lemma count_up_lookup: "map_of (count_up k m) k' = (if k' = k then Some (case map_of m k of None \<Rightarrow> 1 | Some n \<Rightarrow> Suc n) else map_of m k')"
  by (induction k m rule: count_up.induct) (auto split: option.splits)

lemma count_up_keys: "set (map fst (count_up k m)) = insert k (set (map fst m))" "distinct (map fst m) \<Longrightarrow> distinct (map fst (count_up k m))"
  by (induction k m rule: count_up.induct) auto

lemma count_up_tally: "map_of m = tally ks \<Longrightarrow> map_of (count_up k m) = tally (ks @ [k])"
  by (rule ext) (simp add: count_up_lookup, simp add: tally_def)

lemma tally_Nil [simp]: "tally [] = (\<lambda>_. None)"
  by (rule ext) (simp add: tally_def)

text \<open>The observation a request makes: its end-to-end time when it completed, the time since its
  intended start otherwise, in microseconds, under its outcome.\<close>

definition obs_of :: "request \<Rightarrow> obs" where
  "obs_of r = \<lparr>TimeUs = go_div ((if completed r then E2ENs r else r_DoneNs r - r_IntendedNs r)) 1000,
     Kind = (if completed r then ObsCompletion else if errored r then ObsError else ObsCensored)\<rparr>"

lemma add_request_samples:
  assumes "add_request h cfg r a = Inr a'"
  shows "k_ErrClasses a' = (if errored r then count_up (r_ErrClass r) (k_ErrClasses a) else k_ErrClasses a)"
    and "k_itl a' = k_itl a @ (if completed r then map (max 1) (r_ITLsUs r) else [])"
    and "k_events a' = k_events a @ (if completed r then [r_Tokens r] else [])"
    and "k_tokens a' = k_tokens a @ (if completed r \<and> r_UsageSeen r then [r_CompletionTokens r] else [])"
    and "k_Sampled a' = k_Sampled a + (if completed r \<and> r_UsageSeen r then 1 else 0)"
    and "k_Matched a' = k_Matched a + (if completed r \<and> r_UsageSeen r \<and> r_CompletionTokens r = r_Tokens r then 1 else 0)"
    and "k_obs a' = k_obs a @ [obs_of r]"
proof -
  have gap: "(\<lambda>g. if g < 1 then 1 else g) = max (1::int)" by (auto simp: max_def)
  show "k_ErrClasses a' = (if errored r then count_up (r_ErrClass r) (k_ErrClasses a) else k_ErrClasses a)"
    "k_itl a' = k_itl a @ (if completed r then map (max 1) (r_ITLsUs r) else [])"
    "k_events a' = k_events a @ (if completed r then [r_Tokens r] else [])"
    "k_tokens a' = k_tokens a @ (if completed r \<and> r_UsageSeen r then [r_CompletionTokens r] else [])"
    "k_Sampled a' = k_Sampled a + (if completed r \<and> r_UsageSeen r then 1 else 0)"
    "k_Matched a' = k_Matched a + (if completed r \<and> r_UsageSeen r \<and> r_CompletionTokens r = r_Tokens r then 1 else 0)"
    "k_obs a' = k_obs a @ [obs_of r]"
    using assms by (simp_all add: add_request_def add_completed_def Let_def obs_of_def gap split: outcome.splits if_splits) auto
qed

lemma collect_loop_samples:
  "collect_loop h cfg w rs a = Inr a' \<Longrightarrow> map_of (k_ErrClasses a) = tally ks \<Longrightarrow>
     map_of (k_ErrClasses a') = tally (ks @ map r_ErrClass (filter errored (chosen w rs)))
   \<and> k_itl a' = k_itl a @ concat (map (\<lambda>r. map (max 1) (r_ITLsUs r)) (filter completed (chosen w rs)))
   \<and> k_events a' = k_events a @ map r_Tokens (filter completed (chosen w rs))
   \<and> k_tokens a' = k_tokens a @ map r_CompletionTokens (filter r_UsageSeen (filter completed (chosen w rs)))
   \<and> k_Sampled a' = k_Sampled a + length (filter r_UsageSeen (filter completed (chosen w rs)))
   \<and> k_Matched a' = k_Matched a + length (filter (\<lambda>r. r_UsageSeen r \<and> r_CompletionTokens r = r_Tokens r) (filter completed (chosen w rs)))
   \<and> k_obs a' = k_obs a @ map obs_of (chosen w rs)"
proof (induction rs arbitrary: a ks)
  case (Cons r rs)
  show ?case
  proof (cases "in_window w r")
    case False
    with Cons show ?thesis by simp
  next
    case True
    with Cons.prems obtain a1 where a1: "add_request h cfg r a = Inr a1" and rest: "collect_loop h cfg w rs a1 = Inr a'"
      by (auto split: sum.splits)
    note f = add_request_samples [OF a1]
    have "map_of (k_ErrClasses a1) = tally (ks @ (if errored r then [r_ErrClass r] else []))"
      using f(1) Cons.prems(2) count_up_tally by simp
    from Cons.IH [OF rest this] f(2-7) True show ?thesis by simp
  qed
qed simp

lemma Collect_samples:
  assumes "Collect_stats rnd sqrt64 h cfg rs w = Inr st"
  shows "map_of (st_ErrClasses st) = tally (map r_ErrClass (filter errored (chosen w rs)))"
    and "st_RawE2EUs st = map (\<lambda>r. go_div (E2ENs r) 1000) (filter completed (chosen w rs))"
    and "st_TTFTConditional st = hist_summarize h (st_RawTTFTUs st)"
    and "st_E2EConditional st = hist_summarize h (st_RawE2EUs st)"
    and "st_ITLPooled st = hist_summarize h (concat (map (\<lambda>r. map (max 1) (r_ITLsUs r)) (filter completed (chosen w rs))))"
    and "estimate_incidence rnd (map obs_of (chosen w rs)) (cc_HTTPTimeoutS cfg * 1000000) = Some (st_Incidence st)"
    and "st_ErrorRate st = share rnd (st_Errored st) (st_Scheduled st)"
    and "st_CensoredRate st = share rnd (st_Censored st) (st_Scheduled st)"
    and "st_GoodputFrac st = share rnd (length (filter (meetsSLO cfg) (chosen w rs))) (st_Scheduled st)"
    and "st_ConditionalCaveat st \<longleftrightarrow> rnd (5 / 100) < rnd (st_ErrorRate st + st_CensoredRate st)"
    and "summarizeCounts rnd (map r_Tokens (filter completed (chosen w rs))) = Some (st_ContentEvents st)"
    and "tc_Sampled (st_TokenCheck st) = length (filter r_UsageSeen (filter completed (chosen w rs)))"
    and "tc_Matched (st_TokenCheck st) = length (filter (\<lambda>r. r_UsageSeen r \<and> r_CompletionTokens r = r_Tokens r) (filter completed (chosen w rs)))"
proof -
  obtain a where a: "collect_loop h cfg w rs (zero_acc cfg) = Inr a" using assms by (rule Collect_statsD)
  have "map_of (k_ErrClasses (zero_acc cfg)) = tally []" by (simp add: zero_acc_def)
  from collect_loop_samples [OF a this] collect_loop_fields [OF a]
  have k: "map_of (k_ErrClasses a) = tally (map r_ErrClass (filter errored (chosen w rs)))"
    "k_e2e a = map (\<lambda>r. go_div (E2ENs r) 1000) (filter completed (chosen w rs))"
    "k_itl a = concat (map (\<lambda>r. map (max 1) (r_ITLsUs r)) (filter completed (chosen w rs)))"
    "k_events a = map r_Tokens (filter completed (chosen w rs))" "k_obs a = map obs_of (chosen w rs)"
    "k_goodput a = length (filter (meetsSLO cfg) (chosen w rs))"
    "k_Sampled a = length (filter r_UsageSeen (filter completed (chosen w rs)))"
    "k_Matched a = length (filter (\<lambda>r. r_UsageSeen r \<and> r_CompletionTokens r = r_Tokens r) (filter completed (chosen w rs)))"
    by (simp_all add: zero_acc_def del: filter_filter)
  have e: "st_ErrClasses st = k_ErrClasses a" "st_RawE2EUs st = k_e2e a" "st_TTFTConditional st = hist_summarize h (st_RawTTFTUs st)"
    "st_E2EConditional st = hist_summarize h (st_RawE2EUs st)" "st_ITLPooled st = hist_summarize h (k_itl a)"
    "estimate_incidence rnd (k_obs a) (cc_HTTPTimeoutS cfg * 1000000) = Some (st_Incidence st)"
    "st_ErrorRate st = share rnd (st_Errored st) (st_Scheduled st)" "st_CensoredRate st = share rnd (st_Censored st) (st_Scheduled st)"
    "st_GoodputFrac st = share rnd (k_goodput a) (st_Scheduled st)"
    "st_ConditionalCaveat st \<longleftrightarrow> rnd (5 / 100) < rnd (st_ErrorRate st + st_CensoredRate st)"
    "summarizeCounts rnd (k_events a) = Some (st_ContentEvents st)" "tc_Sampled (st_TokenCheck st) = k_Sampled a" "tc_Matched (st_TokenCheck st) = k_Matched a"
    using assms a by (auto simp: Collect_stats_def Let_def split: option.splits)
  show "map_of (st_ErrClasses st) = tally (map r_ErrClass (filter errored (chosen w rs)))"
    "st_RawE2EUs st = map (\<lambda>r. go_div (E2ENs r) 1000) (filter completed (chosen w rs))"
    "st_TTFTConditional st = hist_summarize h (st_RawTTFTUs st)"
    "st_E2EConditional st = hist_summarize h (st_RawE2EUs st)"
    "st_ITLPooled st = hist_summarize h (concat (map (\<lambda>r. map (max 1) (r_ITLsUs r)) (filter completed (chosen w rs))))"
    "estimate_incidence rnd (map obs_of (chosen w rs)) (cc_HTTPTimeoutS cfg * 1000000) = Some (st_Incidence st)"
    "st_ErrorRate st = share rnd (st_Errored st) (st_Scheduled st)"
    "st_CensoredRate st = share rnd (st_Censored st) (st_Scheduled st)"
    "st_GoodputFrac st = share rnd (length (filter (meetsSLO cfg) (chosen w rs))) (st_Scheduled st)"
    "st_ConditionalCaveat st \<longleftrightarrow> rnd (5 / 100) < rnd (st_ErrorRate st + st_CensoredRate st)"
    "summarizeCounts rnd (map r_Tokens (filter completed (chosen w rs))) = Some (st_ContentEvents st)"
    "tc_Sampled (st_TokenCheck st) = length (filter r_UsageSeen (filter completed (chosen w rs)))"
    "tc_Matched (st_TokenCheck st) = length (filter (\<lambda>r. r_UsageSeen r \<and> r_CompletionTokens r = r_Tokens r) (filter completed (chosen w rs)))"
    unfolding e(1-5,7-10,12,13) k by (rule refl | rule e(6) [unfolded k] e(11) [unfolded k])+
qed


text \<open>The in-flight maps of counters.\<close>

lemma outcomes_of_classes:
  "map_of (o_ErroredByClass x) = tally ks \<Longrightarrow>
     map_of (o_ErroredByClass (outcomes_of rs x)) = tally (ks @ map r_ErrClass (filter errored rs))"
proof (induction rs arbitrary: x ks)
  case (Cons r rs)
  have "map_of (o_ErroredByClass (add_outcome r x)) = tally (ks @ (if errored r then [r_ErrClass r] else []))"
    using Cons.prems count_up_tally [of "o_ErroredByClass x" ks "r_ErrClass r"] by (simp add: add_outcome_def Let_def split: outcome.split)
  from Cons.IH [OF this] show ?case by (simp add: outcomes_of_def)
qed (simp add: outcomes_of_def)

lemma account_replicas:
  "map_of (f_ByReplica acc) = tally ks \<Longrightarrow>
     map_of (f_ByReplica (foldl (\<lambda>acc r. if in_flight_at t r then account_one v acc r else acc) acc rs)) =
       tally (ks @ map r_Replica (filter (in_flight_at t) rs))"
proof (induction rs arbitrary: acc ks)
  case (Cons r rs)
  have "map_of (f_ByReplica (account_one v acc r)) = tally (ks @ [r_Replica r])"
    using count_up_tally [OF Cons.prems] by (simp add: account_one_def Let_def)
  with Cons.IH [OF Cons.prems] Cons.IH [OF this] show ?case by simp
qed simp

section \<open>Properties\<close>

text \<open>Claim C16. In float64 a window is collected exactly when each of its requests ended in one of the
  three outcomes with recordable latencies; no order statistic or interval rank is out of range. Then the
  counts of completed, errored and censored requests are exactly those of the window's requests and add up
  to the scheduled, each error class counts its requests, the latency samples are the end-to-end times and
  times to first token of the completed requests, in order, the histograms summarize those samples, the
  incidence curve is estimated from one observation for each scheduled request, and the rates and the
  goodput are the float64 quotients by the scheduled.\<close>

theorem collect_classifies_every_request:
  fixes rs :: "request list" and w :: window
  defines "C \<equiv> filter (\<lambda>r. w_StartNs w \<le> r_IntendedNs r \<and> r_IntendedNs r < w_EndNs w \<and> (w_Replica w = [] \<or> r_Replica r = w_Replica w)) rs"
  assumes "\<forall>x. 0 \<le> sqrt64 x"
  shows "(\<forall>r\<in>set C. recordable h r) \<longleftrightarrow>
    (\<exists>st. Collect_stats fl sqrt64 h cfg rs w = Inr st
      \<and> st_Scheduled st = length C
      \<and> st_Completed st = length (filter (\<lambda>r. r_Outcome r = OutcomeCompleted) C)
      \<and> st_Errored st = length (filter (\<lambda>r. r_Outcome r = OutcomeErrored) C)
      \<and> st_Censored st = length (filter (\<lambda>r. r_Outcome r = OutcomeCensored) C)
      \<and> st_Scheduled st = st_Completed st + st_Errored st + st_Censored st
      \<and> map_of (st_ErrClasses st) = tally (map r_ErrClass (filter (\<lambda>r. r_Outcome r = OutcomeErrored) C))
      \<and> class_total (st_ErrClasses st) = st_Errored st
      \<and> st_RawTTFTUs st = map (\<lambda>r. go_div (TTFTNs r) 1000) (filter (\<lambda>r. r_Outcome r = OutcomeCompleted) C)
      \<and> st_RawE2EUs st = map (\<lambda>r. go_div (E2ENs r) 1000) (filter (\<lambda>r. r_Outcome r = OutcomeCompleted) C)
      \<and> st_TTFTConditional st = hist_summarize h (st_RawTTFTUs st)
      \<and> st_E2EConditional st = hist_summarize h (st_RawE2EUs st)
      \<and> estimate_incidence fl (map obs_of C) (cc_HTTPTimeoutS cfg * 1000000) = Some (st_Incidence st)
      \<and> curve_N (st_Incidence st) = st_Scheduled st
      \<and> st_GoodputFrac st = share fl (length (filter (meetsSLO cfg) C)) (st_Scheduled st)
      \<and> st_ErrorRate st = share fl (st_Errored st) (st_Scheduled st)
      \<and> st_CensoredRate st = share fl (st_Censored st) (st_Scheduled st))"
proof -
  have C: "C = chosen w rs" by (simp add: C_def in_window_def [abs_def])
  have ok: "is_ok (Collect_stats fl sqrt64 h cfg rs w) \<longleftrightarrow> (\<forall>r\<in>set C. recordable h r)"
    using f64.Collect_ok [OF assms(2)] by (auto simp: C)
  have counts: "st_Scheduled st = st_Completed st + st_Errored st + st_Censored st"
    if "Collect_stats fl sqrt64 h cfg rs w = Inr st" for st
    using Collect_counts(9) [OF that] recordable_terminal terminal_partition [of "chosen w rs"]
    unfolding Collect_counts(1-4) [OF that] by blast
  show ?thesis
    unfolding ok [symmetric] is_ok_iff unfolding C
    by (rule iff_exI) (intro iffI conjI counts; (elim conjE, assumption | assumption | erule Collect_counts Collect_samples))
qed

definition demo_hist :: hist where
  "demo_hist = \<lparr>hist_ok = (\<lambda>us. 0 \<le> us \<and> us \<le> 600000000),
     hist_summarize = (\<lambda>xs. \<lparr>h_Count = int (length xs), h_P50Us = 0, h_P95Us = 0, h_P99Us = 0, h_P999Us = 0, h_MaxUs = 0\<rparr>)\<rparr>"

definition demo_collect :: collect_config where
  "demo_collect = \<lparr>cc_SLO = \<lparr>slo_TTFTMs = 1000, slo_E2EMs = 14000, slo_SweepTTFTMs = [500, 1000], slo_SweepE2EMs = [14000]\<rparr>,
     cc_HTTPTimeoutS = 30\<rparr>"

definition demo_window :: window where
  "demo_window = \<lparr>w_Name = ''baseline'', w_StartNs = 0, w_EndNs = 1000000000, w_Replica = []\<rparr>"

definition demo_requests :: "request list" where
  "demo_requests =
     [zero_request\<lparr>r_IntendedNs := 5, r_DispatchNs := 6, r_FirstTokNs := 600000000, r_DoneNs := 700000000, r_Outcome := OutcomeCompleted\<rparr>,
      zero_request\<lparr>r_IntendedNs := 7, r_DispatchNs := 8, r_DoneNs := 900000000, r_Outcome := OutcomeErrored, r_ErrClass := ''reset''\<rparr>]"

theorem collect_classifies_every_request_witness:
  "\<exists>st. Collect_stats fl (\<lambda>x. 1) demo_hist demo_collect demo_requests demo_window = Inr st
     \<and> st_Scheduled st = 2 \<and> st_Completed st = 1 \<and> st_Errored st = 1 \<and> st_Censored st = 0
     \<and> map_of (st_ErrClasses st) ''reset'' = Some 1 \<and> map_of (st_ErrClasses st) ''timeout'' = None
     \<and> st_RawTTFTUs st = [599999] \<and> st_RawE2EUs st = [699999]"
proof -
  let ?C = "filter (\<lambda>r. w_StartNs demo_window \<le> r_IntendedNs r \<and> r_IntendedNs r < w_EndNs demo_window
      \<and> (w_Replica demo_window = [] \<or> r_Replica r = w_Replica demo_window)) demo_requests"
  have C: "?C = demo_requests" by code_simp
  have rec: "\<forall>r\<in>set demo_requests. recordable demo_hist r" by code_simp
  have n: "length demo_requests = 2" "length (filter completed demo_requests) = 1" "length (filter errored demo_requests) = 1"
    "length (filter censored demo_requests) = 0" "tally (map r_ErrClass (filter errored demo_requests)) ''reset'' = Some 1"
    "tally (map r_ErrClass (filter errored demo_requests)) ''timeout'' = None"
    "map (\<lambda>r. go_div (TTFTNs r) 1000) (filter completed demo_requests) = [599999]"
    "map (\<lambda>r. go_div (E2ENs r) 1000) (filter completed demo_requests) = [699999]" by code_simp+
  show ?thesis
    using collect_classifies_every_request [of "\<lambda>x. 1" demo_window demo_requests demo_hist demo_collect]
      rec n(5,6) unfolding C n(1-4,7,8) by auto
qed

text \<open>Two adjacent windows partition the requests of the window they make up: each count of
  the joint window is the sum of the two.\<close>

theorem adjacent_windows_add_up:
  assumes "a \<le> b" and "b \<le> c"
    and "Collect_stats rnd sqrt64 h cfg rs (w\<lparr>w_StartNs := a, w_EndNs := b\<rparr>) = Inr s1"
    and "Collect_stats rnd sqrt64 h cfg rs (w\<lparr>w_StartNs := b, w_EndNs := c\<rparr>) = Inr s2"
    and "Collect_stats rnd sqrt64 h cfg rs (w\<lparr>w_StartNs := a, w_EndNs := c\<rparr>) = Inr s"
  shows "st_Scheduled s = st_Scheduled s1 + st_Scheduled s2 \<and> st_Completed s = st_Completed s1 + st_Completed s2
    \<and> st_Errored s = st_Errored s1 + st_Errored s2 \<and> st_Censored s = st_Censored s1 + st_Censored s2"
proof -
  have "length (filter P (chosen (w\<lparr>w_StartNs := a, w_EndNs := c\<rparr>) rs)) =
      length (filter P (chosen (w\<lparr>w_StartNs := a, w_EndNs := b\<rparr>) rs))
      + length (filter P (chosen (w\<lparr>w_StartNs := b, w_EndNs := c\<rparr>) rs))" for P
    using assms(1,2) by (induction rs) (auto simp: in_window_def)
  from this this [of "\<lambda>_. True"] show ?thesis
    using Collect_counts(1-4) [OF assms(3)] Collect_counts(1-4) [OF assms(4)] Collect_counts(1-4) [OF assms(5)] by simp
qed

theorem adjacent_windows_add_up_witness:
  "\<exists>s1 s2 s. Collect_stats fl (\<lambda>x. 1) demo_hist demo_collect demo_requests (demo_window\<lparr>w_StartNs := 0, w_EndNs := 6\<rparr>) = Inr s1
    \<and> Collect_stats fl (\<lambda>x. 1) demo_hist demo_collect demo_requests (demo_window\<lparr>w_StartNs := 6, w_EndNs := 9\<rparr>) = Inr s2
    \<and> Collect_stats fl (\<lambda>x. 1) demo_hist demo_collect demo_requests (demo_window\<lparr>w_StartNs := 0, w_EndNs := 9\<rparr>) = Inr s
    \<and> st_Scheduled s = st_Scheduled s1 + st_Scheduled s2"
proof -
  let ?C = "\<lambda>a b. Collect_stats fl (\<lambda>x. 1) demo_hist demo_collect demo_requests (demo_window\<lparr>w_StartNs := a, w_EndNs := b\<rparr>)"
  have ok: "is_ok (?C a b)" for a b
  proof -
    have "\<forall>r\<in>set demo_requests. recordable demo_hist r" by code_simp
    then show ?thesis using f64.Collect_ok [of "\<lambda>x. 1"] by simp
  qed
  obtain s1 s2 s where "?C 0 6 = Inr s1" "?C 6 9 = Inr s2" "?C 0 9 = Inr s"
    using ok [where a = 0 and b = 6] ok [where a = 6 and b = 9] ok [where a = 0 and b = 9] unfolding is_ok_iff by blast
  note s = this
  have "st_Scheduled s = st_Scheduled s1 + st_Scheduled s2"
    by (rule conjunct1 [OF adjacent_windows_add_up [OF _ _ s]]) simp_all
  with s show ?thesis by blast
qed

text \<open>The goodput sweep is monotone in both thresholds: loosening either never lowers the
  reported fraction, rounding included.\<close>

theorem goodput_sweep_monotone:
  assumes "Collect_stats fl sqrt64 h cfg rs w = Inr st"
    and "(t, e, f) \<in> set (st_GoodputSweep st)" and "(t', e', f') \<in> set (st_GoodputSweep st)" and "t \<le> t'" and "e \<le> e'"
  shows "f \<le> f'"
proof -
  have sub: "meets_cell r (t, e) \<Longrightarrow> meets_cell r (t', e')" for r
    using assms(4,5) by (auto simp: meets_cell_def)
  have "length (filter (\<lambda>r. meets_cell r (t, e)) xs) \<le> length (filter (\<lambda>r. meets_cell r (t', e')) xs)" for xs
    using sub by (induction xs) auto
  then have cnt: "share fl (length (filter (\<lambda>r. meets_cell r (t, e)) xs)) n \<le> share fl (length (filter (\<lambda>r. meets_cell r (t', e')) xs)) n" for xs n
    by (rule f64.share_mono)
  show ?thesis
    using assms(2,3) cnt [of "filter completed (chosen w rs)" "st_Scheduled st"]
    unfolding Collect_counts(8) [OF assms(1)] by (auto simp del: filter_filter)
qed

theorem goodput_sweep_monotone_witness:
  "\<exists>st f f'. Collect_stats fl (\<lambda>x. 1) demo_hist demo_collect demo_requests demo_window = Inr st
    \<and> (500, 14000, f) \<in> set (st_GoodputSweep st) \<and> (1000, 14000, f') \<in> set (st_GoodputSweep st) \<and> f \<le> f'"
proof -
  have "\<forall>r\<in>set demo_requests. recordable demo_hist r" by code_simp
  then obtain st where st: "Collect_stats fl (\<lambda>x. 1) demo_hist demo_collect demo_requests demo_window = Inr st"
    using f64.Collect_ok [of "\<lambda>x. 1" demo_hist demo_collect demo_requests demo_window] by (auto simp: is_ok_iff)
  have grid: "sweep_grid demo_collect = [(500, 14000), (1000, 14000)]" by (simp add: sweep_grid_def demo_collect_def)
  obtain f f' where "(500, 14000, f) \<in> set (st_GoodputSweep st)" "(1000, 14000, f') \<in> set (st_GoodputSweep st)"
    unfolding Collect_counts(8) [OF st] grid by auto
  with st goodput_sweep_monotone [OF st this] show ?thesis by fastforce
qed

text \<open>The guard window isolates the baseline from the fault: a request intended in the
  baseline window that ends within the client timeout has ended before the fire anchor, so it is never
  among the requests in flight at or after the anchor.\<close>

theorem guard_isolates_baseline:
  assumes "measureStart \<le> r_IntendedNs r" and "r_IntendedNs r < GuardStartNs cfg anchor measureStart"
    and "E2ENs r \<le> cc_HTTPTimeoutS cfg * 1000000000" and "anchor = FireAnchorNs tInject actual" and "anchor \<le> fire"
  shows "r_DoneNs r < anchor \<and> anchor \<le> tInject \<and> \<not> in_flight_at fire r"
  using assms by (auto simp: GuardStartNs_def FireAnchorNs_def E2ENs_def in_flight_at_def Let_def split: if_splits)

theorem guard_isolates_baseline_witness:
  "r_DoneNs (zero_request\<lparr>r_IntendedNs := 5, r_DoneNs := 9\<rparr>) < FireAnchorNs 60000000000 50000000000"
  using guard_isolates_baseline [of 0 "zero_request\<lparr>r_IntendedNs := 5, r_DoneNs := 9\<rparr>" demo_collect
      "FireAnchorNs 60000000000 50000000000" 60000000000 50000000000 "FireAnchorNs 60000000000 50000000000"]
  by (simp add: GuardStartNs_def FireAnchorNs_def E2ENs_def demo_collect_def zero_request_def)

text \<open>Claim C35. The in-flight accounting is exact. Over the requests dispatched before the fire and not done
  before it, it counts each outcome, each error class and each replica, the victim's requests by outcome,
  and splits off those done within the indeterminate zone, the zone's end included, counting the rest by
  outcome and class. No request is lost: replicas, classes and zone add up to the totals, and so do the
  outcomes when every request in flight ended in one.\<close>

theorem in_flight_accounting_complete:
  fixes rs :: "request list" and fire zone :: int and victim :: string
  defines "F \<equiv> filter (\<lambda>r. r_DispatchNs r \<noteq> 0 \<and> r_DispatchNs r < fire \<and> fire \<le> r_DoneNs r) rs"
  defines "V \<equiv> filter (\<lambda>r. victim \<noteq> [] \<and> r_Replica r = victim) F"
  defines "D \<equiv> filter (\<lambda>r. zone < r_DoneNs r - fire) F"
  shows "let acc = AccountInFlight rs fire victim; A = f_All acc; (n, det) = SplitAtFire rs fire zone in
    o_Total A = length F
    \<and> o_Completed A = length (filter (\<lambda>r. r_Outcome r = OutcomeCompleted) F)
    \<and> o_Errored A = length (filter (\<lambda>r. r_Outcome r = OutcomeErrored) F)
    \<and> o_Censored A = length (filter (\<lambda>r. r_Outcome r = OutcomeCensored) F)
    \<and> map_of (o_ErroredByClass A) = tally (map r_ErrClass (filter (\<lambda>r. r_Outcome r = OutcomeErrored) F))
    \<and> map_of (f_ByReplica acc) = tally (map r_Replica F)
    \<and> f_OnVictim acc = length V
    \<and> f_OnVictimCompleted acc = length (filter (\<lambda>r. r_Outcome r = OutcomeCompleted) V)
    \<and> f_OnVictimErrored acc = length (filter (\<lambda>r. r_Outcome r = OutcomeErrored) V)
    \<and> f_OnVictimCensored acc = length (filter (\<lambda>r. r_Outcome r = OutcomeCensored) V)
    \<and> n = length (filter (\<lambda>r. r_DoneNs r - fire \<le> zone) F) \<and> o_Total det = length D
    \<and> o_Completed det = length (filter (\<lambda>r. r_Outcome r = OutcomeCompleted) D)
    \<and> o_Errored det = length (filter (\<lambda>r. r_Outcome r = OutcomeErrored) D)
    \<and> o_Censored det = length (filter (\<lambda>r. r_Outcome r = OutcomeCensored) D)
    \<and> map_of (o_ErroredByClass det) = tally (map r_ErrClass (filter (\<lambda>r. r_Outcome r = OutcomeErrored) D))
    \<and> n + o_Total det = o_Total A \<and> class_total (f_ByReplica acc) = o_Total A
    \<and> class_total (o_ErroredByClass A) = o_Errored A
    \<and> ((\<forall>r\<in>set F. terminal r) \<longrightarrow> o_Total A = o_Completed A + o_Errored A + o_Censored A
         \<and> f_OnVictim acc = f_OnVictimCompleted acc + f_OnVictimErrored acc + f_OnVictimCensored acc)"
proof -
  have F: "filter (in_flight_at fire) rs = F" unfolding F_def by (rule filter_cong) (auto simp: in_flight_at_def)
  have D: "filter (\<lambda>r. \<not> r_DoneNs r - fire \<le> zone) F = D" unfolding D_def by (rule filter_cong) auto
  have zone: "length (filter (\<lambda>r. r_DoneNs r - fire \<le> zone) F) + length D = length F"
    unfolding D [symmetric] by (rule filter_sum_split)
  have V: "filter P V = filter (\<lambda>r. (victim \<noteq> [] \<and> r_Replica r = victim) \<and> P r) F" for P
    unfolding V_def by (simp add: conj_commute)
  have parts: "(\<forall>r\<in>set F. terminal r) \<longrightarrow>
      length F = length (filter completed F) + length (filter errored F) + length (filter censored F)
      \<and> length V = length (filter completed V) + length (filter errored V) + length (filter censored V)"
    using terminal_partition [of F] terminal_partition [of V] by (auto simp: V_def)
  have zero: "class_total [] = 0" "o_Total zero_outcomes = 0" "o_Completed zero_outcomes = 0" "o_Errored zero_outcomes = 0"
    "o_Censored zero_outcomes = 0" "o_ErroredByClass zero_outcomes = []" by (simp_all add: class_total_def zero_outcomes_def)
  have zf: "f_All zero_in_flight = zero_outcomes" "f_ByReplica zero_in_flight = []" "f_OnVictim zero_in_flight = 0"
    "f_OnVictimCompleted zero_in_flight = 0" "f_OnVictimErrored zero_in_flight = 0" "f_OnVictimCensored zero_in_flight = 0"
    by (simp_all add: zero_in_flight_def)
  have cls: "map_of (o_ErroredByClass (outcomes_of xs zero_outcomes)) = tally (map r_ErrClass (filter errored xs))" for xs
    using outcomes_of_classes [of zero_outcomes "[]" xs] by (simp add: zero)
  have rep: "map_of (f_ByReplica (foldl (\<lambda>acc r. if in_flight_at fire r then account_one victim acc r else acc) zero_in_flight rs)) = tally (map r_Replica F)"
    using account_replicas [of zero_in_flight "[]" fire victim rs] by (simp add: zf F)
  show ?thesis
    unfolding AccountInFlight_def SplitAtFire_def Let_def split_fold prod.case account_fold(1,3-6) rep cls outcomes_of_counts zero zf F D
      account_fold(2) V [symmetric] V_def [symmetric]
    unfolding add_0 by (intro conjI refl zone parts)
qed

definition demo_in_flight :: "request list" where
  "demo_in_flight =
     [zero_request\<lparr>r_DispatchNs := 6, r_DoneNs := 150, r_Outcome := OutcomeCompleted, r_Replica := ''a''\<rparr>,
      zero_request\<lparr>r_DispatchNs := 8, r_DoneNs := 151, r_Outcome := OutcomeErrored, r_ErrClass := ''reset'', r_Replica := ''a''\<rparr>,
      zero_request\<lparr>r_DispatchNs := 9, r_DoneNs := 99, r_Outcome := OutcomeCompleted, r_Replica := ''b''\<rparr>,
      zero_request\<lparr>r_DispatchNs := 9, r_DoneNs := 100, r_Outcome := OutcomeCensored, r_Replica := ''b''\<rparr>]"

theorem in_flight_accounting_complete_witness:
  "(let acc = AccountInFlight demo_in_flight 100 ''a''; A = f_All acc; (n, det) = SplitAtFire demo_in_flight 100 50 in
     o_Total A = 3 \<and> o_Completed A = 1 \<and> o_Errored A = 1 \<and> o_Censored A = 1
     \<and> map_of (f_ByReplica acc) ''a'' = Some 2 \<and> map_of (f_ByReplica acc) ''b'' = Some 1
     \<and> f_OnVictim acc = 2 \<and> f_OnVictimErrored acc = 1 \<and> n = 2 \<and> o_Total det = 1 \<and> o_Errored det = 1
     \<and> o_Total A = o_Completed A + o_Errored A + o_Censored A)"
proof -
  let ?F = "filter (\<lambda>r. r_DispatchNs r \<noteq> 0 \<and> r_DispatchNs r < 100 \<and> 100 \<le> r_DoneNs r) demo_in_flight"
  have F: "\<forall>r\<in>set ?F. terminal r" "length ?F = 3" "length (filter completed ?F) = 1" "length (filter errored ?F) = 1"
    "length (filter censored ?F) = 1" "tally (map r_Replica ?F) ''a'' = Some 2" "tally (map r_Replica ?F) ''b'' = Some 1"
    "length (filter (\<lambda>r. ''a'' \<noteq> [] \<and> r_Replica r = ''a'') ?F) = 2"
    "length (filter errored (filter (\<lambda>r. ''a'' \<noteq> [] \<and> r_Replica r = ''a'') ?F)) = 1"
    "length (filter (\<lambda>r. r_DoneNs r - 100 \<le> 50) ?F) = 2" "length (filter (\<lambda>r. 50 < r_DoneNs r - 100) ?F) = 1"
    "length (filter errored (filter (\<lambda>r. 50 < r_DoneNs r - 100) ?F)) = 1" by code_simp+
  show ?thesis
    using in_flight_accounting_complete [where rs = demo_in_flight and fire = 100 and zone = 50 and victim = "''a''"]
    unfolding Let_def F by (simp only: split_beta F fun_eq_iff) (simp add: F del: filter_filter)
qed

end
