(* ===== verification/Detect.thy ===== *)
theory Detect
  imports Collector
begin

text \<open>
  The recovery detector of \<^verbatim>\<open>internal/detect/detect.go\<close>: one-second buckets of scheduled traffic,
  leading-window ratios, the hysteresis scan for the first entry that survives its hold, the baselines,
  the integrated deficit and the recovery decomposition table. Counts and nanosecond times are
  integers; \<open>rnd\<close> rounds a float64 operation. A Go pointer that may be nil is an option.
\<close>

section \<open>Buckets\<close>

abbreviation nsPerSec :: int where
  "nsPerSec \<equiv> 1000000000"

record bucket =
  b_StartNs :: int
  b_Scheduled :: int
  b_Completed :: int
  b_Errored :: int
  b_Good :: int
  b_GoodTTFT :: int
  b_GoodE2E :: int

definition empty_bucket :: "int \<Rightarrow> bucket" where
  "empty_bucket t = \<lparr>b_StartNs = t, b_Scheduled = 0, b_Completed = 0, b_Errored = 0, b_Good = 0, b_GoodTTFT = 0, b_GoodE2E = 0\<rparr>"

definition incr :: "bool \<Rightarrow> int \<Rightarrow> int" where
  "incr b n = (if b then n + 1 else n)"

definition add_to_bucket :: "slo_config \<Rightarrow> request \<Rightarrow> bucket \<Rightarrow> bucket" where
  "add_to_bucket slo r b =
     (let b1 = b\<lparr>b_Scheduled := b_Scheduled b + 1\<rparr>
      in case r_Outcome r of
           OutcomeCompleted \<Rightarrow>
             (let ttftOK = TTFTNs r \<le> slo_TTFTMs slo * 1000000; e2eOK = E2ENs r \<le> slo_E2EMs slo * 1000000
              in b1\<lparr>b_Completed := b_Completed b1 + 1, b_GoodTTFT := incr ttftOK (b_GoodTTFT b1),
                    b_GoodE2E := incr e2eOK (b_GoodE2E b1), b_Good := incr (ttftOK \<and> e2eOK) (b_Good b1)\<rparr>)
         | OutcomeErrored \<Rightarrow> b1\<lparr>b_Errored := b_Errored b1 + 1\<rparr>
         | _ \<Rightarrow> b1)"

text \<open>The loop over the requests; \<open>None\<close> is an index out of range.\<close>

fun fill_buckets :: "slo_config \<Rightarrow> int \<Rightarrow> int \<Rightarrow> request list \<Rightarrow> bucket list \<Rightarrow> bucket list option" where
  "fill_buckets slo t0 t1 [] bs = Some bs"
| "fill_buckets slo t0 t1 (r # rs) bs =
     (if r_IntendedNs r < t0 \<or> t1 \<le> r_IntendedNs r then fill_buckets slo t0 t1 rs bs
      else let i = go_div (r_IntendedNs r - t0) nsPerSec
           in case go_nth bs i of
                None \<Rightarrow> None
              | Some b \<Rightarrow> fill_buckets slo t0 t1 rs (bs[nat i := add_to_bucket slo r b]))"

definition BuildSeries :: "slo_config \<Rightarrow> request list \<Rightarrow> int \<Rightarrow> int \<Rightarrow> bucket list option" where
  "BuildSeries slo rs t0 t1 =
     (let n = go_div (t1 - t0 + nsPerSec - 1) nsPerSec
      in if n \<le> 0 then Some []
         else fill_buckets slo t0 t1 rs (map (\<lambda>i. empty_bucket (t0 + int i * nsPerSec)) [0..<nat n]))"

section \<open>Windows\<close>

type_synonym component = "bucket \<Rightarrow> int \<times> int"

definition compGoodput :: component where "compGoodput b = (b_Good b, b_Scheduled b)"
definition compTTFTSLO :: component where "compTTFTSLO b = (b_GoodTTFT b, b_Scheduled b)"
definition compE2ESLO :: component where "compE2ESLO b = (b_GoodE2E b, b_Scheduled b)"
definition compNonError :: component where "compNonError b = (b_Scheduled b - b_Errored b, b_Scheduled b)"

text \<open>The leading window \<open>[from, from + windowS)\<close> cut at the series' end.\<close>

definition win :: "bucket list \<Rightarrow> nat \<Rightarrow> int \<Rightarrow> bucket list" where
  "win bs from windowS = take (nat windowS) (drop from bs)"

definition windowSums :: "bucket list \<Rightarrow> nat \<Rightarrow> int \<Rightarrow> component \<Rightarrow> int \<times> int \<times> int" where
  "windowSums bs from windowS cmp =
     (let xs = win bs from windowS
      in (sum_list (map (fst \<circ> cmp) xs), sum_list (map (snd \<circ> cmp) xs), int (length xs)))"

definition ratio :: "(rat \<Rightarrow> rat) \<Rightarrow> int \<Rightarrow> int \<Rightarrow> rat" where
  "ratio rnd num den = rnd (rnd (of_int num) / rnd (of_int den))"

definition windowRatio :: "(rat \<Rightarrow> rat) \<Rightarrow> bucket list \<Rightarrow> nat \<Rightarrow> int \<Rightarrow> component \<Rightarrow> rat option" where
  "windowRatio rnd bs from windowS cmp =
     (case windowSums bs from windowS cmp of (num, den, _) \<Rightarrow> if den = 0 then None else Some (ratio rnd num den))"

text \<open>The pair is (candidate, unobserved).\<close>

definition entryVerdict :: "(rat \<Rightarrow> rat) \<Rightarrow> bucket list \<Rightarrow> nat \<Rightarrow> int \<Rightarrow> component \<Rightarrow> rat \<Rightarrow> bool \<times> bool" where
  "entryVerdict rnd bs from windowS cmp bar =
     (case windowSums bs from windowS cmp of (num, den, observed) \<Rightarrow>
        if observed = 0 then (False, True)
        else if 0 < den \<and> bar \<le> ratio rnd num den then (observed = windowS, observed < windowS)
        else if observed = windowS \<or> den = 0 then (False, False)
        else let m = rnd (rnd (rnd (of_int (windowS - observed)) * rnd (of_int den)) / rnd (of_int observed))
             in (False, bar \<le> rnd (rnd (rnd (of_int num) + m) / rnd (rnd (of_int den) + m))))"

section \<open>The detector\<close>

record params =
  p_WindowS :: int
  p_EntryPct :: int
  p_ExitPct :: int
  p_HoldS :: int

record detection =
  d_Baseline :: rat
  d_Params :: params
  d_TTRSeconds :: "rat option"
  d_RecoveredAtNs :: "int option"
  d_NotRecovered :: bool
  d_HoldUnobserved :: bool
  d_CanceledEntries :: nat
  d_ReDegradations :: nat

definition new_detection :: "rat \<Rightarrow> params \<Rightarrow> detection" where
  "new_detection baseline p = \<lparr>d_Baseline = baseline, d_Params = p, d_TTRSeconds = None, d_RecoveredAtNs = None,
     d_NotRecovered = False, d_HoldUnobserved = False, d_CanceledEntries = 0, d_ReDegradations = 0\<rparr>"

text \<open>The hold of a candidate: \<open>k\<close> windows from \<open>j\<close> on must stay at or above the entry bar. A dip
  names its index; a window that the series cuts ends the scan unobserved.\<close>

datatype hold = Held | Dipped nat | Cut

fun hold_loop :: "(rat \<Rightarrow> rat) \<Rightarrow> bucket list \<Rightarrow> component \<Rightarrow> int \<Rightarrow> rat \<Rightarrow> nat \<Rightarrow> nat \<Rightarrow> hold" where
  "hold_loop rnd bs cmp windowS bar j 0 = Held"
| "hold_loop rnd bs cmp windowS bar j (Suc k) =
     (if int (length bs) < int j + windowS then Cut
      else case windowRatio rnd bs j windowS cmp of
        None \<Rightarrow> Dipped j
      | Some hw \<Rightarrow> if hw < bar then Dipped j else hold_loop rnd bs cmp windowS bar (Suc j) k)"

lemma hold_loop_dip: "hold_loop rnd bs cmp w bar j k = Dipped j' \<Longrightarrow> j \<le> j' \<and> j' < j + k"
  by (induction rnd bs cmp w bar j k rule: hold_loop.induct) (auto split: if_splits option.splits)

text \<open>Episodes below the exit bar after recovery; an episode ends at the entry bar.\<close>

fun redegrade :: "rat \<Rightarrow> rat \<Rightarrow> rat option list \<Rightarrow> bool \<Rightarrow> nat \<Rightarrow> nat" where
  "redegrade exitBar entryBar [] below n = n"
| "redegrade exitBar entryBar (None # ws) below n = redegrade exitBar entryBar ws below n"
| "redegrade exitBar entryBar (Some hw # ws) below n =
     (if hw < exitBar \<and> \<not> below then redegrade exitBar entryBar ws True (Suc n)
      else if entryBar \<le> hw then redegrade exitBar entryBar ws False n
      else redegrade exitBar entryBar ws below n)"

text \<open>The scan for an entry from index \<open>i\<close>: the entry index found, \<open>None\<close> with whether the scan ended
  unobserved; and the cancelled entries.\<close>

function scan :: "(rat \<Rightarrow> rat) \<Rightarrow> bucket list \<Rightarrow> component \<Rightarrow> int \<Rightarrow> int \<Rightarrow> rat \<Rightarrow> nat \<Rightarrow> nat \<Rightarrow> nat \<Rightarrow> (nat option \<times> bool) \<times> nat" where
  "scan rnd bs cmp windowS holdS bar i lst canceled =
     (if lst \<le> i then ((None, False), canceled)
      else case entryVerdict rnd bs i windowS cmp bar of (candidate, unobserved) \<Rightarrow>
        if unobserved then ((None, True), canceled)
        else if \<not> candidate then scan rnd bs cmp windowS holdS bar (Suc i) lst canceled
        else case hold_loop rnd bs cmp windowS bar (Suc i) (nat holdS) of
          Held \<Rightarrow> ((Some i, False), canceled)
        | Cut \<Rightarrow> ((None, True), canceled)
        | Dipped j \<Rightarrow> scan rnd bs cmp windowS holdS bar (Suc j) lst (Suc canceled))"
  by pat_completeness auto
termination
  by (relation "measure (\<lambda>(rnd, bs, cmp, w, h, bar, i, lst, c). lst - i)") (auto dest: hold_loop_dip)

declare scan.simps [simp del]

definition scan_first :: "bucket list \<Rightarrow> int \<Rightarrow> nat" where
  "scan_first bs scanFromNs = nat (go_div (scanFromNs - b_StartNs (hd bs) + nsPerSec - 1) nsPerSec)"

definition scan_last :: "bucket list \<Rightarrow> int \<Rightarrow> nat" where
  "scan_last bs timeoutNs = min (nat (go_div (timeoutNs - b_StartNs (hd bs)) nsPerSec)) (length bs)"

definition entry_bar :: "(rat \<Rightarrow> rat) \<Rightarrow> rat \<Rightarrow> params \<Rightarrow> rat" where
  "entry_bar rnd baseline p = rnd (rnd (baseline * rnd (of_int (p_EntryPct p))) / 100)"

definition exit_bar :: "(rat \<Rightarrow> rat) \<Rightarrow> rat \<Rightarrow> params \<Rightarrow> rat" where
  "exit_bar rnd baseline p = rnd (rnd (baseline * rnd (of_int (p_ExitPct p))) / 100)"

definition detectFrom :: "(rat \<Rightarrow> rat) \<Rightarrow> bucket list \<Rightarrow> component \<Rightarrow> rat \<Rightarrow> int \<Rightarrow> int \<Rightarrow> int \<Rightarrow> params \<Rightarrow> detection" where
  "detectFrom rnd bs cmp baseline fireAnchorNs scanFromNs timeoutNs p =
     (let det = new_detection baseline p
      in if bs = [] \<or> baseline \<le> 0 then det\<lparr>d_NotRecovered := True\<rparr>
         else
           let bar = entry_bar rnd baseline p; lst = scan_last bs timeoutNs
           in case scan rnd bs cmp (p_WindowS p) (p_HoldS p) bar (scan_first bs scanFromNs) lst 0 of
                ((Some i, _), c) \<Rightarrow>
                  let at_ns = b_StartNs (bs ! i)
                  in det\<lparr>d_CanceledEntries := c, d_RecoveredAtNs := Some at_ns,
                         d_TTRSeconds := Some (rnd (rnd (of_int (at_ns - fireAnchorNs)) / 1000000000)),
                         d_ReDegradations := redegrade (exit_bar rnd baseline p) bar
                           (map (\<lambda>j. windowRatio rnd bs j (p_WindowS p) cmp) [i + nat (p_HoldS p) + 1..<lst]) False 0\<rparr>
              | ((None, True), c) \<Rightarrow> det\<lparr>d_CanceledEntries := c, d_HoldUnobserved := True\<rparr>
              | ((None, False), c) \<Rightarrow> det\<lparr>d_CanceledEntries := c, d_NotRecovered := True\<rparr>)"

definition detect :: "(rat \<Rightarrow> rat) \<Rightarrow> bucket list \<Rightarrow> component \<Rightarrow> rat \<Rightarrow> int \<Rightarrow> int \<Rightarrow> params \<Rightarrow> detection" where
  "detect rnd bs cmp baseline fireAnchorNs timeoutNs p =
     detectFrom rnd bs cmp baseline fireAnchorNs fireAnchorNs timeoutNs p"

section \<open>The series\<close>

definition slot :: "int \<Rightarrow> request \<Rightarrow> nat" where
  "slot t0 r = nat ((r_IntendedNs r - t0) div nsPerSec)"

definition in_slot :: "int \<Rightarrow> int \<Rightarrow> nat \<Rightarrow> request \<Rightarrow> bool" where
  "in_slot t0 t1 i r \<longleftrightarrow> t0 \<le> r_IntendedNs r \<and> r_IntendedNs r < t1 \<and> slot t0 r = i"

definition bucket_of :: "slo_config \<Rightarrow> request list \<Rightarrow> bucket \<Rightarrow> bucket" where
  "bucket_of slo rs b = foldl (\<lambda>b r. add_to_bucket slo r b) b rs"

lemma fill_buckets_spec:
  "(\<And>r. r \<in> set rs \<Longrightarrow> t0 \<le> r_IntendedNs r \<Longrightarrow> r_IntendedNs r < t1 \<Longrightarrow> slot t0 r < length bs) \<Longrightarrow>
   \<exists>bs'. fill_buckets slo t0 t1 rs bs = Some bs' \<and> length bs' = length bs
     \<and> (\<forall>i<length bs. bs' ! i = bucket_of slo (filter (in_slot t0 t1 i) rs) (bs ! i))"
proof (induction rs arbitrary: bs)
  case Nil
  then show ?case by (simp add: bucket_of_def)
next
  case (Cons r rs)
  show ?case
  proof (cases "r_IntendedNs r < t0 \<or> t1 \<le> r_IntendedNs r")
    case True
    then have skip: "\<not> in_slot t0 t1 i r" for i by (auto simp: in_slot_def)
    have "\<exists>bs'. fill_buckets slo t0 t1 rs bs = Some bs' \<and> length bs' = length bs
        \<and> (\<forall>i<length bs. bs' ! i = bucket_of slo (filter (in_slot t0 t1 i) rs) (bs ! i))"
      by (rule Cons.IH) (use Cons.prems in auto)
    with True skip show ?thesis by simp
  next
    case False
    let ?k = "slot t0 r"
    have k: "?k < length bs" using Cons.prems [of r] False by simp
    have idx: "go_div (r_IntendedNs r - t0) nsPerSec = int ?k"
      using False by (simp add: go_div_nonneg slot_def)
    let ?bs = "bs[?k := add_to_bucket slo r (bs ! ?k)]"
    obtain bs' where bs': "fill_buckets slo t0 t1 rs ?bs = Some bs'" "length bs' = length bs"
      and nth: "\<forall>i<length bs. bs' ! i = bucket_of slo (filter (in_slot t0 t1 i) rs) (?bs ! i)"
      using Cons.IH [of ?bs] Cons.prems by auto
    have "fill_buckets slo t0 t1 (r # rs) bs = Some bs'" using False k bs'(1) by (simp add: idx Let_def go_nth_def)
    moreover have "bs' ! i = bucket_of slo (filter (in_slot t0 t1 i) (r # rs)) (bs ! i)" if "i < length bs" for i
      using that nth False k by (auto simp: in_slot_def bucket_of_def nth_list_update)
    ultimately show ?thesis using bs'(2) by blast
  qed
qed

lemma bucket_of_counts:
  "b_Scheduled (bucket_of slo rs b) = b_Scheduled b + int (length rs)"
  "b_StartNs (bucket_of slo rs b) = b_StartNs b"
  "b_Completed (bucket_of slo rs b) = b_Completed b + int (length (filter completed rs))"
  "b_Errored (bucket_of slo rs b) = b_Errored b + int (length (filter (\<lambda>r. r_Outcome r = OutcomeErrored) rs))"
  unfolding bucket_of_def
  by (induction rs arbitrary: b) (simp_all add: add_to_bucket_def Let_def split: outcome.split)

lemma bucket_of_good:
  "b_Good b \<le> b_GoodTTFT b \<and> b_Good b \<le> b_GoodE2E b \<and> b_GoodTTFT b \<le> b_Completed b \<and> b_GoodE2E b \<le> b_Completed b
     \<and> b_Completed b + b_Errored b \<le> b_Scheduled b \<and> 0 \<le> b_Good b \<Longrightarrow>
   (let c = bucket_of slo rs b in b_Good c \<le> b_GoodTTFT c \<and> b_Good c \<le> b_GoodE2E c \<and> b_GoodTTFT c \<le> b_Completed c
     \<and> b_GoodE2E c \<le> b_Completed c \<and> b_Completed c + b_Errored c \<le> b_Scheduled c \<and> 0 \<le> b_Good c)"
proof (induction rs arbitrary: b)
  case (Cons r rs)
  have "bucket_of slo (r # rs) b = bucket_of slo rs (add_to_bucket slo r b)" by (simp add: bucket_of_def)
  then show ?case
    using Cons.IH [of "add_to_bucket slo r b"] Cons.prems
    by (simp add: add_to_bucket_def incr_def Let_def split: outcome.split_asm outcome.split)
qed (simp add: bucket_of_def)

text \<open>The series of a non-empty interval.\<close>

lemma BuildSeries_spec:
  assumes "t0 < t1"
  defines "n \<equiv> nat ((t1 - t0 + nsPerSec - 1) div nsPerSec)"
  obtains bs where "BuildSeries slo rs t0 t1 = Some bs" and "length bs = n"
    and "\<And>i. i < n \<Longrightarrow> bs ! i = bucket_of slo (filter (in_slot t0 t1 i) rs) (empty_bucket (t0 + int i * nsPerSec))"
proof -
  let ?e = "map (\<lambda>i. empty_bucket (t0 + int i * nsPerSec)) [0..<n]"
  have d: "go_div (t1 - t0 + nsPerSec - 1) nsPerSec = (t1 - t0 + nsPerSec - 1) div nsPerSec"
    using assms(1) by (simp add: go_div_nonneg)
  have pos: "0 < (t1 - t0 + nsPerSec - 1) div nsPerSec" using assms(1) by linarith
  have "slot t0 r < length ?e" if "t0 \<le> r_IntendedNs r" "r_IntendedNs r < t1" for r
  proof -
    have "(r_IntendedNs r - t0) div nsPerSec < (t1 - t0 + nsPerSec - 1) div nsPerSec" using that by linarith
    then show ?thesis using that pos by (simp add: slot_def n_def zless_nat_eq_int_zless pos_imp_zdiv_nonneg_iff)
  qed
  then obtain bs where "fill_buckets slo t0 t1 rs ?e = Some bs" "length bs = n"
    "\<forall>i<n. bs ! i = bucket_of slo (filter (in_slot t0 t1 i) rs) (?e ! i)"
    using fill_buckets_spec [of rs t0 t1 ?e slo] by auto
  moreover have "BuildSeries slo rs t0 t1 = fill_buckets slo t0 t1 rs ?e"
    unfolding BuildSeries_def Let_def d n_def using pos by (simp only: not_le [symmetric] if_False)
  ultimately show thesis by (intro that [of bs]) simp_all
qed

section \<open>The scan finds the first held entry\<close>

definition window_good :: "(rat \<Rightarrow> rat) \<Rightarrow> bucket list \<Rightarrow> component \<Rightarrow> int \<Rightarrow> rat \<Rightarrow> nat \<Rightarrow> bool" where
  "window_good rnd bs cmp w bar j \<longleftrightarrow>
     int j + w \<le> int (length bs) \<and> (\<exists>hw. windowRatio rnd bs j w cmp = Some hw \<and> bar \<le> hw)"

definition held_at :: "(rat \<Rightarrow> rat) \<Rightarrow> bucket list \<Rightarrow> component \<Rightarrow> int \<Rightarrow> int \<Rightarrow> rat \<Rightarrow> nat \<Rightarrow> bool" where
  "held_at rnd bs cmp w h bar i \<longleftrightarrow> (\<forall>j. i \<le> j \<and> j \<le> i + nat h \<longrightarrow> window_good rnd bs cmp w bar j)"

lemma observed_full:
  "i < length bs \<Longrightarrow> 1 \<le> w \<Longrightarrow> (int (length (win bs i w)) = w \<longleftrightarrow> int i + w \<le> int (length bs))"
  "int (length (win bs i w)) \<le> max 0 w"
  "i < length bs \<Longrightarrow> 1 \<le> w \<Longrightarrow> win bs i w \<noteq> []"
  by (auto simp: win_def min_def)

lemma entryVerdict_candidate:
  assumes "1 \<le> w" and "i < length bs" and "\<forall>b\<in>set bs. 0 \<le> snd (cmp b)"
  shows "fst (entryVerdict rnd bs i w cmp bar) \<longleftrightarrow> window_good rnd bs cmp w bar i"
proof -
  have "0 \<le> sum_list (map (snd \<circ> cmp) (win bs i w))"
    using assms(3) by (intro sum_list_nonneg) (auto simp: win_def dest!: in_set_takeD in_set_dropD)
  then show ?thesis
    using observed_full(1,3) [OF assms(2,1)]
    by (auto simp: entryVerdict_def window_good_def windowRatio_def windowSums_def Let_def split: if_splits)
qed

lemma entryVerdict_unobserved:
  assumes "1 \<le> w" and "i < length bs" and "snd (entryVerdict rnd bs i w cmp bar)"
  shows "int (length bs) < int i + w"
  using assms(3) observed_full(1,3) [OF assms(2,1)] observed_full(2) [of bs i w] assms(1)
  by (auto simp: entryVerdict_def windowSums_def Let_def split: if_splits)

lemma hold_loop_cases:
  "hold_loop rnd bs cmp w bar j k = Held \<Longrightarrow> \<forall>x. j \<le> x \<and> x < j + k \<longrightarrow> window_good rnd bs cmp w bar x"
  "hold_loop rnd bs cmp w bar j k = Cut \<Longrightarrow> int (length bs) < int (j + k - 1) + w \<and> 0 < k"
  "hold_loop rnd bs cmp w bar j k = Dipped d \<Longrightarrow> \<not> window_good rnd bs cmp w bar d"
proof (induction rnd bs cmp w bar j k rule: hold_loop.induct)
  case (2 rnd bs cmp w bar j k)
  {
    case 1
    then obtain hw where hw: "int j + w \<le> int (length bs)" "windowRatio rnd bs j w cmp = Some hw" "bar \<le> hw"
      "hold_loop rnd bs cmp w bar (Suc j) k = Held" by (auto split: if_splits option.splits)
    then have "\<forall>x. Suc j \<le> x \<and> x < Suc j + k \<longrightarrow> window_good rnd bs cmp w bar x" using "2.IH"(1) by auto
    moreover have "window_good rnd bs cmp w bar j" using hw by (auto simp: window_good_def)
    ultimately show ?case by (metis Suc_leI add_Suc add_Suc_right le_neq_implies_less)
  next
    case 2
    show ?case
    proof (cases "int (length bs) < int j + w")
      case True
      then show ?thesis by simp
    next
      case False
      with 2 have "hold_loop rnd bs cmp w bar (Suc j) k = Cut" by (auto split: if_splits option.splits)
      with False 2 "2.IH"(2) show ?thesis by (auto split: if_splits option.splits)
    qed
  next
    case 3
    then show ?case using "2.IH"(3) by (auto simp: window_good_def split: if_splits option.splits)
  }
qed auto

lemma scan_spec:
  assumes "1 \<le> w" and "0 \<le> h" and "\<forall>b\<in>set bs. 0 \<le> snd (cmp b)" and "lst \<le> length bs"
  shows "case scan rnd bs cmp w h bar i lst c of
     ((Some e, u), _) \<Rightarrow> \<not> u \<and> i \<le> e \<and> e < lst \<and> held_at rnd bs cmp w h bar e \<and> (\<forall>k. i \<le> k \<and> k < e \<longrightarrow> \<not> held_at rnd bs cmp w h bar k)
   | ((None, u), _) \<Rightarrow> (\<forall>k. i \<le> k \<and> k < lst \<longrightarrow> \<not> held_at rnd bs cmp w h bar k)"
  using assms
proof (induction rnd bs cmp w h bar i lst c rule: scan.induct)
  case (1 rnd bs cmp w h bar i lst c)
  let ?held = "held_at rnd bs cmp w h bar" and ?good = "window_good rnd bs cmp w bar"
  have held_good: "?held k \<Longrightarrow> k \<le> j \<Longrightarrow> j \<le> k + nat h \<Longrightarrow> ?good j" for k j by (simp add: held_at_def)
  have widen: "case r of
       ((Some e, u), _) \<Rightarrow> \<not> u \<and> i \<le> e \<and> e < lst \<and> ?held e \<and> (\<forall>k. i \<le> k \<and> k < e \<longrightarrow> \<not> ?held k)
     | ((None, u), _) \<Rightarrow> (\<forall>k. i \<le> k \<and> k < lst \<longrightarrow> \<not> ?held k)"
    if "case r of
       ((Some e, u), _) \<Rightarrow> \<not> u \<and> i' \<le> e \<and> e < lst \<and> ?held e \<and> (\<forall>k. i' \<le> k \<and> k < e \<longrightarrow> \<not> ?held k)
     | ((None, u), _) \<Rightarrow> (\<forall>k. i' \<le> k \<and> k < lst \<longrightarrow> \<not> ?held k)"
      and "\<And>k. i \<le> k \<Longrightarrow> k < i' \<Longrightarrow> \<not> ?held k" and "i \<le> i'" for r :: "(nat option \<times> bool) \<times> nat" and i'
    using that by (auto split: prod.splits option.splits) (meson linorder_not_le)+
  show ?case
  proof (cases "lst \<le> i")
    case True
    then show ?thesis by (auto simp: scan.simps [of rnd bs cmp w h bar i lst c])
  next
    case in_range: False
    then have i: "i < length bs" using "1.prems"(4) by simp
    obtain cand unobs where v: "entryVerdict rnd bs i w cmp bar = (cand, unobs)" by fastforce
    have cand: "cand \<longleftrightarrow> ?good i" using entryVerdict_candidate [OF "1.prems"(1) i "1.prems"(3), of rnd bar] v by simp
    note step = scan.simps [of rnd bs cmp w h bar i lst c]
    show ?thesis
    proof (cases "unobs \<or> hold_loop rnd bs cmp w bar (Suc i) (nat h) = Cut \<and> cand")
      case True
      have cut: "int (length bs) < int i + h + w"
        using True entryVerdict_unobserved [OF "1.prems"(1) i, of rnd cmp bar] v
          hold_loop_cases(2) [of rnd bs cmp w bar "Suc i" "nat h"] "1.prems"(2) by auto
      have "\<not> ?held k" if "i \<le> k" for k
      proof
        assume "?held k"
        then have "?good (k + nat h)" by (rule held_good) simp_all
        with cut that "1.prems"(2) show False by (simp add: window_good_def)
      qed
      moreover have "fst (scan rnd bs cmp w h bar i lst c) = (None, True)"
        using True in_range v by (auto simp: step)
      ultimately show ?thesis by (auto split: prod.splits option.splits)
    next
      case False
      then have nu: "\<not> unobs" by simp
      show ?thesis
      proof (cases cand)
        case False
        with cand have "\<not> ?held i" using held_good [of i i] by auto
        then have "\<not> ?held k" if "i \<le> k" "k < Suc i" for k using that le_antisym by (metis less_Suc_eq_le)
        moreover have "scan rnd bs cmp w h bar i lst c = scan rnd bs cmp w h bar (Suc i) lst c"
          using in_range v nu False by (simp add: step)
        ultimately show ?thesis
          using widen [OF "1.IH"(1) [OF in_range v [symmetric] nu False "1.prems"]] by simp
      next
        case isc: True
        show ?thesis
        proof (cases "hold_loop rnd bs cmp w bar (Suc i) (nat h)")
          case Held
          have "?held i"
            unfolding held_at_def using hold_loop_cases(1) [OF Held] isc cand
            by (metis Suc_leI add_Suc le_imp_less_Suc le_neq_implies_less)
          with Held in_range v nu isc show ?thesis by (auto simp: step)
        next
          case (Dipped d)
          have d: "Suc i \<le> d" "d < Suc i + nat h" using hold_loop_dip [OF Dipped] by auto
          have none: "\<not> ?held k" if "i \<le> k" "k \<le> d" for k
            using held_good [of k d] hold_loop_cases(3) [OF Dipped] that d by auto
          have eq: "scan rnd bs cmp w h bar i lst c = scan rnd bs cmp w h bar (Suc d) lst (Suc c)"
            using Dipped in_range v nu isc by (simp add: step)
          show ?thesis
            unfolding eq using isc none d
            by (intro widen [OF "1.IH"(2) [OF in_range v [symmetric] nu _ Dipped "1.prems"]]) auto
        next
          case Cut
          with False isc show ?thesis by simp
        qed
      qed
    qed
  qed
qed

section \<open>Properties\<close>

text \<open>Claim C30. The series is total and conserves the traffic: no request indexes a bucket out of
  range, bucket \<open>i\<close> starts \<open>i\<close> seconds in and counts exactly the requests intended in its second, and
  in every bucket the good are among the completed, and completed and errored among the scheduled.\<close>

theorem series_buckets_every_request:
  assumes "t0 < t1"
  shows "\<exists>bs. BuildSeries slo rs t0 t1 = Some bs
    \<and> int (length bs) = (t1 - t0 + nsPerSec - 1) div nsPerSec
    \<and> (\<forall>i<length bs. b_StartNs (bs ! i) = t0 + int i * nsPerSec
         \<and> b_Scheduled (bs ! i) = int (length (filter (in_slot t0 t1 i) rs))
         \<and> b_Good (bs ! i) \<le> b_GoodTTFT (bs ! i) \<and> b_Good (bs ! i) \<le> b_GoodE2E (bs ! i)
         \<and> b_GoodTTFT (bs ! i) \<le> b_Completed (bs ! i) \<and> b_GoodE2E (bs ! i) \<le> b_Completed (bs ! i)
         \<and> b_Completed (bs ! i) + b_Errored (bs ! i) \<le> b_Scheduled (bs ! i))
    \<and> (\<forall>r\<in>set rs. t0 \<le> r_IntendedNs r \<and> r_IntendedNs r < t1 \<longrightarrow> (\<exists>i<length bs. in_slot t0 t1 i r))"
proof -
  define n where "n = nat ((t1 - t0 + nsPerSec - 1) div nsPerSec)"
  obtain bs where bs: "BuildSeries slo rs t0 t1 = Some bs" and len: "length bs = n"
    and nth: "\<And>i. i < n \<Longrightarrow> bs ! i = bucket_of slo (filter (in_slot t0 t1 i) rs) (empty_bucket (t0 + int i * nsPerSec))"
    using BuildSeries_spec [OF assms, of slo rs] unfolding n_def by blast
  have n: "int n = (t1 - t0 + nsPerSec - 1) div nsPerSec"
    unfolding n_def using assms by (simp add: pos_imp_zdiv_nonneg_iff)
  have "b_Good (bs ! i) \<le> b_GoodTTFT (bs ! i) \<and> b_Good (bs ! i) \<le> b_GoodE2E (bs ! i)
         \<and> b_GoodTTFT (bs ! i) \<le> b_Completed (bs ! i) \<and> b_GoodE2E (bs ! i) \<le> b_Completed (bs ! i)
         \<and> b_Completed (bs ! i) + b_Errored (bs ! i) \<le> b_Scheduled (bs ! i)
         \<and> b_StartNs (bs ! i) = t0 + int i * nsPerSec
         \<and> b_Scheduled (bs ! i) = int (length (filter (in_slot t0 t1 i) rs))" if "i < n" for i
    using bucket_of_good [of "empty_bucket (t0 + int i * nsPerSec)" slo "filter (in_slot t0 t1 i) rs"]
    unfolding nth [OF that] Let_def bucket_of_counts(1,2) by (simp add: empty_bucket_def)
  moreover have "\<exists>i<n. in_slot t0 t1 i r" if "t0 \<le> r_IntendedNs r \<and> r_IntendedNs r < t1" for r
  proof -
    have "(r_IntendedNs r - t0) div nsPerSec < int n" unfolding n using that by linarith
    then have "slot t0 r < n" using that by (simp add: slot_def nat_less_iff pos_imp_zdiv_nonneg_iff)
    with that show ?thesis by (auto simp: in_slot_def)
  qed
  ultimately show ?thesis
    using bs n unfolding len [symmetric] by (intro exI [of _ bs] conjI allI impI ballI) blast+
qed

theorem series_buckets_every_request_witness:
  "\<exists>bs. BuildSeries (cc_SLO demo_collect) demo_requests 0 1500000000 = Some bs \<and> int (length bs) = 2"
  using series_buckets_every_request [of 0 1500000000 "cc_SLO demo_collect" demo_requests] by auto

text \<open>Claim C13. The detector's verdict is the specification's: recovery is reported exactly when some
  window start in the scanned range is held, that is, its window and the windows of the following
  \<open>HoldS\<close> seconds lie inside the series and are at or above the entry bar. The recovery time is the
  first such start. Otherwise exactly one of not-recovered and unobserved is reported, and never with
  a time to recovery.\<close>

theorem detector_reports_first_held_entry:
  fixes rnd :: "rat \<Rightarrow> rat" and bs :: "bucket list" and cmp :: component and p :: params and baseline :: rat
    and fireAnchorNs scanFromNs timeoutNs :: int
  assumes "1 \<le> p_WindowS p" and "0 \<le> p_HoldS p" and "\<forall>b\<in>set bs. 0 \<le> snd (cmp b)" and "bs \<noteq> []" and "0 < baseline"
  defines "held \<equiv> held_at rnd bs cmp (p_WindowS p) (p_HoldS p) (entry_bar rnd baseline p)"
    and "first \<equiv> scan_first bs scanFromNs" and "lst \<equiv> scan_last bs timeoutNs"
    and "det \<equiv> detectFrom rnd bs cmp baseline fireAnchorNs scanFromNs timeoutNs p"
  shows "case d_RecoveredAtNs det of
      Some t \<Rightarrow> (\<exists>i. first \<le> i \<and> i < lst \<and> held i \<and> (\<forall>k. first \<le> k \<and> k < i \<longrightarrow> \<not> held k) \<and> t = b_StartNs (bs ! i))
        \<and> d_TTRSeconds det \<noteq> None \<and> \<not> d_NotRecovered det \<and> \<not> d_HoldUnobserved det
    | None \<Rightarrow> (\<forall>k. first \<le> k \<and> k < lst \<longrightarrow> \<not> held k)
        \<and> d_TTRSeconds det = None \<and> (d_NotRecovered det \<longleftrightarrow> \<not> d_HoldUnobserved det)"
proof -
  let ?s = "scan rnd bs cmp (p_WindowS p) (p_HoldS p) (entry_bar rnd baseline p) first lst 0"
  obtain r u c where s: "?s = ((r, u), c)" by (metis prod.exhaust)
  have le: "lst \<le> length bs" by (simp add: lst_def scan_last_def)
  note spec = scan_spec [OF assms(1-3) le, where rnd = rnd and bar = "entry_bar rnd baseline p" and i = first and c = 0,
      unfolded s, folded held_def]
  have det: "det = (let d0 = new_detection baseline p in case ((r, u), c) of
                ((Some i, _), c) \<Rightarrow>
                  d0\<lparr>d_CanceledEntries := c, d_RecoveredAtNs := Some (b_StartNs (bs ! i)),
                         d_TTRSeconds := Some (rnd (rnd (of_int (b_StartNs (bs ! i) - fireAnchorNs)) / 1000000000)),
                         d_ReDegradations := redegrade (exit_bar rnd baseline p) (entry_bar rnd baseline p)
                           (map (\<lambda>j. windowRatio rnd bs j (p_WindowS p) cmp) [i + nat (p_HoldS p) + 1..<lst]) False 0\<rparr>
              | ((None, True), c) \<Rightarrow> d0\<lparr>d_CanceledEntries := c, d_HoldUnobserved := True\<rparr>
              | ((None, False), c) \<Rightarrow> d0\<lparr>d_CanceledEntries := c, d_NotRecovered := True\<rparr>)"
    unfolding det_def detectFrom_def Let_def first_def [symmetric] lst_def [symmetric] s using assms(4,5) by simp
  show ?thesis
  proof (cases r)
    case (Some i)
    then show ?thesis using spec by (auto simp: det new_detection_def Let_def)
  next
    case None
    then show ?thesis using spec by (cases u) (auto simp: det new_detection_def Let_def)
  qed
qed

definition demo_params :: params where
  "demo_params = \<lparr>p_WindowS = 1, p_EntryPct = 90, p_ExitPct = 85, p_HoldS = 1\<rparr>"

definition demo_series :: "bucket list" where
  "demo_series =
     [(empty_bucket 0)\<lparr>b_Scheduled := 10, b_Good := 10\<rparr>, (empty_bucket 1000000000)\<lparr>b_Scheduled := 10, b_Good := 1\<rparr>,
      (empty_bucket 2000000000)\<lparr>b_Scheduled := 10, b_Good := 10\<rparr>, (empty_bucket 3000000000)\<lparr>b_Scheduled := 10, b_Good := 9\<rparr>]"

theorem detector_reports_first_held_entry_witness:
  "d_RecoveredAtNs (detectFrom fl demo_series compGoodput 1 0 0 4000000000 demo_params) = Some 2000000000
   \<and> held_at fl demo_series compGoodput 1 1 (entry_bar fl 1 demo_params) 2"
proof -
  have "d_RecoveredAtNs (detectFrom fl demo_series compGoodput 1 0 0 4000000000 demo_params) = Some 2000000000"
    and nth: "scan_last demo_series 4000000000 = 4" "b_StartNs (demo_series ! 0) = 0" "b_StartNs (demo_series ! 1) = 1000000000"
      "b_StartNs (demo_series ! 3) = 3000000000" by code_simp+
  moreover have "\<forall>b\<in>set demo_series. 0 \<le> snd (compGoodput b)" by code_simp
  moreover have "demo_series \<noteq> []" by (simp add: demo_series_def)
  moreover have p: "p_WindowS demo_params = 1" "p_HoldS demo_params = 1" by (simp_all add: demo_params_def)
  ultimately obtain i where i: "i < 4" "held_at fl demo_series compGoodput 1 1 (entry_bar fl 1 demo_params) i"
      "2000000000 = b_StartNs (demo_series ! i)"
    using detector_reports_first_held_entry [where p = demo_params and bs = demo_series and cmp = compGoodput
        and baseline = 1 and rnd = fl and fireAnchorNs = 0 and scanFromNs = 0 and timeoutNs = 4000000000] by auto
  then have "i = 0 \<or> i = 1 \<or> i = 2 \<or> i = 3" by linarith
  then have "i = 2" using i(3) nth by auto
  then show ?thesis
    using i(2) \<open>d_RecoveredAtNs (detectFrom fl demo_series compGoodput 1 0 0 4000000000 demo_params) = Some 2000000000\<close> by simp
qed

end
