(* ===== verification/DetectRun.thy ===== *)
theory DetectRun
  imports Detect
begin

text \<open>
  The run-level analysis of \<^verbatim>\<open>internal/detect/detect.go\<close>: baselines, the integrated deficit,
  \<open>RunWith\<close> with its sensitivity sweep and component detections, and the recovery decomposition table.
\<close>

section \<open>Baselines and deficit\<close>

definition baselineOver :: "(rat \<Rightarrow> rat) \<Rightarrow> bucket list \<Rightarrow> component \<Rightarrow> int \<Rightarrow> int \<Rightarrow> rat" where
  "baselineOver rnd bs cmp fromNs toNs =
     (let xs = filter (\<lambda>b. fromNs \<le> b_StartNs b \<and> b_StartNs b < toNs) bs;
          num = sum_list (map (fst \<circ> cmp) xs); den = sum_list (map (snd \<circ> cmp) xs)
      in if den = 0 then 0 else ratio rnd num den)"

definition add_gap :: "(rat \<Rightarrow> rat) \<Rightarrow> component \<Rightarrow> rat \<Rightarrow> int \<Rightarrow> int \<Rightarrow> rat \<Rightarrow> bucket \<Rightarrow> rat" where
  "add_gap rnd cmp baseline fromNs untilNs tot b =
     (if b_StartNs b < fromNs \<or> untilNs \<le> b_StartNs b then tot
      else case cmp b of (n, d) \<Rightarrow>
        if d = 0 then tot
        else let gap = rnd (baseline - ratio rnd n d) in if 0 < gap then rnd (tot + gap) else tot)"

definition deficit :: "(rat \<Rightarrow> rat) \<Rightarrow> bucket list \<Rightarrow> component \<Rightarrow> rat \<Rightarrow> int \<Rightarrow> int \<Rightarrow> rat" where
  "deficit rnd bs cmp baseline fireAnchorNs untilNs = foldl (add_gap rnd cmp baseline fireAnchorNs untilNs) 0 bs"

section \<open>The analysis of a run\<close>

record detector_config =
  dc_Params :: params
  dc_SensEntryPct :: "int list"
  dc_SensWindowS :: "int list"
  dc_SensHoldS :: "int list"

record sensitivity_row =
  sr_Params :: params
  sr_TTRToPreFault :: "rat option"
  sr_TTRToEquilibrium :: "rat option"
  sr_NotRecoveredPre :: bool
  sr_NotRecoveredEq :: bool
  sr_HoldUnobservedPre :: bool
  sr_HoldUnobservedEq :: bool
  sr_TTRPartitionHeal :: "rat option"
  sr_NotRecoveredHeal :: bool
  sr_HoldUnobservedHeal :: bool

record detect_input =
  in_Buckets :: "bucket list"
  in_WarmupEndNs :: int
  in_FireAnchorNs :: int
  in_TimeoutNs :: int
  in_PreFaultBaseline :: "rat option"
  in_HealNs :: "int option"

record detect_result =
  dr_PreFaultBaseline :: rat
  dr_EquilibriumBaseline :: rat
  dr_EquilibriumEstimable :: bool
  dr_EquilibriumWindowStartS :: rat
  dr_EquilibriumWindowEndS :: rat
  dr_EquilibriumNote :: string
  dr_ToPreFault :: detection
  dr_ToEquilibrium :: detection
  dr_PartitionHealRecovery :: "detection option"
  dr_HealAnchorNs :: "int option"
  dr_DeficitToPartitionHeal :: "rat option"
  dr_DeficitToPreFault :: rat
  dr_DeficitToEquilibrium :: rat
  dr_Sensitivity :: "sensitivity_row list"
  dr_Components :: "(string \<times> detection) list"
  dr_BacklogDrainMeasured :: bool
  dr_BacklogDrainNote :: string

definition recovered_or :: "int \<Rightarrow> detection \<Rightarrow> int" where
  "recovered_or timeoutNs d = (case d_RecoveredAtNs d of None \<Rightarrow> timeoutNs | Some t \<Rightarrow> t)"

definition aligned_guard :: "bucket list \<Rightarrow> int \<Rightarrow> int" where
  "aligned_guard bs guardStartNs =
     (let origin = (if bs = [] then 0 else b_StartNs (hd bs))
      in origin + go_div (guardStartNs - origin) nsPerSec * nsPerSec)"

definition pre_fault :: "(rat \<Rightarrow> rat) \<Rightarrow> collect_config \<Rightarrow> detect_input \<Rightarrow> rat" where
  "pre_fault rnd cfg inp =
     (case in_PreFaultBaseline inp of
        Some b \<Rightarrow> b
      | None \<Rightarrow> baselineOver rnd (in_Buckets inp) compGoodput (in_WarmupEndNs inp)
                  (aligned_guard (in_Buckets inp) (GuardStartNs cfg (in_FireAnchorNs inp) (in_WarmupEndNs inp))))"

text \<open>The black-hole variant: the heal anchor not before the fire, the detection from it and the
  deficit up to it.\<close>

definition heal_anchor :: "detect_input \<Rightarrow> int option" where
  "heal_anchor inp = map_option (\<lambda>h. if h < in_FireAnchorNs inp then in_FireAnchorNs inp else h) (in_HealNs inp)"

definition plateau_end :: "int \<Rightarrow> detection \<Rightarrow> int" where
  "plateau_end timeoutNs d =
     (case d_RecoveredAtNs d of None \<Rightarrow> timeoutNs | Some t \<Rightarrow> if t < timeoutNs then t else timeoutNs)"

text \<open>The equilibrium over the degraded plateau: baseline, estimable, note.\<close>

definition equilibrium :: "(rat \<Rightarrow> rat) \<Rightarrow> bucket list \<Rightarrow> params \<Rightarrow> int \<Rightarrow> int \<Rightarrow> rat \<times> bool \<times> string" where
  "equilibrium rnd bs p plateauStart plateauEnd =
     (if p_WindowS p * nsPerSec \<le> plateauEnd - plateauStart
      then let b = baselineOver rnd bs compGoodput plateauStart plateauEnd
           in (b, 0 < b, if 0 < b then [] else ''no service during the degraded plateau; single-replica equilibrium undefined for this run'')
      else (0, False, ''degraded plateau shorter than R; single-replica equilibrium not estimable for this run''))"

definition sensitivity_at :: "(rat \<Rightarrow> rat) \<Rightarrow> detect_input \<Rightarrow> rat \<Rightarrow> rat \<Rightarrow> bool \<Rightarrow> params \<Rightarrow> sensitivity_row" where
  "sensitivity_at rnd inp pre eq estimable sp =
     (let bs = in_Buckets inp; fire = in_FireAnchorNs inp; tmo = in_TimeoutNs inp;
          dp = detect rnd bs compGoodput pre fire tmo sp;
          de = (if estimable then Some (detect rnd bs compGoodput eq fire tmo sp) else None);
          dh = map_option (\<lambda>h. detectFrom rnd bs compGoodput pre fire h tmo sp) (heal_anchor inp)
      in \<lparr>sr_Params = sp, sr_TTRToPreFault = d_TTRSeconds dp,
          sr_TTRToEquilibrium = (case de of None \<Rightarrow> None | Some d \<Rightarrow> d_TTRSeconds d),
          sr_NotRecoveredPre = d_NotRecovered dp,
          sr_NotRecoveredEq = (case de of None \<Rightarrow> False | Some d \<Rightarrow> d_NotRecovered d),
          sr_HoldUnobservedPre = d_HoldUnobserved dp,
          sr_HoldUnobservedEq = (case de of None \<Rightarrow> False | Some d \<Rightarrow> d_HoldUnobserved d),
          sr_TTRPartitionHeal = (case dh of None \<Rightarrow> None | Some d \<Rightarrow> d_TTRSeconds d),
          sr_NotRecoveredHeal = (case dh of None \<Rightarrow> False | Some d \<Rightarrow> d_NotRecovered d),
          sr_HoldUnobservedHeal = (case dh of None \<Rightarrow> False | Some d \<Rightarrow> d_HoldUnobserved d)\<rparr>)"

definition sweep_params :: "detector_config \<Rightarrow> params list" where
  "sweep_params dc =
     concat (map (\<lambda>x. concat (map (\<lambda>r. map (\<lambda>h.
       \<lparr>p_WindowS = r, p_EntryPct = x, p_ExitPct = p_ExitPct (dc_Params dc), p_HoldS = h\<rparr>)
         (dc_SensHoldS dc)) (dc_SensWindowS dc))) (dc_SensEntryPct dc))"

definition RunWith :: "(rat \<Rightarrow> rat) \<Rightarrow> collect_config \<Rightarrow> detector_config \<Rightarrow> detect_input \<Rightarrow> detect_result" where
  "RunWith rnd cfg dc inp =
     (let bs = in_Buckets inp; fire = in_FireAnchorNs inp; tmo = in_TimeoutNs inp; p = dc_Params dc;
          pre = pre_fault rnd cfg inp;
          toPre = detect rnd bs compGoodput pre fire tmo p;
          healDet = map_option (\<lambda>h. detectFrom rnd bs compGoodput pre fire h tmo p) (heal_anchor inp);
          plateauStart = fire + p_WindowS p * nsPerSec;
          plateauEnd = plateau_end tmo toPre
      in case equilibrium rnd bs p plateauStart plateauEnd of (eq, estimable, eqNote) \<Rightarrow>
        let toEq = (if estimable then detect rnd bs compGoodput eq fire tmo p else new_detection eq p);
            guardEnd = aligned_guard bs (GuardStartNs cfg fire (in_WarmupEndNs inp));
            compDet = (\<lambda>cmp. detect rnd bs cmp (baselineOver rnd bs cmp (in_WarmupEndNs inp) guardEnd) fire tmo p)
        in \<lparr>dr_PreFaultBaseline = pre, dr_EquilibriumBaseline = eq, dr_EquilibriumEstimable = estimable,
            dr_EquilibriumWindowStartS = rnd (rnd (of_int plateauStart) / 1000000000),
            dr_EquilibriumWindowEndS = rnd (rnd (of_int plateauEnd) / 1000000000),
            dr_EquilibriumNote = eqNote, dr_ToPreFault = toPre, dr_ToEquilibrium = toEq,
            dr_PartitionHealRecovery = healDet, dr_HealAnchorNs = heal_anchor inp,
            dr_DeficitToPartitionHeal = map_option (\<lambda>d. deficit rnd bs compGoodput pre fire (recovered_or tmo d)) healDet,
            dr_DeficitToPreFault = deficit rnd bs compGoodput pre fire (recovered_or tmo toPre),
            dr_DeficitToEquilibrium =
              (if estimable then deficit rnd bs compGoodput eq fire (recovered_or tmo toEq) else 0),
            dr_Sensitivity = map (sensitivity_at rnd inp pre eq estimable) (sweep_params dc),
            dr_Components = [(''ttft_slo'', compDet compTTFTSLO), (''e2e_slo'', compDet compE2ESLO),
                             (''error_rate'', compDet compNonError)],
            dr_BacklogDrainMeasured = False,
            dr_BacklogDrainNote = ''no failed-request backlog exists in the Phase 0 mock (no queue); reported N/A per '' @ [CHR 0xC2, CHR 0xA7] @ ''5''\<rparr>)"

definition Run :: "(rat \<Rightarrow> rat) \<Rightarrow> collect_config \<Rightarrow> detector_config \<Rightarrow> bucket list \<Rightarrow> int \<Rightarrow> int \<Rightarrow> int \<Rightarrow> detect_result" where
  "Run rnd cfg dc bs warmupEndNs fireAnchorNs timeoutNs =
     RunWith rnd cfg dc \<lparr>in_Buckets = bs, in_WarmupEndNs = warmupEndNs, in_FireAnchorNs = fireAnchorNs,
       in_TimeoutNs = timeoutNs, in_PreFaultBaseline = None, in_HealNs = None\<rparr>"

section \<open>The recovery decomposition\<close>

text \<open>Times are instants in nanoseconds.\<close>

record segment =
  sg_Name :: string
  sg_Source :: string
  sg_Measured :: bool
  sg_StartAt :: "int option"
  sg_EndAt :: "int option"
  sg_Note :: string

definition DurationS :: "(rat \<Rightarrow> rat) \<Rightarrow> segment \<Rightarrow> rat option" where
  "DurationS rnd s =
     (if \<not> sg_Measured s then None
      else case (sg_StartAt s, sg_EndAt s) of
        (Some a, Some b) \<Rightarrow> Some (rnd (rnd (of_int (go_div (b - a) nsPerSec))
            + rnd (rnd (of_int ((b - a) - go_div (b - a) nsPerSec * nsPerSec)) / 1000000000)))
      | _ \<Rightarrow> None)"

definition na :: "string \<Rightarrow> string \<Rightarrow> string \<Rightarrow> segment" where
  "na name src note = \<lparr>sg_Name = name, sg_Source = src, sg_Measured = False, sg_StartAt = None, sg_EndAt = None, sg_Note = note\<rparr>"

definition process_kill_segments :: "segment list" where
  "process_kill_segments =
     (let noLog = ''no server log parsed after the fire''; noService = ''one replica addressed directly: no Service''
      in [na ''reschedule'' ''api'' ''no scheduler: the container runtime restarts in place'',
          na ''container_start'' ''api'' ''docker inspect unavailable'',
          na ''log_bringup'' ''log'' noLog, na ''engine_init'' ''log'' noLog, na ''weight_download'' ''log'' noLog,
          na ''weight_load'' ''log'' noLog, na ''torch_compile'' ''log'' noLog, na ''profile_kv_capture'' ''log'' noLog,
          na ''engine_ready'' ''log'' noLog, na ''server_ready'' ''log'' noLog,
          na ''replica_ready'' ''probe'' ''first successful inference against the replica directly, after the fault was visible on that path'',
          na ''traffic_restored'' ''probe'' noService, na ''routing_propagation'' ''probe'' noService,
          na ''goodput_restored'' ''client'' ''from the client stream per the detector''])"

text \<open>The mock variant's notes are given by their segment; the section sign of one note is not ASCII.\<close>

definition mock_segments :: "segment list" where
  "mock_segments =
     [na ''reschedule'' ''api'' ''N/A in Phase 0: mock faults do not delete the pod, so there is no kill-to-scheduled event pair'',
      na ''container_start'' ''api'' ''N/A in Phase 0: no container restart in mock fault scenarios'',
      na ''weight_load'' ''log'' ''N/A in Phase 0: mock has no weight-load log line; boundary is log-derived and reported N/A, never inferred'',
      na ''cuda_graph_capture'' ''log'' ''N/A in Phase 0: zero GPU code paths'',
      na ''replica_ready'' ''probe'' ''first successful inference against the pod IP directly, after the fault was visible on that path'',
      na ''traffic_restored'' ''probe'' ''first successful inference via the Service served by the recovered replica, after the fault was visible'',
      na ''routing_propagation'' ''probe'' (''traffic_restored minus replica_ready ('' @ [CHR 0xC2, CHR 0xA7] @ ''5: reported as its own segment)''),
      na ''goodput_restored'' ''client'' ''from the client stream per the detector'']"

definition NewDecomposition :: "string \<Rightarrow> segment list" where
  "NewDecomposition variant = (if variant = ''process_kill'' then process_kill_segments else mock_segments)"

definition NewPhase0Decomposition :: "segment list" where
  "NewPhase0Decomposition = NewDecomposition ''mock''"

fun SetNote :: "string \<Rightarrow> string \<Rightarrow> segment list \<Rightarrow> segment list" where
  "SetNote name note [] = []"
| "SetNote name note (s # ss) =
     (if sg_Name s = name \<and> \<not> sg_Measured s then s\<lparr>sg_Note := note\<rparr> # ss else s # SetNote name note ss)"

fun SetMeasured :: "string \<Rightarrow> int \<Rightarrow> int \<Rightarrow> segment list \<Rightarrow> segment list" where
  "SetMeasured name t0 t1 [] = []"
| "SetMeasured name t0 t1 (s # ss) =
     (if sg_Name s = name then s\<lparr>sg_Measured := True, sg_StartAt := Some t0, sg_EndAt := Some t1\<rparr> # ss
      else s # SetMeasured name t0 t1 ss)"

section \<open>The deficit\<close>

context rounding
begin

lemma add_gap_fixed: "rnd s = s \<Longrightarrow> rnd (add_gap rnd cmp base a u s b) = add_gap rnd cmp base a u s b"
  by (simp add: add_gap_def Let_def rnd_idem split: prod.split)

lemma add_gap_ge: "rnd s = s \<Longrightarrow> s \<le> add_gap rnd cmp base a u s b"
  by (auto simp: add_gap_def Let_def intro: rnd_add_ge less_imp_le split: prod.split)

lemma add_gap_mono:
  assumes "rnd s' = s'" and "s \<le> s'" and "u \<le> u'"
  shows "add_gap rnd cmp base a u s b \<le> add_gap rnd cmp base a u' s' b"
proof (cases "b_StartNs b < a \<or> u \<le> b_StartNs b")
  case True
  then have "add_gap rnd cmp base a u s b = s" by (simp add: add_gap_def)
  also have "\<dots> \<le> add_gap rnd cmp base a u' s' b" using assms(2) add_gap_ge [OF assms(1)] by (rule order_trans)
  finally show ?thesis .
next
  case False
  then have "\<not> (b_StartNs b < a \<or> u' \<le> b_StartNs b)" using assms(3) by auto
  with False assms(2) show ?thesis by (auto simp: add_gap_def Let_def intro!: rnd_mono split: prod.split)
qed

lemma deficit_mono_aux:
  "rnd s = s \<Longrightarrow> rnd s' = s' \<Longrightarrow> s \<le> s' \<Longrightarrow> u \<le> u' \<Longrightarrow>
     foldl (add_gap rnd cmp base a u) s bs \<le> foldl (add_gap rnd cmp base a u') s' bs"
  by (induction bs arbitrary: s s') (simp_all add: add_gap_fixed add_gap_mono)

lemma deficit_mono: "u \<le> u' \<Longrightarrow> deficit rnd bs cmp base a u \<le> deficit rnd bs cmp base a u'"
  unfolding deficit_def by (rule deficit_mono_aux) (simp_all add: rnd_0)

lemma deficit_nonneg: "0 \<le> deficit rnd bs cmp base a u"
proof -
  have "rnd s = s \<Longrightarrow> s \<le> foldl (add_gap rnd cmp base a u) s bs" for s
  proof (induction bs arbitrary: s)
    case (Cons b bs)
    then show ?case using add_gap_ge [OF Cons.prems, of cmp base a u b] add_gap_fixed [OF Cons.prems, of cmp base a u b]
      by (metis foldl_Cons order_trans)
  qed simp
  then show ?thesis unfolding deficit_def using rnd_0 by simp
qed

lemma add_gap_none:
  "(a \<le> b_StartNs b \<Longrightarrow> b_StartNs b < u \<Longrightarrow> snd (cmp b) = 0 \<or> base \<le> ratio rnd (fst (cmp b)) (snd (cmp b))) \<Longrightarrow>
     add_gap rnd cmp base a u s b = s"
  using rnd_mono [of "base - ratio rnd (fst (cmp b)) (snd (cmp b))" 0]
  by (auto simp: add_gap_def Let_def rnd_0 split: prod.split)

lemma deficit_zero:
  "(\<forall>b\<in>set bs. a \<le> b_StartNs b \<and> b_StartNs b < u \<longrightarrow> snd (cmp b) = 0 \<or> base \<le> ratio rnd (fst (cmp b)) (snd (cmp b))) \<Longrightarrow>
     deficit rnd bs cmp base a u = 0"
proof -
  have "(\<forall>b\<in>set bs. a \<le> b_StartNs b \<and> b_StartNs b < u \<longrightarrow> snd (cmp b) = 0 \<or> base \<le> ratio rnd (fst (cmp b)) (snd (cmp b))) \<Longrightarrow>
      foldl (add_gap rnd cmp base a u) s bs = s" for s
    by (induction bs arbitrary: s) (simp_all add: add_gap_none)
  then show "(\<forall>b\<in>set bs. a \<le> b_StartNs b \<and> b_StartNs b < u \<longrightarrow> snd (cmp b) = 0 \<or> base \<le> ratio rnd (fst (cmp b)) (snd (cmp b))) \<Longrightarrow>
      deficit rnd bs cmp base a u = 0" by (simp add: deficit_def)
qed

end

section \<open>Properties\<close>

text \<open>In float64 the integrated deficit is never negative, never shrinks when the interval is
  extended (so an unrecovered run's deficit bounds a recovered one's), and is zero when every second with traffic
  met the baseline.\<close>

theorem deficit_monotone_nonnegative:
  "0 \<le> deficit fl bs cmp baseline fire until
   \<and> (until \<le> until' \<longrightarrow> deficit fl bs cmp baseline fire until \<le> deficit fl bs cmp baseline fire until')
   \<and> ((\<forall>b\<in>set bs. fire \<le> b_StartNs b \<and> b_StartNs b < until \<longrightarrow> snd (cmp b) = 0 \<or> baseline \<le> ratio fl (fst (cmp b)) (snd (cmp b)))
        \<longrightarrow> deficit fl bs cmp baseline fire until = 0)"
  using f64.deficit_nonneg f64.deficit_mono f64.deficit_zero by blast

theorem deficit_monotone_nonnegative_witness:
  "deficit fl demo_series compGoodput 1 0 1000000000 \<le> deficit fl demo_series compGoodput 1 0 4000000000
   \<and> deficit fl demo_series compGoodput 1 0 1000000000 = 0"
proof -
  have "\<forall>b\<in>set demo_series. 0 \<le> b_StartNs b \<and> b_StartNs b < 1000000000 \<longrightarrow>
      snd (compGoodput b) = 0 \<or> 1 \<le> ratio fl (fst (compGoodput b)) (snd (compGoodput b))" by code_simp
  then show ?thesis
    using deficit_monotone_nonnegative [of demo_series compGoodput 1 0 1000000000 4000000000] by simp
qed

text \<open>On a series of consecutive seconds the recovery time lies between the scan anchor and
  the timeout: a recovery is never dated before the fire, nor, for the partition-heal recovery, before
  the heal, and the time to recovery is not negative.\<close>

theorem recovery_not_before_scan:
  assumes "1 \<le> p_WindowS p" and "0 \<le> p_HoldS p" and "\<forall>b\<in>set bs. 0 \<le> snd (cmp b)"
    and "\<forall>i<length bs. b_StartNs (bs ! i) = b_StartNs (hd bs) + int i * nsPerSec"
    and "d_RecoveredAtNs (detectFrom rnd bs cmp baseline fire scanFrom tmo p) = Some t"
  shows "scanFrom \<le> t \<and> t < tmo"
proof -
  have ne: "bs \<noteq> []" "0 < baseline"
    using assms(5) by (auto simp: detectFrom_def Let_def new_detection_def split: if_splits)
  let ?s = "scan rnd bs cmp (p_WindowS p) (p_HoldS p) (entry_bar rnd baseline p) (scan_first bs scanFrom) (scan_last bs tmo) 0"
  obtain r u c where s: "?s = ((r, u), c)" by (metis prod.exhaust)
  obtain i where r: "r = Some i" and t: "t = b_StartNs (bs ! i)"
    using assms(5) ne s by (cases r; cases u) (auto simp: detectFrom_def Let_def new_detection_def)
  have "scan_last bs tmo \<le> length bs" by (simp add: scan_last_def)
  from scan_spec [OF assms(1-3) this, where rnd = rnd and bar = "entry_bar rnd baseline p" and i = "scan_first bs scanFrom" and c = 0]
  have i: "scan_first bs scanFrom \<le> i" "i < scan_last bs tmo" unfolding s r by simp_all
  have t': "t = b_StartNs (hd bs) + int i * nsPerSec" using assms(4) i(2) t by (simp add: scan_last_def)
  have "scanFrom \<le> t"
  proof (cases "0 \<le> scanFrom - b_StartNs (hd bs)")
    case True
    then have "(scanFrom - b_StartNs (hd bs) + nsPerSec - 1) div nsPerSec \<le> int i"
      using i(1) by (simp add: scan_first_def go_div_nonneg nat_le_iff)
    then show ?thesis unfolding t' by linarith
  next
    case False
    then show ?thesis unfolding t' by simp
  qed
  moreover have "t < tmo"
  proof -
    have pos: "0 < go_div (tmo - b_StartNs (hd bs)) nsPerSec" using i(2) by (auto simp: scan_last_def)
    then have "0 \<le> tmo - b_StartNs (hd bs)" by (rule contrapos_pp) (simp add: go_div_def not_le sgn_if pos_imp_zdiv_nonneg_iff)
    then have "int i < (tmo - b_StartNs (hd bs)) div nsPerSec"
      using i(2) unfolding scan_last_def by (simp add: go_div_nonneg) linarith
    then show ?thesis unfolding t' by linarith
  qed
  ultimately show ?thesis ..
qed

theorem recovery_not_before_scan_witness:
  "(500000000 :: int) \<le> 2000000000 \<and> d_RecoveredAtNs (detectFrom fl demo_series compGoodput 1 0 500000000 4000000000 demo_params) = Some 2000000000"
proof -
  have d: "d_RecoveredAtNs (detectFrom fl demo_series compGoodput 1 0 500000000 4000000000 demo_params) = Some 2000000000" by code_simp
  have "\<forall>b\<in>set demo_series. 0 \<le> snd (compGoodput b)" by code_simp
  moreover have "\<forall>i<length demo_series. b_StartNs (demo_series ! i) = b_StartNs (hd demo_series) + int i * nsPerSec"
    by (simp add: demo_series_def empty_bucket_def less_Suc_eq nth_Cons')
  ultimately show ?thesis using recovery_not_before_scan [OF _ _ _ _ d] d by (auto simp: demo_params_def)
qed

lemma RunWith_fields:
  fixes rnd cfg dc inp
  defines "res \<equiv> RunWith rnd cfg dc inp"
  shows "dr_ToPreFault res = detect rnd (in_Buckets inp) compGoodput (dr_PreFaultBaseline res) (in_FireAnchorNs inp) (in_TimeoutNs inp) (dc_Params dc)"
    and "dr_Sensitivity res = map (sensitivity_at rnd inp (dr_PreFaultBaseline res) (dr_EquilibriumBaseline res) (dr_EquilibriumEstimable res)) (sweep_params dc)"
    and "dr_ToEquilibrium res = (if dr_EquilibriumEstimable res
       then detect rnd (in_Buckets inp) compGoodput (dr_EquilibriumBaseline res) (in_FireAnchorNs inp) (in_TimeoutNs inp) (dc_Params dc)
       else new_detection (dr_EquilibriumBaseline res) (dc_Params dc))"
    and "equilibrium rnd (in_Buckets inp) (dc_Params dc) (in_FireAnchorNs inp + p_WindowS (dc_Params dc) * nsPerSec)
       (plateau_end (in_TimeoutNs inp) (dr_ToPreFault res)) = (dr_EquilibriumBaseline res, dr_EquilibriumEstimable res, dr_EquilibriumNote res)"
    and "dr_EquilibriumEstimable res \<or> dr_DeficitToEquilibrium res = 0"
  unfolding res_def RunWith_def Let_def by (simp_all split: prod.split)

lemma sweep_length: "length (sweep_params dc) = length (dc_SensEntryPct dc) * (length (dc_SensWindowS dc) * length (dc_SensHoldS dc))"
proof -
  have const: "length (concat (map f xs)) = length xs * k" if "\<And>x. length (f x) = k" for f :: "int \<Rightarrow> params list" and xs k
    using that by (induction xs) simp_all
  show ?thesis unfolding sweep_params_def by (simp add: const)
qed

text \<open>The sensitivity sweep has one row per point of the grid, and a row at the pinned
  parameters repeats the headline detections: the pre-fault and, where estimable, the equilibrium
  verdict of that row are those of the run.\<close>

theorem sensitivity_repeats_headline:
  fixes rnd cfg dc inp
  defines "res \<equiv> RunWith rnd cfg dc inp"
  assumes "row \<in> set (dr_Sensitivity res)" and "sr_Params row = dc_Params dc"
  shows "length (dr_Sensitivity res) = length (dc_SensEntryPct dc) * (length (dc_SensWindowS dc) * length (dc_SensHoldS dc))
    \<and> sr_TTRToPreFault row = d_TTRSeconds (dr_ToPreFault res)
    \<and> sr_NotRecoveredPre row = d_NotRecovered (dr_ToPreFault res)
    \<and> sr_HoldUnobservedPre row = d_HoldUnobserved (dr_ToPreFault res)
    \<and> sr_TTRToEquilibrium row = d_TTRSeconds (dr_ToEquilibrium res)
    \<and> sr_NotRecoveredEq row = d_NotRecovered (dr_ToEquilibrium res)"
proof -
  note f = RunWith_fields [where rnd = rnd and cfg = cfg and dc = dc and inp = inp, folded res_def]
  obtain sp where sp: "row = sensitivity_at rnd inp (dr_PreFaultBaseline res) (dr_EquilibriumBaseline res) (dr_EquilibriumEstimable res) sp"
    using assms(2) unfolding f(2) by auto
  then have "sp = dc_Params dc" using assms(3) by (simp add: sensitivity_at_def Let_def)
  with sp have row: "row = sensitivity_at rnd inp (dr_PreFaultBaseline res) (dr_EquilibriumBaseline res) (dr_EquilibriumEstimable res) (dc_Params dc)"
    by simp
  have "length (dr_Sensitivity res) = length (dc_SensEntryPct dc) * (length (dc_SensWindowS dc) * length (dc_SensHoldS dc))"
    unfolding f(2) by (simp add: sweep_length)
  then show ?thesis
    unfolding row f(1,3) by (cases "dr_EquilibriumEstimable res") (simp_all add: sensitivity_at_def Let_def new_detection_def)
qed

definition demo_detector :: detector_config where
  "demo_detector = \<lparr>dc_Params = demo_params, dc_SensEntryPct = [90], dc_SensWindowS = [1], dc_SensHoldS = [1]\<rparr>"

definition demo_input :: detect_input where
  "demo_input = \<lparr>in_Buckets = demo_series, in_WarmupEndNs = 0, in_FireAnchorNs = 0, in_TimeoutNs = 4000000000,
     in_PreFaultBaseline = Some 1, in_HealNs = None\<rparr>"

theorem sensitivity_repeats_headline_witness:
  "sr_TTRToPreFault (hd (dr_Sensitivity (RunWith fl demo_collect demo_detector demo_input))) =
     d_TTRSeconds (dr_ToPreFault (RunWith fl demo_collect demo_detector demo_input))"
proof -
  have rows: "dr_Sensitivity (RunWith fl demo_collect demo_detector demo_input) \<noteq> []"
    unfolding RunWith_fields(2) by (simp add: sweep_params_def demo_detector_def)
  have "sr_Params (hd (dr_Sensitivity (RunWith fl demo_collect demo_detector demo_input))) = dc_Params demo_detector"
    unfolding RunWith_fields(2) by (simp add: sweep_params_def demo_detector_def demo_params_def sensitivity_at_def Let_def)
  with rows show ?thesis using sensitivity_repeats_headline by auto
qed

text \<open>Claim C34. The two baselines never collapse into each other: when the equilibrium is not estimable
  no verdict, time or deficit is reported against it; when it is, the plateau it was estimated over is
  at least \<open>R\<close> long, starts \<open>R\<close> after the fire, and ends no later than the recovery to the pre-fault
  level and the timeout.\<close>

theorem equilibrium_from_degraded_plateau:
  fixes rnd cfg dc inp
  defines "res \<equiv> RunWith rnd cfg dc inp" and "p \<equiv> dc_Params dc"
  shows "if dr_EquilibriumEstimable res
    then \<exists>e. dr_EquilibriumBaseline res = baselineOver rnd (in_Buckets inp) compGoodput (in_FireAnchorNs inp + p_WindowS p * nsPerSec) e
        \<and> 0 < dr_EquilibriumBaseline res \<and> e \<le> in_TimeoutNs inp \<and> in_FireAnchorNs inp + 2 * p_WindowS p * nsPerSec \<le> e
        \<and> (\<forall>t. d_RecoveredAtNs (dr_ToPreFault res) = Some t \<longrightarrow> e \<le> t)
    else d_TTRSeconds (dr_ToEquilibrium res) = None \<and> d_RecoveredAtNs (dr_ToEquilibrium res) = None
        \<and> \<not> d_NotRecovered (dr_ToEquilibrium res) \<and> \<not> d_HoldUnobserved (dr_ToEquilibrium res)
        \<and> dr_DeficitToEquilibrium res = 0 \<and> dr_EquilibriumNote res \<noteq> []
        \<and> (\<forall>row\<in>set (dr_Sensitivity res). sr_TTRToEquilibrium row = None \<and> \<not> sr_NotRecoveredEq row)"
proof -
  note f = RunWith_fields [where rnd = rnd and cfg = cfg and dc = dc and inp = inp, folded res_def p_def]
  let ?e = "plateau_end (in_TimeoutNs inp) (dr_ToPreFault res)"
  have e: "?e \<le> in_TimeoutNs inp" "\<forall>t. d_RecoveredAtNs (dr_ToPreFault res) = Some t \<longrightarrow> ?e \<le> t"
    by (auto simp: plateau_end_def split: option.split)
  show ?thesis
  proof (cases "dr_EquilibriumEstimable res")
    case True
    then have "dr_EquilibriumBaseline res = baselineOver rnd (in_Buckets inp) compGoodput (in_FireAnchorNs inp + p_WindowS p * nsPerSec) ?e
        \<and> 0 < dr_EquilibriumBaseline res \<and> in_FireAnchorNs inp + 2 * p_WindowS p * nsPerSec \<le> ?e"
      using f(4) by (auto simp: equilibrium_def Let_def split: if_splits)
    with True e show ?thesis by auto
  next
    case False
    have "dr_EquilibriumNote res \<noteq> []" using f(4) False by (auto simp: equilibrium_def Let_def split: if_splits)
    with False f(2,3,5) show ?thesis by (auto simp: new_detection_def sensitivity_at_def Let_def)
  qed
qed

theorem equilibrium_from_degraded_plateau_witness:
  "dr_DeficitToEquilibrium (RunWith fl demo_collect demo_detector (demo_input\<lparr>in_Buckets := []\<rparr>)) = 0"
proof -
  have "\<not> dr_EquilibriumEstimable (RunWith fl demo_collect demo_detector (demo_input\<lparr>in_Buckets := []\<rparr>))" by code_simp
  then show ?thesis
    using equilibrium_from_degraded_plateau [of fl demo_collect demo_detector "demo_input\<lparr>in_Buckets := []\<rparr>"] by simp
qed

lemma SetMeasured_map:
  "distinct (map sg_Name ss) \<Longrightarrow> SetMeasured name a b ss =
     map (\<lambda>s. if sg_Name s = name then s\<lparr>sg_Measured := True, sg_StartAt := Some a, sg_EndAt := Some b\<rparr> else s) ss"
proof (induction ss)
  case (Cons s ss)
  show ?case
  proof (cases "sg_Name s = name")
    case True
    with Cons.prems have "name \<notin> sg_Name ` set ss" by simp
    then have "\<forall>x\<in>set ss. sg_Name x \<noteq> name" by blast
    then have "map (\<lambda>s. if sg_Name s = name then s\<lparr>sg_Measured := True, sg_StartAt := Some a, sg_EndAt := Some b\<rparr> else s) ss = ss"
      by (intro map_idI) simp
    with True show ?thesis by simp
  next
    case False
    with Cons show ?thesis by simp
  qed
qed simp

lemma SetNote_measured:
  "map (\<lambda>s. (sg_Name s, sg_Measured s, sg_StartAt s, sg_EndAt s)) (SetNote name remark ss) =
     map (\<lambda>s. (sg_Name s, sg_Measured s, sg_StartAt s, sg_EndAt s)) ss"
  by (induction name remark ss rule: SetNote.induct) simp_all

text \<open>The decomposition claims only measured boundaries: a fresh table has distinct segment
  names and no duration, measuring a segment gives exactly that segment a duration, the boundaries' difference, and
  leaves the others, and a note never changes what was measured.\<close>

theorem decomposition_claims_only_measured:
  "let ss = NewDecomposition variant in
    distinct (map sg_Name ss) \<and> (\<forall>s\<in>set ss. DurationS rnd s = None)
    \<and> (\<forall>s\<in>set (SetMeasured name a b ss). (DurationS rnd s \<noteq> None) = (sg_Name s = name))
    \<and> map sg_Name (SetMeasured name a b ss) = map sg_Name ss
    \<and> map (DurationS rnd) (SetNote name remark (SetMeasured name' a b ss)) = map (DurationS rnd) (SetMeasured name' a b ss)"
proof -
  define ss where "ss = NewDecomposition variant"
  have names: "distinct (map sg_Name ss)"
    unfolding ss_def NewDecomposition_def process_kill_segments_def mock_segments_def na_def Let_def by simp
  have fresh: "\<forall>s\<in>set ss. \<not> sg_Measured s"
    unfolding ss_def NewDecomposition_def process_kill_segments_def mock_segments_def na_def Let_def by simp
  have "DurationS rnd s = case_prod (\<lambda>_ (m, t). DurationS rnd \<lparr>sg_Name = [], sg_Source = [], sg_Measured = m, sg_StartAt = fst t, sg_EndAt = snd t, sg_Note = []\<rparr>)
      (sg_Name s, sg_Measured s, sg_StartAt s, sg_EndAt s)" for s by (simp add: DurationS_def)
  then have "map (DurationS rnd) (SetNote name remark xs) = map (DurationS rnd) xs" for xs
    using arg_cong [OF SetNote_measured [of name remark xs], of "map (case_prod (\<lambda>_ (m, t). DurationS rnd \<lparr>sg_Name = [], sg_Source = [], sg_Measured = m, sg_StartAt = fst t, sg_EndAt = snd t, sg_Note = []\<rparr>))"]
    by (simp add: comp_def)
  then show ?thesis
    using names fresh unfolding Let_def ss_def [symmetric] SetMeasured_map [OF names]
    by (auto simp: DurationS_def comp_def intro!: map_cong)
qed

theorem decomposition_claims_only_measured_witness:
  "DurationS fl (hd (SetMeasured ''reschedule'' 0 2000000000 NewPhase0Decomposition)) \<noteq> None"
proof -
  have "hd (SetMeasured ''reschedule'' 0 2000000000 NewPhase0Decomposition) \<in> set (SetMeasured ''reschedule'' 0 2000000000 (NewDecomposition ''mock''))"
    and "sg_Name (hd (SetMeasured ''reschedule'' 0 2000000000 NewPhase0Decomposition)) = ''reschedule''"
    by (simp_all add: NewPhase0Decomposition_def NewDecomposition_def mock_segments_def na_def)
  then show ?thesis
    using decomposition_claims_only_measured [of "''mock''" fl "''reschedule''" 0 2000000000 "[]" "[]"]
    by (simp add: Let_def)
qed

end
