(* ===== verification/Ladder.thy ===== *)
theory Ladder
  imports Float64
begin

text \<open>
  The dispatch schedule of \<^verbatim>\<open>internal/loadgen/schedule.go\<close>: \<open>arrivals\<close>, the release ladder and the
  phase schedule. The pseudo-random generator is the sequence \<open>draw\<close> of the values its \<open>ExpFloat64\<close>
  returns, read from a position that the calls advance. A Poisson loop ends only when the draws carry it
  past the window, so the functions return an option: \<open>None\<close> is a loop that never ends.
\<close>

section \<open>Definitions\<close>

text \<open>Go's conversion of a float64 to an integer drops the fraction.\<close>

definition trunc64 :: "rat \<Rightarrow> int" where
  "trunc64 x = (if 0 \<le> x then \<lfloor>x\<rfloor> else \<lceil>x\<rceil>)"

definition secondsNs :: "(rat \<Rightarrow> rat) \<Rightarrow> rat \<Rightarrow> int" where
  "secondsNs rnd s = trunc64 (rnd (s * 1000000000))"

definition poisson_gap :: "(rat \<Rightarrow> rat) \<Rightarrow> rat \<Rightarrow> rat \<Rightarrow> int" where
  "poisson_gap rnd rate e = trunc64 (rnd (rnd (e / rate) * 1000000000))"

partial_function (option) poisson_loop :: "(nat \<Rightarrow> int) \<Rightarrow> int \<Rightarrow> nat \<Rightarrow> int \<Rightarrow> int list \<Rightarrow> (int list \<times> nat) option" where
  "poisson_loop gap endNs i t offsets =
     (let t' = t + gap i
      in if endNs \<le> t' then Some (offsets, Suc i) else poisson_loop gap endNs (Suc i) t' (offsets @ [t']))"

declare poisson_loop.simps [code]

text \<open>\<open>arrivals\<close> appends the dispatch times of one window; the second component is the generator's
  position afterwards.\<close>

definition arrivals :: "(rat \<Rightarrow> rat) \<Rightarrow> string \<Rightarrow> (nat \<Rightarrow> rat) \<Rightarrow> int list \<Rightarrow> nat \<Rightarrow> rat \<Rightarrow> int \<Rightarrow> int \<Rightarrow> (int list \<times> nat) option" where
  "arrivals rnd process draw offsets i rate startNs endNs =
     (if process = ''deterministic'' then
        let n = \<lfloor>rnd (rnd (rnd (of_int (endNs - startNs)) / 1000000000) * rate)\<rfloor>
        in Some (offsets @ map (\<lambda>k. startNs + trunc64 (rnd (rnd (rnd (of_nat k) * 1000000000) / rate))) [0..<nat n], i)
      else if process = ''poisson'' then
        poisson_loop (\<lambda>k. poisson_gap rnd rate (draw k)) endNs i startNs offsets
      else Some (offsets, i))"

record ladder_step =
  ls_RateRPS :: rat
  ls_StartNs :: int
  ls_EndNs :: int
  ls_DrainEndNs :: int
  ls_First :: nat
  ls_End :: nat

record ladder =
  l_Offsets :: "int list"
  l_Steps :: "ladder_step list"
  l_EndNs :: int

record ladder_config =
  lc_StepsRPS :: "rat list"
  lc_WarmupS :: rat
  lc_StepS :: rat
  lc_DrainS :: rat

text \<open>The loop over the rates from time \<open>t\<close>.\<close>

fun ladder_steps :: "(rat \<Rightarrow> rat) \<Rightarrow> string \<Rightarrow> (nat \<Rightarrow> rat) \<Rightarrow> int \<Rightarrow> int \<Rightarrow> rat list \<Rightarrow> int \<Rightarrow> int list \<Rightarrow> nat
    \<Rightarrow> (int list \<times> ladder_step list \<times> int) option" where
  "ladder_steps rnd process draw stepNs drainNs [] t offsets i = Some (offsets, [], t)"
| "ladder_steps rnd process draw stepNs drainNs (rate # rates) t offsets i =
     (case arrivals rnd process draw offsets i rate t (t + stepNs) of
        None \<Rightarrow> None
      | Some (offsets', i') \<Rightarrow>
          let st = \<lparr>ls_RateRPS = rate, ls_StartNs = t, ls_EndNs = t + stepNs, ls_DrainEndNs = t + stepNs + drainNs,
                    ls_First = length offsets, ls_End = length offsets'\<rparr>
          in case ladder_steps rnd process draw stepNs drainNs rates (t + stepNs + drainNs) offsets' i' of
               None \<Rightarrow> None
             | Some (os, sts, e) \<Rightarrow> Some (os, st # sts, e))"

text \<open>\<open>BuildLadder\<close>; the inner \<open>None\<close> is Go's nil for a configuration without steps.\<close>

definition BuildLadder :: "(rat \<Rightarrow> rat) \<Rightarrow> string \<Rightarrow> (nat \<Rightarrow> rat) \<Rightarrow> ladder_config \<Rightarrow> ladder option option" where
  "BuildLadder rnd process draw ld =
     (case lc_StepsRPS ld of
        [] \<Rightarrow> Some None
      | rate # _ \<Rightarrow>
          (case arrivals rnd process draw [] 0 rate 0 (secondsNs rnd (lc_WarmupS ld)) of
             None \<Rightarrow> None
           | Some (offsets, i) \<Rightarrow>
               (case ladder_steps rnd process draw (secondsNs rnd (lc_StepS ld)) (secondsNs rnd (lc_DrainS ld)) (lc_StepsRPS ld)
                       (secondsNs rnd (lc_WarmupS ld)) offsets i of
                  None \<Rightarrow> None
                | Some (os, sts, e) \<Rightarrow> Some (Some \<lparr>l_Offsets = os, l_Steps = sts, l_EndNs = e\<rparr>))))"

record phases =
  ph_WarmupS :: rat
  ph_BaselineS :: rat
  ph_FaultWindowTimeoutS :: rat
  ph_CooldownS :: rat

text \<open>\<open>BuildSchedule\<close>: the ladder's offsets under the release profile, else one span over the phases.\<close>

definition BuildSchedule :: "(rat \<Rightarrow> rat) \<Rightarrow> bool \<Rightarrow> string \<Rightarrow> (nat \<Rightarrow> rat) \<Rightarrow> ladder_config \<Rightarrow> phases \<Rightarrow> rat \<Rightarrow> int list option" where
  "BuildSchedule rnd release process draw ld p rate =
     (if release then
        (case BuildLadder rnd process draw ld of
           None \<Rightarrow> None | Some None \<Rightarrow> Some [] | Some (Some l) \<Rightarrow> Some (l_Offsets l))
      else
        let totalS = rnd (rnd (rnd (ph_WarmupS p + ph_BaselineS p) + ph_FaultWindowTimeoutS p) + ph_CooldownS p)
        in if process = ''deterministic'' then
             (let n = \<lfloor>rnd (totalS * rate)\<rfloor>; interval = rnd (1000000000 / rate)
              in Some (map (\<lambda>k. trunc64 (rnd (rnd (of_nat k) * interval))) [0..<nat n]))
           else if process = ''poisson'' then
             map_option fst (poisson_loop (\<lambda>k. poisson_gap rnd rate (draw k)) (trunc64 (rnd (totalS * 1000000000))) 0 0 [])
           else Some [])"

section \<open>One window of arrivals\<close>

lemma poisson_loop_window:
  assumes "poisson_loop gap endNs i t offsets = Some (os, i')" and "\<And>k. 0 \<le> gap k"
  shows "\<exists>new. os = offsets @ new \<and> sorted (t # new) \<and> (\<forall>x\<in>set new. x < endNs)"
proof -
  define Q where "Q = (\<lambda>(gap :: nat \<Rightarrow> int) (endNs :: int) (i :: nat) t offsets (r :: int list \<times> nat).
      (\<forall>k. 0 \<le> gap k) \<longrightarrow> (\<exists>new. fst r = offsets @ new \<and> sorted (t # new) \<and> (\<forall>x\<in>set new. x < endNs)))"
  have "Q gap endNs i t offsets (os, i')"
    using assms(1)
  proof (rule poisson_loop.raw_induct [of Q, rotated])
    fix loop gap endNs i t offsets r
    assume ih: "\<And>gap endNs i t offsets r. loop gap endNs i t offsets = Some r \<Longrightarrow> Q gap endNs i t offsets r"
      and body: "(let t' = t + gap i in if endNs \<le> t' then Some (offsets, Suc i)
          else loop gap endNs (Suc i) t' (offsets @ [t'])) = Some r"
    show "Q gap endNs i t offsets r"
    proof (cases "endNs \<le> t + gap i")
      case True
      with body show ?thesis by (auto simp: Q_def Let_def)
    next
      case False
      with body have "Q gap endNs (Suc i) (t + gap i) (offsets @ [t + gap i]) r" using ih by (simp add: Let_def)
      show ?thesis
        unfolding Q_def
      proof
        assume pos: "\<forall>k. 0 \<le> gap k"
        with \<open>Q gap endNs (Suc i) _ _ r\<close> obtain new where new: "fst r = (offsets @ [t + gap i]) @ new"
          "sorted ((t + gap i) # new)" "\<forall>x\<in>set new. x < endNs" by (auto simp: Q_def)
        have "t \<le> t + gap i" using pos by simp
        with new False have "fst r = offsets @ (t + gap i) # new \<and> sorted (t # (t + gap i) # new)
            \<and> (\<forall>x\<in>set ((t + gap i) # new). x < endNs)" by auto
        then show "\<exists>new. fst r = offsets @ new \<and> sorted (t # new) \<and> (\<forall>x\<in>set new. x < endNs)" by blast
      qed
    qed
  qed
  with assms(2) show ?thesis by (simp add: Q_def)
qed

text \<open>The loop ends as soon as the draws keep carrying it forward.\<close>

lemma poisson_loop_ends:
  assumes "\<And>k. 0 \<le> gap k" and "\<And>k. \<exists>j\<ge>k. 1 \<le> gap j"
  shows "\<exists>r. poisson_loop gap endNs i t offsets = Some r"
proof (induction "nat (endNs - t)" arbitrary: i t offsets rule: less_induct)
  case less
  obtain j where j: "i \<le> j" "1 \<le> gap j" using assms(2) by blast
  have "\<forall>t' offsets. t \<le> t' \<longrightarrow> (\<exists>r. poisson_loop gap endNs k t' offsets = Some r)" if "i \<le> k" "k \<le> j" for k
    using that(2,1)
  proof (induction k rule: inc_induct)
    case base
    show ?case
    proof (intro allI impI)
      fix t' offsets
      assume t': "t \<le> t'"
      show "\<exists>r. poisson_loop gap endNs j t' offsets = Some r"
      proof (cases "endNs \<le> t' + gap j")
        case True
        then show ?thesis by (simp add: poisson_loop.simps [of gap endNs j])
      next
        case False
        then have "nat (endNs - (t' + gap j)) < nat (endNs - t)" using t' j(2) by simp
        then have "\<exists>r. poisson_loop gap endNs (Suc j) (t' + gap j) (offsets @ [t' + gap j]) = Some r" by (rule less)
        with False show ?thesis by (simp add: poisson_loop.simps [of gap endNs j] Let_def)
      qed
    qed
  next
    case (step k)
    show ?case
    proof (intro allI impI)
      fix t' offsets
      assume t': "t \<le> t'"
      then have "t \<le> t' + gap k" using assms(1) [of k] by simp
      with step have "\<exists>r. poisson_loop gap endNs (Suc k) (t' + gap k) (offsets @ [t' + gap k]) = Some r" by simp
      then show "\<exists>r. poisson_loop gap endNs k t' offsets = Some r" by (simp add: poisson_loop.simps [of gap endNs k] Let_def)
    qed
  qed
  from this [of i] j(1) show ?case by simp
qed

section \<open>The ladder over any process that stays in its windows\<close>

text \<open>What the ladder relies on: one window's arrivals are appended in order and fall inside it.\<close>

locale windowed_arrivals =
  fixes rnd :: "rat \<Rightarrow> rat" and process :: string and draw :: "nat \<Rightarrow> rat"
  assumes window: "arrivals rnd process draw os i rate a b = Some (os', i') \<Longrightarrow> 0 < rate \<Longrightarrow> a \<le> b \<Longrightarrow>
      \<exists>new. os' = os @ new \<and> sorted new \<and> (\<forall>x\<in>set new. a \<le> x \<and> x < b)"

text \<open>The steps tile the schedule from index \<open>n\<close> and time \<open>t\<close> on.\<close>

fun steps_ok :: "int list \<Rightarrow> int \<Rightarrow> nat \<Rightarrow> ladder_step list \<Rightarrow> int \<Rightarrow> bool" where
  "steps_ok os t n [] e \<longleftrightarrow> n = length os \<and> e = t"
| "steps_ok os t n (s # ss) e \<longleftrightarrow> ls_StartNs s = t \<and> ls_First s = n \<and> n \<le> ls_End s \<and> ls_End s \<le> length os
     \<and> ls_StartNs s \<le> ls_EndNs s \<and> ls_EndNs s \<le> ls_DrainEndNs s
     \<and> (\<forall>k. n \<le> k \<and> k < ls_End s \<longrightarrow> ls_StartNs s \<le> os ! k \<and> os ! k < ls_EndNs s)
     \<and> steps_ok os (ls_DrainEndNs s) (ls_End s) ss e"

context windowed_arrivals
begin

lemma ladder_steps_ok:
  assumes "ladder_steps rnd process draw stepNs drainNs rates t os i = Some (os', sts, e)"
    and "0 \<le> stepNs" and "0 \<le> drainNs" and "\<forall>r\<in>set rates. 0 < r" and "sorted os" and "\<forall>x\<in>set os. x \<le> t"
  shows "sorted os' \<and> map ls_RateRPS sts = rates \<and> take (length os) os' = os \<and> length os \<le> length os'
    \<and> steps_ok os' t (length os) sts e \<and> t \<le> e \<and> (\<forall>x\<in>set os'. x \<le> e)"
  using assms
proof (induction rates arbitrary: t os i sts)
  case (Cons rate rates)
  obtain os1 i1 where a: "arrivals rnd process draw os i rate t (t + stepNs) = Some (os1, i1)"
    using Cons.prems(1) by (auto split: option.splits)
  obtain new where new: "os1 = os @ new" "sorted new" "\<forall>x\<in>set new. t \<le> x \<and> x < t + stepNs"
    using window [OF a] Cons.prems(2,4) by auto
  obtain sts1 where rest: "ladder_steps rnd process draw stepNs drainNs rates (t + stepNs + drainNs) os1 i1 = Some (os', sts1, e)"
    and sts: "sts = \<lparr>ls_RateRPS = rate, ls_StartNs = t, ls_EndNs = t + stepNs, ls_DrainEndNs = t + stepNs + drainNs,
                    ls_First = length os, ls_End = length os1\<rparr> # sts1"
    using Cons.prems(1) a by (auto simp: Let_def split: option.splits)
  have "sorted os1" using Cons.prems(5,6) new by (fastforce simp: sorted_append)
  moreover have "\<forall>x\<in>set os1. x \<le> t + stepNs + drainNs" using Cons.prems(2,3,6) new by fastforce
  ultimately have ih: "sorted os' \<and> map ls_RateRPS sts1 = rates \<and> take (length os1) os' = os1 \<and> length os1 \<le> length os'
      \<and> steps_ok os' (t + stepNs + drainNs) (length os1) sts1 e \<and> t + stepNs + drainNs \<le> e \<and> (\<forall>x\<in>set os'. x \<le> e)"
    using Cons.IH [OF rest] Cons.prems(2-4) by simp
  have "take (length os) os' = os" using ih new(1) by (metis append_eq_conv_conj length_append min.absorb1 le_add1 take_take)
  moreover have "os' ! k = new ! (k - length os)" if "length os \<le> k" "k < length os1" for k
    using ih that new(1) by (metis (no_types) leD nth_append nth_take)
  then have "\<forall>k. length os \<le> k \<and> k < length os1 \<longrightarrow> t \<le> os' ! k \<and> os' ! k < t + stepNs"
    using new(1,3) by (auto simp: less_diff_conv2 intro!: nth_mem)
  ultimately show ?case using ih new(1) Cons.prems(2,3) by (simp add: sts)
qed simp

end

lemma trunc64_nonneg: "0 \<le> x \<Longrightarrow> 0 \<le> trunc64 x"
  by (simp add: trunc64_def)

context rounding
begin

lemma gap_nonneg: "0 \<le> e \<Longrightarrow> 0 < rate \<Longrightarrow> 0 \<le> poisson_gap rnd rate e"
  unfolding poisson_gap_def by (intro trunc64_nonneg rnd_nonneg mult_nonneg_nonneg divide_nonneg_pos) simp_all

lemma seconds_nonneg: "0 \<le> s \<Longrightarrow> 0 \<le> secondsNs rnd s"
  unfolding secondsNs_def by (intro trunc64_nonneg rnd_nonneg) simp

lemma poisson_windowed: "windowed_arrivals rnd ''poisson'' (\<lambda>k. \<bar>draw k\<bar>)"
proof
  fix os i rate a b os' i'
  assume ar: "arrivals rnd ''poisson'' (\<lambda>k. \<bar>draw k\<bar>) os i rate a b = Some (os', i')" and r: "0 < rate"
  have "poisson_loop (\<lambda>k. poisson_gap rnd rate \<bar>draw k\<bar>) b i a os = Some (os', i')"
    using ar by (simp add: arrivals_def)
  from poisson_loop_window [OF this] gap_nonneg r
  obtain new where "os' = os @ new" "sorted (a # new)" "\<forall>x\<in>set new. x < b" by auto
  then show "\<exists>new. os' = os @ new \<and> sorted new \<and> (\<forall>x\<in>set new. a \<le> x \<and> x < b)" by auto
qed

end

text \<open>A Poisson process in float64 (draws are not negative), and the deterministic process in exact
  arithmetic.\<close>

interpretation poisson: windowed_arrivals fl "''poisson''" "\<lambda>k. \<bar>draw k\<bar>" for draw
  by (rule f64.poisson_windowed)

interpretation even: windowed_arrivals "\<lambda>x. x" "''deterministic''" draw for draw
proof
  fix os i and rate :: rat and a b :: int and os' i'
  assume ar: "arrivals (\<lambda>x. x) ''deterministic'' draw os i rate a b = Some (os', i')" and r: "0 < rate" and ab: "a \<le> b"
  define n where "n = nat \<lfloor>of_int (b - a) / 1000000000 * rate\<rfloor>"
  let ?f = "\<lambda>k. a + trunc64 (of_nat k * 1000000000 / rate)"
  have os': "os' = os @ map ?f [0..<n]" using ar by (simp add: arrivals_def n_def Let_def)
  have pos: "0 \<le> (of_nat k * 1000000000 / rate :: rat)" for k using r by simp
  have f: "?f k = a + \<lfloor>of_nat k * 1000000000 / rate\<rfloor>" for k using pos by (simp add: trunc64_def)
  have mono: "?f j \<le> ?f k" if "j \<le> k" for j k
    unfolding f using that r by (intro add_left_mono floor_mono divide_right_mono mult_right_mono) simp_all
  have "sorted (map ?f [0..<n])"
    unfolding sorted_iff_nth_mono using mono by simp
  moreover have "a \<le> ?f k \<and> ?f k < b" if "k < n" for k
  proof -
    have "0 \<le> (of_int (b - a) / 1000000000 * rate :: rat)" using ab r by simp
    then have "of_nat n = (of_int \<lfloor>of_int (b - a) / 1000000000 * rate :: rat\<rfloor> :: rat)"
      unfolding n_def by (intro of_nat_nat) (simp only: zero_le_floor)
    then have "of_nat n \<le> (of_int (b - a) / 1000000000 * rate :: rat)" by (simp only: of_int_floor_le)
    moreover have "of_nat k < (of_nat n :: rat)" using that by simp
    ultimately have "of_nat k < (of_int (b - a) / 1000000000 * rate :: rat)" by linarith
    then have "of_nat k * 1000000000 / rate < (of_int (b - a) :: rat)" using r by (simp add: field_simps)
    then have "\<lfloor>of_nat k * 1000000000 / rate\<rfloor> < b - a" by (simp add: floor_less_iff)
    then show ?thesis unfolding f using pos [of k] by simp
  qed
  ultimately show "\<exists>new. os' = os @ new \<and> sorted new \<and> (\<forall>x\<in>set new. a \<le> x \<and> x < b)"
    unfolding os' by (intro exI [of _ "map ?f [0..<n]"]) auto
qed

context windowed_arrivals
begin

lemma BuildLadder_ok:
  assumes "BuildLadder rnd process draw ld = Some (Some l)" and "\<forall>r\<in>set (lc_StepsRPS ld). 0 < r"
    and "0 \<le> secondsNs rnd (lc_WarmupS ld)" and "0 \<le> secondsNs rnd (lc_StepS ld)" and "0 \<le> secondsNs rnd (lc_DrainS ld)"
  shows "sorted (l_Offsets l) \<and> map ls_RateRPS (l_Steps l) = lc_StepsRPS ld
    \<and> (\<exists>n. (\<forall>k<n. 0 \<le> l_Offsets l ! k \<and> l_Offsets l ! k < secondsNs rnd (lc_WarmupS ld))
        \<and> n \<le> length (l_Offsets l) \<and> steps_ok (l_Offsets l) (secondsNs rnd (lc_WarmupS ld)) n (l_Steps l) (l_EndNs l))"
proof -
  obtain rate rates where steps: "lc_StepsRPS ld = rate # rates" using assms(1) by (auto simp: BuildLadder_def split: list.splits)
  let ?w = "secondsNs rnd (lc_WarmupS ld)"
  obtain os i where a: "arrivals rnd process draw [] 0 rate 0 ?w = Some (os, i)"
    using assms(1) steps by (auto simp: BuildLadder_def split: option.splits)
  obtain new where new: "os = new" "sorted new" "\<forall>x\<in>set new. 0 \<le> x \<and> x < ?w"
    using window [OF a] assms(2,3) steps by auto
  have l: "ladder_steps rnd process draw (secondsNs rnd (lc_StepS ld)) (secondsNs rnd (lc_DrainS ld)) (lc_StepsRPS ld) ?w os i
      = Some (l_Offsets l, l_Steps l, l_EndNs l)"
    using assms(1) steps a by (auto simp: BuildLadder_def split: option.splits)
  have "\<forall>x\<in>set os. x \<le> ?w" using new by auto
  note ok = ladder_steps_ok [OF l assms(4,5,2) new(2) [folded new(1)] this]
  have "0 \<le> l_Offsets l ! k \<and> l_Offsets l ! k < ?w" if "k < length os" for k
    using ok new that by (metis nth_mem nth_take)
  with ok show ?thesis by blast
qed

end

lemma steps_ok_window:
  "steps_ok os t n sts e \<Longrightarrow> s \<in> set sts \<Longrightarrow> ls_First s \<le> j \<Longrightarrow> j < ls_End s \<Longrightarrow>
     ls_StartNs s \<le> os ! j \<and> os ! j < ls_EndNs s"
  by (induction sts arbitrary: t n) auto

lemma steps_ok_chain:
  "steps_ok os t n sts e \<Longrightarrow> k < length sts \<Longrightarrow>
     ls_First (sts ! k) = (if k = 0 then n else ls_End (sts ! (k - 1)))
   \<and> ls_StartNs (sts ! k) = (if k = 0 then t else ls_DrainEndNs (sts ! (k - 1)))"
proof (induction sts arbitrary: t n k)
  case (Cons s ss)
  show ?case
  proof (cases k)
    case 0
    with Cons.prems show ?thesis by simp
  next
    case (Suc j)
    with Cons.IH [of "ls_DrainEndNs s" "ls_End s" j] Cons.prems show ?thesis by (cases j) simp_all
  qed
qed simp

lemma steps_ok_last:
  "steps_ok os t n sts e \<Longrightarrow> sts \<noteq> [] \<Longrightarrow> ls_End (last sts) = length os \<and> ls_DrainEndNs (last sts) = e"
proof (induction sts arbitrary: t n)
  case (Cons s ss)
  then show ?case by (cases ss) auto
qed simp

section \<open>Properties\<close>

text \<open>Claim C17. The release ladder under Poisson arrivals in float64: the offsets are in ascending
  order, the warm-up requests lie in the warm-up, each step starts where the previous drain ends and
  takes up the schedule where the previous step left it, every request of a step lies in its measured
  window (none in a drain), and the last step closes the schedule and the cell.\<close>

theorem poisson_ladder_tiles_schedule:
  assumes "BuildLadder fl ''poisson'' draw ld = Some (Some l)" and "\<forall>k. 0 \<le> draw k"
    and "\<forall>r\<in>set (lc_StepsRPS ld). 0 < r" and "0 \<le> lc_WarmupS ld" and "0 \<le> lc_StepS ld" and "0 \<le> lc_DrainS ld"
  shows "sorted (l_Offsets l) \<and> map ls_RateRPS (l_Steps l) = lc_StepsRPS ld
    \<and> (\<forall>k<ls_First (hd (l_Steps l)). 0 \<le> l_Offsets l ! k \<and> l_Offsets l ! k < secondsNs fl (lc_WarmupS ld))
    \<and> (\<forall>k<length (l_Steps l).
         (0 < k \<longrightarrow> ls_First (l_Steps l ! k) = ls_End (l_Steps l ! (k - 1)) \<and> ls_StartNs (l_Steps l ! k) = ls_DrainEndNs (l_Steps l ! (k - 1)))
         \<and> (\<forall>j. ls_First (l_Steps l ! k) \<le> j \<and> j < ls_End (l_Steps l ! k) \<longrightarrow>
              ls_StartNs (l_Steps l ! k) \<le> l_Offsets l ! j \<and> l_Offsets l ! j < ls_EndNs (l_Steps l ! k)))
    \<and> ls_End (last (l_Steps l)) = length (l_Offsets l) \<and> ls_DrainEndNs (last (l_Steps l)) = l_EndNs l"
proof -
  have "(\<lambda>k. \<bar>draw k\<bar>) = draw" using assms(2) by auto
  with assms(1) have "BuildLadder fl ''poisson'' (\<lambda>k. \<bar>draw k\<bar>) ld = Some (Some l)" by simp
  from poisson.BuildLadder_ok [OF this assms(3)] f64.seconds_nonneg assms(4-6)
  obtain n where s: "sorted (l_Offsets l)" "map ls_RateRPS (l_Steps l) = lc_StepsRPS ld"
    and n: "\<forall>k<n. 0 \<le> l_Offsets l ! k \<and> l_Offsets l ! k < secondsNs fl (lc_WarmupS ld)"
    and ok: "steps_ok (l_Offsets l) (secondsNs fl (lc_WarmupS ld)) n (l_Steps l) (l_EndNs l)" by blast
  have ne: "l_Steps l \<noteq> []" using s(2) assms(1) by (auto simp: BuildLadder_def split: list.splits)
  have "ls_First (hd (l_Steps l)) = n" using steps_ok_chain [OF ok, of 0] ne by (simp add: hd_conv_nth)
  moreover have "(0 < k \<longrightarrow> ls_First (l_Steps l ! k) = ls_End (l_Steps l ! (k - 1)) \<and> ls_StartNs (l_Steps l ! k) = ls_DrainEndNs (l_Steps l ! (k - 1)))
         \<and> (\<forall>j. ls_First (l_Steps l ! k) \<le> j \<and> j < ls_End (l_Steps l ! k) \<longrightarrow>
              ls_StartNs (l_Steps l ! k) \<le> l_Offsets l ! j \<and> l_Offsets l ! j < ls_EndNs (l_Steps l ! k))"
    if "k < length (l_Steps l)" for k
    using steps_ok_chain [OF ok that] steps_ok_window [OF ok nth_mem [OF that]] by simp
  ultimately show ?thesis using s n steps_ok_last [OF ok ne] by blast
qed

definition demo_ladder :: ladder_config where
  "demo_ladder = \<lparr>lc_StepsRPS = [1, 2], lc_WarmupS = 2, lc_StepS = 2, lc_DrainS = 1\<rparr>"

theorem poisson_ladder_tiles_schedule_witness:
  "\<exists>l. BuildLadder fl ''poisson'' (\<lambda>k. 1) demo_ladder = Some (Some l) \<and> sorted (l_Offsets l)
     \<and> ls_DrainEndNs (last (l_Steps l)) = l_EndNs l"
proof -
  have "case BuildLadder fl ''poisson'' (\<lambda>k. 1) demo_ladder of Some (Some l) \<Rightarrow> True | _ \<Rightarrow> False" by code_simp
  then obtain l where l: "BuildLadder fl ''poisson'' (\<lambda>k. 1) demo_ladder = Some (Some l)" by (auto split: option.splits)
  from poisson_ladder_tiles_schedule [OF l] l show ?thesis by (auto simp: demo_ladder_def)
qed

lemma arrivals_end:
  assumes "\<forall>k. 0 \<le> draw k" and "0 < rate" and "\<forall>k. \<exists>j\<ge>k. 1 \<le> poisson_gap fl rate (draw j)"
  shows "\<exists>r. arrivals fl ''poisson'' draw os i rate a b = Some r"
  unfolding arrivals_def using poisson_loop_ends [of "\<lambda>k. poisson_gap fl rate (draw k)"] f64.gap_nonneg assms by simp

lemma ladder_steps_end:
  assumes "\<forall>k. 0 \<le> draw k" and "\<forall>r\<in>set rates. 0 < r \<and> (\<forall>k. \<exists>j\<ge>k. 1 \<le> poisson_gap fl r (draw j))"
  shows "\<exists>x. ladder_steps fl ''poisson'' draw stepNs drainNs rates t os i = Some x"
  using assms(2)
proof (induction rates arbitrary: t os i)
  case (Cons r rates)
  obtain os1 i1 where a: "arrivals fl ''poisson'' draw os i r t (t + stepNs) = Some (os1, i1)"
    using arrivals_end [OF assms(1)] Cons.prems by (metis list.set_intros(1) surj_pair)
  obtain x where x: "ladder_steps fl ''poisson'' draw stepNs drainNs rates (t + stepNs + drainNs) os1 i1 = Some x"
    using Cons.IH Cons.prems by (metis list.set_intros(2))
  obtain u v z where "x = (u, v, z)" by (metis prod_cases3)
  with a x show ?case by (simp add: Let_def)
qed simp

text \<open>Claim C18. Building the ladder terminates: when the generator keeps returning draws that advance
  the clock by at least a nanosecond at every rate of the ladder, every window's loop ends and a ladder
  is returned.\<close>

theorem poisson_ladder_terminates:
  assumes "\<forall>k. 0 \<le> draw k" and "lc_StepsRPS ld \<noteq> []"
    and "\<forall>r\<in>set (lc_StepsRPS ld). 0 < r \<and> (\<forall>k. \<exists>j\<ge>k. 1 \<le> poisson_gap fl r (draw j))"
  shows "\<exists>l. BuildLadder fl ''poisson'' draw ld = Some (Some l)"
proof -
  obtain r rs where steps: "lc_StepsRPS ld = r # rs" using assms(2) by (cases "lc_StepsRPS ld") auto
  obtain os i where a: "arrivals fl ''poisson'' draw [] 0 r 0 (secondsNs fl (lc_WarmupS ld)) = Some (os, i)"
    using arrivals_end [OF assms(1)] assms(3) steps by (metis list.set_intros(1) surj_pair)
  obtain u v z where "ladder_steps fl ''poisson'' draw (secondsNs fl (lc_StepS ld)) (secondsNs fl (lc_DrainS ld)) (lc_StepsRPS ld)
      (secondsNs fl (lc_WarmupS ld)) os i = Some (u, v, z)"
    using ladder_steps_end [OF assms(1,3)] by (metis prod_cases3)
  with a steps show ?thesis by (simp add: BuildLadder_def)
qed

theorem poisson_ladder_terminates_witness:
  "\<exists>l. BuildLadder fl ''poisson'' (\<lambda>k. 1) demo_ladder = Some (Some l)"
proof -
  have "1 \<le> poisson_gap fl 1 1" "1 \<le> poisson_gap fl 2 1" by code_simp+
  then show ?thesis using poisson_ladder_terminates [of "\<lambda>k. 1" demo_ladder] by (auto simp: demo_ladder_def)
qed

end
