(* ===== verification/Schedule.thy ===== *)
theory Schedule
  imports Calendar "HOL-Library.List_Lexorder" "HOL-Library.Char_ord"
begin

text \<open>
  The temporal frame of a release, \<^verbatim>\<open>internal/schedule/schedule.go\<close>: twelve cells per route over the
  committed window, the routes' offsets, the runs and the one re-run, and the committed form. SHA-256 is
  the parameter \<open>sha\<close> (bytes as characters) and the JSON encoder and decoder are the parameters
  \<open>marshal\<close> and \<open>unmarshal\<close>. An instant is the number of nanoseconds since day 0 of
  \<open>day_number\<close>; Go orders strings by their bytes, as the lexicographic order on characters does.
\<close>

section \<open>Data\<close>

abbreviation minute_ns :: int where "minute_ns \<equiv> 60000000000"
abbreviation hour_ns :: int where "hour_ns \<equiv> 3600000000000"
abbreviation day_ns :: int where "day_ns \<equiv> 86400000000000"

definition MaxWindowDays :: int where "MaxWindowDays = 14"
definition OffsetStep :: int where "OffsetStep = 10 * minute_ns"
definition StartTolerance :: int where "StartTolerance = 15 * minute_ns"
definition MaxAttempts :: nat where "MaxAttempts = 2"
definition MaxReruns :: int where "MaxReruns = 2"
definition SlotHoursUTC :: "int list" where "SlotHoursUTC = [0, 4, 8, 12, 16, 20]"
definition slotLength :: int where "slotLength = 4 * hour_ns"
definition maxCounter :: nat where "maxCounter = 10000"

text \<open>The pins of the release ladder: a warm-up of 60 s, then five steps of 480 s with a drain of 90 s.\<close>

definition CellLength :: int where
  "CellLength = (60 + 5 * (480 + 90)) * 1000000000"

record route_config =
  rc_Route :: string
  rc_ConfigSHA256 :: string
  rc_ConfigHMACSHA256 :: string
  rc_HostGroup :: "string list"

record sched_input =
  in_MasterSeed :: string
  in_First :: string
  in_Last :: string
  in_Routes :: "string list"
  in_Configs :: "route_config list"
  in_LedgerSHA256 :: string
  in_LedgerLines :: int
  in_LedgerHeadSHA256 :: string

record offset =
  of_Route :: string
  of_Minutes :: int

record attempt =
  at_Attempt :: nat
  at_Date :: string
  at_SlotStart :: int
  at_Seed :: int

record cell =
  c_Label :: string
  c_DayType :: string
  c_SlotHourUTC :: int
  c_Attempts :: "attempt list"

record schedule =
  s_Input :: sched_input
  s_Counter :: nat
  s_Offsets :: "offset list"
  s_Cells :: "cell list"

record cell_run =
  cr_Route :: string
  cr_Label :: string
  cr_Attempt :: nat
  cr_Date :: string
  cr_Start :: int
  cr_Seed :: int

datatype sched_error = EEmptySeed | ENoRoutes | EEmptyRoute | ERouteTwice string | ETooManyRoutes nat
  | EDates bool bool | ELastBeforeFirst | EWindowDays int | EWindowDayTypes
  | ENotScheduled string | EConfigSHA string string | EConfigHMAC string string | EHostGroup string "string list"
  | ETwoConfigs string | ELedgerSHA string | ELedgerHead string | ELedgerPosition int string | ELedgerNoSHA
  | ECounter | ENoRoute string | EReruns string int | ENoLaterDate string string | ENoCell string
  | EUnmarshal | EMarshal | ENotDerived

definition OnTime :: "cell_run \<Rightarrow> int \<Rightarrow> bool" where
  "OnTime r t \<longleftrightarrow> (let d = t - cr_Start r in - StartTolerance \<le> d \<and> d \<le> StartTolerance)"

definition labels :: "cell list" where
  "labels = concat (map (\<lambda>dt. map (\<lambda>h. \<lparr>c_Label = dt @ ''-'' @ pad_digits 2 (nat h), c_DayType = dt,
      c_SlotHourUTC = h, c_Attempts = []\<rparr>) SlotHoursUTC) [''weekday'', ''weekend''])"

section \<open>Draws\<close>

definition be_nat :: "string \<Rightarrow> nat" where
  "be_nat bs = foldl (\<lambda>n b. n * 256 + of_char b) 0 bs"

definition draw :: "(string \<Rightarrow> string) \<Rightarrow> string \<Rightarrow> nat \<Rightarrow> nat" where
  "draw sha key n = be_nat (sha key) mod n"

text \<open>The sources draw only from lists they have found non-empty. Clearing the top bit of a 64-bit word reduces it modulo \<open>2 ^ 63\<close>.\<close>

definition runSeed :: "(string \<Rightarrow> string) \<Rightarrow> string \<Rightarrow> string \<Rightarrow> nat \<Rightarrow> int" where
  "runSeed sha seed label n = int (be_nat (take 8 (sha (seed @ label @ nat_digits n @ ''/run-seed''))) mod 2 ^ 63)"

definition dayType :: "date \<Rightarrow> string" where
  "dayType d = (if weekday_of d = Saturday \<or> weekday_of d = Sunday then ''weekend'' else ''weekday'')"

definition date_ns :: "date \<Rightarrow> int" where
  "date_ns d = day_number d * day_ns"

section \<open>The window\<close>

text \<open>The loop over the window's dates. The length check before it leaves at most \<open>MaxWindowDays\<close> of
  them, so that many steps and one more are enough.\<close>

primrec date_loop :: "nat \<Rightarrow> date \<Rightarrow> date \<Rightarrow> date list" where
  "date_loop 0 = (\<lambda>d lst. [])"
| "date_loop (Suc k) = (\<lambda>d lst. (if day_number lst < day_number d then [] else d # date_loop k (next_day d) lst))"

definition window_dates :: "date \<Rightarrow> date \<Rightarrow> date list" where
  "window_dates d lst = date_loop 15 d lst"

text \<open>A Go duration saturates below 106752 days. The result is the dates of each day type.\<close>

definition sched_window :: "sched_input \<Rightarrow> sched_error + (string \<Rightarrow> date list)" where
  "sched_window inp =
     (case (parse_date (in_First inp), parse_date (in_Last inp)) of
        (Some d1, Some d2) \<Rightarrow>
          (let days = min (day_number d2 - day_number d1) 106751 + 1; ds = window_dates d1 d2
           in if day_number d2 < day_number d1 then Inl ELastBeforeFirst
              else if MaxWindowDays < days then Inl (EWindowDays days)
              else if filter (\<lambda>d. dayType d = ''weekday'') ds = [] \<or> Saturday \<notin> weekday_of ` set ds \<or> Sunday \<notin> weekday_of ` set ds
                then Inl EWindowDayTypes
              else Inr (\<lambda>dt. filter (\<lambda>d. dayType d = dt) ds))
      | (d1, d2) \<Rightarrow> Inl (EDates (d1 = None) (d2 = None)))"

section \<open>Derivation\<close>

definition cell_attempts :: "(string \<Rightarrow> string) \<Rightarrow> string \<Rightarrow> date list \<Rightarrow> cell \<Rightarrow> attempt list" where
  "cell_attempts sha seed pool c =
     map2 (\<lambda>n d. \<lparr>at_Attempt = n, at_Date = format_date d, at_SlotStart = date_ns d + c_SlotHourUTC c * hour_ns,
                  at_Seed = runSeed sha seed (c_Label c) n\<rparr>)
       [1..<Suc MaxAttempts] (drop (draw sha (seed @ c_Label c) (length pool)) pool)"

definition derive_cell :: "(string \<Rightarrow> string) \<Rightarrow> string \<Rightarrow> (string \<Rightarrow> date list) \<Rightarrow> cell \<Rightarrow> cell" where
  "derive_cell sha seed pools c = c\<lparr>c_Attempts := cell_attempts sha seed (pools (c_DayType c)) c\<rparr>"

definition drawn_date :: "(string \<Rightarrow> string) \<Rightarrow> string \<Rightarrow> (string \<Rightarrow> date list) \<Rightarrow> cell \<Rightarrow> date" where
  "drawn_date sha seed pools c = (let pool = pools (c_DayType c) in pool ! draw sha (seed @ c_Label c) (length pool))"

definition derive :: "(string \<Rightarrow> string) \<Rightarrow> string \<Rightarrow> (string \<Rightarrow> date list) \<Rightarrow> cell list \<times> bool" where
  "derive sha seed pools =
     (let weekend = map (\<lambda>c. weekday_of (drawn_date sha seed pools c)) (filter (\<lambda>c. c_DayType c = ''weekend'') labels)
      in (map (derive_cell sha seed pools) labels, Saturday \<in> set weekend \<and> Sunday \<in> set weekend))"

text \<open>The shuffle of the offsets, from the last index down to 1.\<close>

fun shuffle :: "(string \<Rightarrow> string) \<Rightarrow> string \<Rightarrow> nat \<Rightarrow> int list \<Rightarrow> int list" where
  "shuffle sha seed 0 ms = ms"
| "shuffle sha seed (Suc i) ms =
     (let j = draw sha (seed @ ''offset/'' @ nat_digits (Suc i)) (Suc i + 1)
      in shuffle sha seed i (ms[Suc i := ms ! j, j := ms ! Suc i]))"

definition offset_minutes :: "(string \<Rightarrow> string) \<Rightarrow> string \<Rightarrow> nat \<Rightarrow> int list" where
  "offset_minutes sha seed n = shuffle sha seed (n - 1) (map (\<lambda>i. int i * (OffsetStep div minute_ns)) [0..<n])"

definition seed_at :: "string \<Rightarrow> nat \<Rightarrow> string" where
  "seed_at master counter = (if 0 < counter then master @ nat_digits counter else master)"

function new_loop :: "(string \<Rightarrow> string) \<Rightarrow> sched_input \<Rightarrow> (string \<Rightarrow> date list) \<Rightarrow> nat \<Rightarrow> sched_error + schedule" where
  "new_loop sha inp pools counter =
     (if maxCounter < counter then Inl ECounter
      else let seed = seed_at (in_MasterSeed inp) counter
           in case derive sha seed pools of (cells, ok) \<Rightarrow>
                if \<not> ok then new_loop sha inp pools (Suc counter)
                else Inr \<lparr>s_Input = inp, s_Counter = counter,
                       s_Offsets = map2 (\<lambda>r m. \<lparr>of_Route = r, of_Minutes = m\<rparr>) (in_Routes inp)
                         (offset_minutes sha seed (length (in_Routes inp))),
                       s_Cells = sort_key (\<lambda>c. at_SlotStart (hd (c_Attempts c))) cells\<rparr>)"
  by pat_completeness auto
termination
  by (relation "measure (\<lambda>(sha, inp, pools, counter). Suc maxCounter - counter)") auto

declare new_loop.simps [simp del]

section \<open>Input checks\<close>

definition hex_val :: "char \<Rightarrow> nat option" where
  "hex_val ch = (let k = of_char ch :: nat
     in if 48 \<le> k \<and> k \<le> 57 then Some (k - 48)
        else if 97 \<le> k \<and> k \<le> 102 then Some (k - 87)
        else if 65 \<le> k \<and> k \<le> 70 then Some (k - 55) else None)"

fun hex_decode :: "string \<Rightarrow> nat list option" where
  "hex_decode [] = Some []"
| "hex_decode [a] = None"
| "hex_decode (a # b # s) =
     (case (hex_val a, hex_val b, hex_decode s) of
        (Some x, Some y, Some bs) \<Rightarrow> Some ((16 * x + y) # bs) | _ \<Rightarrow> None)"

definition hex_char :: "nat \<Rightarrow> char" where
  "hex_char k = char_of (if k < 10 then 48 + k else 87 + k)"

definition hex_encode :: "nat list \<Rightarrow> string" where
  "hex_encode bs = concat (map (\<lambda>b. [hex_char (b div 16), hex_char (b mod 16)]) bs)"

definition isSHA256 :: "string \<Rightarrow> bool" where
  "isSHA256 s = (case hex_decode s of None \<Rightarrow> False | Some b \<Rightarrow> length b = 32 \<and> hex_encode b = s)"

text \<open>\<open>slices.Compact\<close> drops adjacent repetitions.\<close>

definition check_config :: "string list \<Rightarrow> route_config \<Rightarrow> sched_error + route_config" where
  "check_config routes c =
     (let hs = sort (rc_HostGroup c)
      in if rc_Route c \<notin> set routes then Inl (ENotScheduled (rc_Route c))
         else if \<not> isSHA256 (rc_ConfigSHA256 c) then Inl (EConfigSHA (rc_Route c) (rc_ConfigSHA256 c))
         else if rc_ConfigHMACSHA256 c \<noteq> [] \<and> \<not> isSHA256 (rc_ConfigHMACSHA256 c)
           then Inl (EConfigHMAC (rc_Route c) (rc_ConfigHMACSHA256 c))
         else if rc_Route c \<notin> set hs \<or> length (remdups_adj hs) \<noteq> length hs then Inl (EHostGroup (rc_Route c) hs)
         else Inr (c\<lparr>rc_HostGroup := hs\<rparr>))"

fun check_configs :: "string list \<Rightarrow> route_config list \<Rightarrow> sched_error + route_config list" where
  "check_configs routes [] = Inr []"
| "check_configs routes (c # cs) =
     (case check_config routes c of
        Inl e \<Rightarrow> Inl e
      | Inr c' \<Rightarrow> (case check_configs routes cs of Inl e \<Rightarrow> Inl e | Inr cs' \<Rightarrow> Inr (c' # cs')))"

text \<open>The first value equal to its predecessor.\<close>

fun repeated :: "'a list \<Rightarrow> 'a option" where
  "repeated (a # b # xs) = (if b = a then Some b else repeated (b # xs))"
| "repeated _ = None"

definition routeConfigs :: "string list \<Rightarrow> route_config list \<Rightarrow> sched_error + route_config list" where
  "routeConfigs routes cs =
     (case check_configs routes cs of
        Inl e \<Rightarrow> Inl e
      | Inr out \<Rightarrow>
          let out' = sort_key rc_Route out
          in case repeated (map rc_Route out') of Some r \<Rightarrow> Inl (ETwoConfigs r) | None \<Rightarrow> Inr out')"

text \<open>The routes are sorted, so an empty name comes first.\<close>

definition check_routes :: "string list \<Rightarrow> sched_error option" where
  "check_routes routes =
     (if routes = [] then Some ENoRoutes
      else if hd routes = [] then Some EEmptyRoute
      else case repeated routes of
        Some r \<Rightarrow> Some (ERouteTwice r)
      | None \<Rightarrow> if slotLength < (int (length routes) - 1) * OffsetStep + StartTolerance + CellLength
                then Some (ETooManyRoutes (length routes)) else None)"

definition check_ledger :: "sched_input \<Rightarrow> sched_error option" where
  "check_ledger inp =
     (if in_LedgerSHA256 inp \<noteq> [] \<and> \<not> isSHA256 (in_LedgerSHA256 inp) then Some (ELedgerSHA (in_LedgerSHA256 inp))
      else if in_LedgerHeadSHA256 inp \<noteq> [] \<and> \<not> isSHA256 (in_LedgerHeadSHA256 inp) then Some (ELedgerHead (in_LedgerHeadSHA256 inp))
      else if in_LedgerLines inp < 0 \<or> (in_LedgerLines inp = 0) \<noteq> (in_LedgerHeadSHA256 inp = [])
        then Some (ELedgerPosition (in_LedgerLines inp) (in_LedgerHeadSHA256 inp))
      else if 0 < in_LedgerLines inp \<and> in_LedgerSHA256 inp = [] then Some ELedgerNoSHA
      else None)"

definition New :: "(string \<Rightarrow> string) \<Rightarrow> sched_input \<Rightarrow> sched_error + schedule" where
  "New sha inp =
     (let routes = sort (in_Routes inp)
      in if in_MasterSeed inp = [] then Inl EEmptySeed
         else case check_routes routes of
           Some e \<Rightarrow> Inl e
         | None \<Rightarrow>
             (case sched_window inp of
                Inl e \<Rightarrow> Inl e
              | Inr pools \<Rightarrow>
                  (case routeConfigs routes (in_Configs inp) of
                     Inl e \<Rightarrow> Inl e
                   | Inr cs \<Rightarrow>
                       (case check_ledger inp of
                          Some e \<Rightarrow> Inl e
                        | None \<Rightarrow> new_loop sha (inp\<lparr>in_Routes := routes, in_Configs := cs\<rparr>) pools 0))))"

section \<open>Reading a schedule\<close>

definition Config :: "schedule \<Rightarrow> string \<Rightarrow> route_config option" where
  "Config s route = find (\<lambda>c. rc_Route c = route) (in_Configs (s_Input s))"

definition offset_of :: "schedule \<Rightarrow> string \<Rightarrow> sched_error + int" where
  "offset_of s route =
     (case find (\<lambda>q. of_Route q = route) (s_Offsets s) of
        Some q \<Rightarrow> Inr (of_Minutes q * minute_ns) | None \<Rightarrow> Inl (ENoRoute route))"

definition run_of :: "string \<Rightarrow> int \<Rightarrow> cell \<Rightarrow> attempt \<Rightarrow> cell_run" where
  "run_of route off c a = \<lparr>cr_Route = route, cr_Label = c_Label c, cr_Attempt = at_Attempt a, cr_Date = at_Date a,
     cr_Start = at_SlotStart a + off, cr_Seed = at_Seed a\<rparr>"

definition Runs :: "schedule \<Rightarrow> string \<Rightarrow> sched_error + cell_run list" where
  "Runs s route =
     (case offset_of s route of
        Inl e \<Rightarrow> Inl e
      | Inr off \<Rightarrow> Inr (map (\<lambda>c. run_of route off c (hd (c_Attempts c))) (s_Cells s)))"

definition Rerun :: "schedule \<Rightarrow> string \<Rightarrow> string \<Rightarrow> int \<Rightarrow> sched_error + cell_run" where
  "Rerun s route label taken =
     (case offset_of s route of
        Inl e \<Rightarrow> Inl e
      | Inr off \<Rightarrow>
          if MaxReruns \<le> taken then Inl (EReruns route taken)
          else case find (\<lambda>c. c_Label c = label) (s_Cells s) of
            None \<Rightarrow> Inl (ENoCell label)
          | Some c \<Rightarrow> if length (c_Attempts c) < 2 then Inl (ENoLaterDate label (c_DayType c))
                      else Inr (run_of route off c (c_Attempts c ! 1)))"

text \<open>\<open>marshal\<close> gives the indented JSON text, \<open>unmarshal\<close> the input field of a JSON text.\<close>

definition sched_JSON :: "(schedule \<Rightarrow> string option) \<Rightarrow> schedule \<Rightarrow> string option" where
  "sched_JSON marshal s = map_option (\<lambda>b. b @ [CHR 10]) (marshal s)"

definition Load :: "(string \<Rightarrow> string) \<Rightarrow> (schedule \<Rightarrow> string option) \<Rightarrow> (string \<Rightarrow> sched_input option) \<Rightarrow> string \<Rightarrow> sched_error + schedule" where
  "Load sha marshal unmarshal data =
     (case unmarshal data of
        None \<Rightarrow> Inl EUnmarshal
      | Some inp \<Rightarrow>
          (case New sha inp of
             Inl e \<Rightarrow> Inl e
           | Inr want \<Rightarrow>
               (case sched_JSON marshal want of
                  None \<Rightarrow> Inl EMarshal
                | Some b \<Rightarrow> if data \<noteq> b then Inl ENotDerived else Inr want)))"

section \<open>The window's dates\<close>

lemma date_loop_spec:
  "proper_date d \<Longrightarrow> day_number lst - day_number d < int k \<Longrightarrow>
     map day_number (date_loop k d lst) = [day_number d..day_number lst]"
proof (induction k arbitrary: d)
  case (Suc k)
  show ?case
  proof (cases "day_number lst < day_number d")
    case False
    have next_d: "day_number (next_day d) = day_number d + 1" by (rule next_day_number [OF Suc.prems(1)])
    have "map day_number (date_loop k (next_day d) lst) = [day_number (next_day d)..day_number lst]"
      by (rule Suc.IH) (use Suc.prems next_d next_day_proper in auto)
    with False next_d show ?thesis by (simp add: upto_rec1 del: day_number.simps next_day.simps)
  qed (simp del: day_number.simps)
qed (simp del: day_number.simps)

lemma window_dates_spec:
  assumes "parse_date s = Some d" and "day_number lst - day_number d < 15"
  shows "map day_number (window_dates d lst) = [day_number d..day_number lst]"
  unfolding window_dates_def
  by (rule date_loop_spec) (use assms parse_date_valid valid_proper in auto)

lemma window_dates_inj:
  assumes "map day_number ds = [a..b]" and "x \<in> set ds" and "y \<in> set ds" and "day_number x = day_number y"
  shows "x = y"
proof -
  have "distinct (map day_number ds)" unfolding assms(1) by simp
  then have "inj_on day_number (set ds)" by (simp add: distinct_map)
  with assms(2-4) show ?thesis by (blast dest: inj_onD)
qed

section \<open>The derivation's result\<close>

definition pools_of :: "date \<Rightarrow> date \<Rightarrow> string \<Rightarrow> date list" where
  "pools_of d1 d2 dt = filter (\<lambda>d. dayType d = dt) (window_dates d1 d2)"

lemma sched_window_ok:
  assumes "sched_window inp = Inr pools"
  shows "\<exists>d1 d2. parse_date (in_First inp) = Some d1 \<and> parse_date (in_Last inp) = Some d2
     \<and> day_number d1 \<le> day_number d2 \<and> day_number d2 - day_number d1 < MaxWindowDays
     \<and> pools = pools_of d1 d2 \<and> pools_of d1 d2 ''weekday'' \<noteq> [] \<and> pools_of d1 d2 ''weekend'' \<noteq> []"
proof -
  obtain d1 d2 where d: "parse_date (in_First inp) = Some d1" "parse_date (in_Last inp) = Some d2"
    using assms by (cases "parse_date (in_First inp)"; cases "parse_date (in_Last inp)") (simp_all add: sched_window_def)
  define a b ds n where defs: "a = day_number d1" "b = day_number d2" "ds = window_dates d1 d2" "n = min (b - a) 106751 + 1"
  have w: "sched_window inp = (if b < a then Inl ELastBeforeFirst
      else if MaxWindowDays < n then Inl (EWindowDays n)
      else if filter (\<lambda>d. dayType d = ''weekday'') ds = [] \<or> Saturday \<notin> weekday_of ` set ds \<or> Sunday \<notin> weekday_of ` set ds
        then Inl EWindowDayTypes
      else Inr (\<lambda>dt. filter (\<lambda>d. dayType d = dt) ds))"
    unfolding sched_window_def d defs(4) unfolding defs(1-3) Let_def by simp
  have ab: "a \<le> b" using assms unfolding w by (cases "b < a") simp_all
  have days: "n \<le> MaxWindowDays" using assms ab unfolding w by (cases "MaxWindowDays < n") simp_all
  have types: "filter (\<lambda>d. dayType d = ''weekday'') ds \<noteq> []" "Saturday \<in> weekday_of ` set ds"
    using assms ab days unfolding w by (auto split: if_splits)
  then have pools: "pools = pools_of d1 d2"
    using assms ab days unfolding w by (auto simp: pools_of_def defs fun_eq_iff split: if_splits)
  obtain d where "d \<in> set ds" "weekday_of d = Saturday" using types(2) by auto
  then have "d \<in> set (pools_of d1 d2 ''weekend'')" by (simp add: pools_of_def dayType_def defs)
  then have "pools_of d1 d2 ''weekend'' \<noteq> []" by (metis empty_iff empty_set)
  moreover have "b - a < MaxWindowDays" using days by (auto simp: MaxWindowDays_def defs(4) min_def split: if_splits)
  ultimately show ?thesis using d ab pools types(1) unfolding defs(1-3) pools_of_def by blast
qed

lemma new_loop_ok:
  assumes "new_loop sha inp pools k = Inr s"
  shows "\<exists>counter. s_Counter s = counter \<and> k \<le> counter \<and> counter \<le> maxCounter \<and> s_Input s = inp
     \<and> derive sha (seed_at (in_MasterSeed inp) counter) pools = (map (derive_cell sha (seed_at (in_MasterSeed inp) counter) pools) labels, True)
     \<and> s_Cells s = sort_key (\<lambda>c. at_SlotStart (hd (c_Attempts c))) (map (derive_cell sha (seed_at (in_MasterSeed inp) counter) pools) labels)
     \<and> s_Offsets s = map2 (\<lambda>r m. \<lparr>of_Route = r, of_Minutes = m\<rparr>) (in_Routes inp)
         (offset_minutes sha (seed_at (in_MasterSeed inp) counter) (length (in_Routes inp)))"
  using assms
proof (induction sha inp pools k rule: new_loop.induct)
  case (1 sha inp pools k)
  let ?seed = "seed_at (in_MasterSeed inp) k"
  have k: "k \<le> maxCounter" using "1.prems" by (cases "maxCounter < k") (simp_all add: new_loop.simps [of sha inp pools k])
  obtain cells b where d: "derive sha ?seed pools = (cells, b)" by fastforce
  then have cells: "cells = map (derive_cell sha ?seed pools) labels" by (simp add: derive_def Let_def)
  show ?case
  proof (cases b)
    case True
    with "1.prems" k d have "s = \<lparr>s_Input = inp, s_Counter = k,
        s_Offsets = map2 (\<lambda>r m. \<lparr>of_Route = r, of_Minutes = m\<rparr>) (in_Routes inp) (offset_minutes sha ?seed (length (in_Routes inp))),
        s_Cells = sort_key (\<lambda>c. at_SlotStart (hd (c_Attempts c))) cells\<rparr>"
      by (simp add: new_loop.simps [of sha inp pools k] Let_def)
    with k d cells True show ?thesis by simp
  next
    case False
    with "1.prems" k d have "new_loop sha inp pools (Suc k) = Inr s"
      by (simp add: new_loop.simps [of sha inp pools k] Let_def)
    then obtain c where "s_Counter s = c" "Suc k \<le> c" and rest: "c \<le> maxCounter \<and> s_Input s = inp
        \<and> derive sha (seed_at (in_MasterSeed inp) c) pools = (map (derive_cell sha (seed_at (in_MasterSeed inp) c) pools) labels, True)
        \<and> s_Cells s = sort_key (\<lambda>c. at_SlotStart (hd (c_Attempts c))) (map (derive_cell sha (seed_at (in_MasterSeed inp) c) pools) labels)
        \<and> s_Offsets s = map2 (\<lambda>r m. \<lparr>of_Route = r, of_Minutes = m\<rparr>) (in_Routes inp)
         (offset_minutes sha (seed_at (in_MasterSeed inp) c) (length (in_Routes inp)))"
      using "1.IH" [OF _ refl d [symmetric]] k False by (metis not_less)
    then show ?thesis by (meson Suc_leD)
  qed
qed

lemma New_ok:
  assumes "New sha inp = Inr s"
  shows "in_MasterSeed inp \<noteq> [] \<and> check_routes (sort (in_Routes inp)) = None \<and> check_ledger inp = None
     \<and> (\<exists>pools cs. sched_window inp = Inr pools \<and> routeConfigs (sort (in_Routes inp)) (in_Configs inp) = Inr cs
           \<and> new_loop sha (inp\<lparr>in_Routes := sort (in_Routes inp), in_Configs := cs\<rparr>) pools 0 = Inr s)"
proof -
  let ?rs = "sort (in_Routes inp)"
  have seed: "in_MasterSeed inp \<noteq> []" using assms by (cases "in_MasterSeed inp = []") (simp_all add: New_def Let_def)
  have routes: "check_routes ?rs = None"
    using assms seed by (cases "check_routes ?rs") (simp_all add: New_def Let_def)
  obtain pools where pools: "sched_window inp = Inr pools"
    using assms seed routes by (cases "sched_window inp") (simp_all add: New_def Let_def)
  obtain cs where cs: "routeConfigs ?rs (in_Configs inp) = Inr cs"
    using assms seed routes pools by (cases "routeConfigs ?rs (in_Configs inp)") (simp_all add: New_def Let_def)
  have led: "check_ledger inp = None"
    using assms seed routes pools cs by (cases "check_ledger inp") (simp_all add: New_def Let_def)
  have "new_loop sha (inp\<lparr>in_Routes := ?rs, in_Configs := cs\<rparr>) pools 0 = Inr s"
    using assms seed routes pools cs led by (simp add: New_def Let_def)
  with seed routes pools cs led show ?thesis by blast
qed

text \<open>The derived cells of an accepted input, over the dates \<open>ds\<close> of its window.\<close>

definition frame :: "(string \<Rightarrow> string) \<Rightarrow> string \<Rightarrow> date list \<Rightarrow> cell list" where
  "frame sha seed ds = map (derive_cell sha seed (\<lambda>dt. filter (\<lambda>d. dayType d = dt) ds)) labels"

lemma New_frame:
  assumes "New sha inp = Inr s"
  shows "\<exists>d1 d2 seed. parse_date (in_First inp) = Some d1 \<and> parse_date (in_Last inp) = Some d2
     \<and> map day_number (window_dates d1 d2) = [day_number d1..day_number d2]
     \<and> pools_of d1 d2 ''weekday'' \<noteq> [] \<and> pools_of d1 d2 ''weekend'' \<noteq> []
     \<and> snd (derive sha seed (pools_of d1 d2)) \<and> in_Routes (s_Input s) = sort (in_Routes inp)
     \<and> s_Cells s = sort_key (\<lambda>c. at_SlotStart (hd (c_Attempts c))) (frame sha seed (window_dates d1 d2))
     \<and> s_Offsets s = map2 (\<lambda>r m. \<lparr>of_Route = r, of_Minutes = m\<rparr>) (sort (in_Routes inp))
         (offset_minutes sha seed (length (in_Routes inp)))"
proof -
  obtain pools cs where pc: "sched_window inp = Inr pools" "routeConfigs (sort (in_Routes inp)) (in_Configs inp) = Inr cs"
    "new_loop sha (inp\<lparr>in_Routes := sort (in_Routes inp), in_Configs := cs\<rparr>) pools 0 = Inr s"
    using New_ok [OF assms] by blast
  obtain d1 d2 where d: "parse_date (in_First inp) = Some d1" "parse_date (in_Last inp) = Some d2"
    "day_number d2 - day_number d1 < MaxWindowDays" "pools = pools_of d1 d2"
    "pools_of d1 d2 ''weekday'' \<noteq> []" "pools_of d1 d2 ''weekend'' \<noteq> []"
    using sched_window_ok [OF pc(1)] by blast
  have "map day_number (window_dates d1 d2) = [day_number d1..day_number d2]"
    using window_dates_spec [OF d(1)] d(3) by (simp add: MaxWindowDays_def)
  moreover have "frame sha seed (window_dates d1 d2) = map (derive_cell sha seed (pools_of d1 d2)) labels" for seed
    by (simp add: frame_def pools_of_def [abs_def])
  ultimately show ?thesis
    using new_loop_ok [OF pc(3)] d by (auto simp del: day_number.simps intro!: exI)
qed

lemma labels_expand: "map (\<lambda>c. (c_Label c, c_DayType c, c_SlotHourUTC c, c_Attempts c)) labels =
  [(''weekday-00'', ''weekday'', 0, []), (''weekday-04'', ''weekday'', 4, []), (''weekday-08'', ''weekday'', 8, []),
   (''weekday-12'', ''weekday'', 12, []), (''weekday-16'', ''weekday'', 16, []), (''weekday-20'', ''weekday'', 20, []),
   (''weekend-00'', ''weekend'', 0, []), (''weekend-04'', ''weekend'', 4, []), (''weekend-08'', ''weekend'', 8, []),
   (''weekend-12'', ''weekend'', 12, []), (''weekend-16'', ''weekend'', 16, []), (''weekend-20'', ''weekend'', 20, [])]"
  by code_simp

lemma labels_mem:
  assumes "c \<in> set labels"
  shows "c_DayType c = ''weekday'' \<or> c_DayType c = ''weekend''" and "\<exists>k. 0 \<le> k \<and> k < 6 \<and> c_SlotHourUTC c = 4 * k"
proof -
  have "(c_Label c, c_DayType c, c_SlotHourUTC c, c_Attempts c) \<in> set (map (\<lambda>c. (c_Label c, c_DayType c, c_SlotHourUTC c, c_Attempts c)) labels)"
    using assms by simp
  then show "c_DayType c = ''weekday'' \<or> c_DayType c = ''weekend''" and "\<exists>k. 0 \<le> k \<and> k < 6 \<and> c_SlotHourUTC c = 4 * k"
    unfolding labels_expand by (auto intro: exI [of _ 0] exI [of _ 1] exI [of _ 2] exI [of _ 3] exI [of _ 4] exI [of _ 5])
qed

lemma labels_inj: "inj_on (\<lambda>c. (c_DayType c, c_SlotHourUTC c)) (set labels)"
proof -
  have "distinct (map (\<lambda>c. (c_DayType c, c_SlotHourUTC c)) labels)" by code_simp
  then show ?thesis by (simp add: distinct_map)
qed

lemma attempt_nth:
  assumes "p < length (cell_attempts sha seed pool c)"
  shows "\<exists>i. draw sha (seed @ c_Label c) (length pool) + p = i \<and> i < length pool \<and> p < 2
     \<and> cell_attempts sha seed pool c ! p = \<lparr>at_Attempt = Suc p, at_Date = format_date (pool ! i),
         at_SlotStart = date_ns (pool ! i) + c_SlotHourUTC c * hour_ns, at_Seed = runSeed sha seed (c_Label c) (Suc p)\<rparr>"
  using assms by (auto simp: cell_attempts_def MaxAttempts_def)

text \<open>An attempt of a cell stands for a date of the cell's day type; its slot is a multiple of four hours.\<close>

lemma slot_grid:
  assumes "l \<in> set labels" and "a \<in> set (cell_attempts sha seed pool l)"
  shows "\<exists>p i k. cell_attempts sha seed pool l ! p = a \<and> p < length (cell_attempts sha seed pool l) \<and> i < length pool
     \<and> i = draw sha (seed @ c_Label l) (length pool) + p \<and> at_SlotStart a = slotLength * (6 * day_number (pool ! i) + k)
     \<and> 0 \<le> k \<and> k < 6 \<and> c_SlotHourUTC l = 4 * k"
proof -
  obtain p where p: "p < length (cell_attempts sha seed pool l)" "cell_attempts sha seed pool l ! p = a"
    using assms(2) by (auto simp: in_set_conv_nth)
  obtain k where k: "0 \<le> k" "k < 6" "c_SlotHourUTC l = 4 * k" using labels_mem(2) [OF assms(1)] by blast
  from attempt_nth [OF p(1)] p(2) k show ?thesis
    by (intro exI [of _ p] exI [of _ "draw sha (seed @ c_Label l) (length pool) + p"] exI [of _ k])
      (auto simp: date_ns_def slotLength_def p(1) simp del: day_number.simps)
qed

lemma slot_inj:
  assumes "map day_number ds = [x..y]" and "l1 \<in> set labels" and "l2 \<in> set labels"
    and "a1 \<in> set (cell_attempts sha seed (filter (\<lambda>d. dayType d = c_DayType l1) ds) l1)"
    and "a2 \<in> set (cell_attempts sha seed (filter (\<lambda>d. dayType d = c_DayType l2) ds) l2)"
    and "at_SlotStart a1 = at_SlotStart a2"
  shows "l1 = l2 \<and> a1 = a2"
proof -
  let ?pool = "\<lambda>l. filter (\<lambda>d. dayType d = c_DayType l) ds"
  obtain p1 i1 k1 where 1: "cell_attempts sha seed (?pool l1) l1 ! p1 = a1" "i1 < length (?pool l1)"
    "i1 = draw sha (seed @ c_Label l1) (length (?pool l1)) + p1"
    "at_SlotStart a1 = slotLength * (6 * day_number (?pool l1 ! i1) + k1)" "0 \<le> k1" "k1 < 6" "c_SlotHourUTC l1 = 4 * k1"
    using slot_grid [OF assms(2,4)] by blast
  obtain p2 i2 k2 where 2: "cell_attempts sha seed (?pool l2) l2 ! p2 = a2" "i2 < length (?pool l2)"
    "i2 = draw sha (seed @ c_Label l2) (length (?pool l2)) + p2"
    "at_SlotStart a2 = slotLength * (6 * day_number (?pool l2 ! i2) + k2)" "0 \<le> k2" "k2 < 6" "c_SlotHourUTC l2 = 4 * k2"
    using slot_grid [OF assms(3,5)] by blast
  have "6 * day_number (?pool l1 ! i1) + k1 = 6 * day_number (?pool l2 ! i2) + k2"
    using assms(6) 1(4) 2(4) by (simp add: slotLength_def del: day_number.simps)
  then have eq: "day_number (?pool l1 ! i1) = day_number (?pool l2 ! i2)" "k1 = k2" using 1(5,6) 2(5,6) by presburger+
  have m1: "?pool l1 ! i1 \<in> set (?pool l1)" and m2: "?pool l2 ! i2 \<in> set (?pool l2)" using 1(2) 2(2) nth_mem by blast+
  then have d: "?pool l1 ! i1 = ?pool l2 ! i2" using window_dates_inj [OF assms(1) _ _ eq(1)] by auto
  then have "c_DayType l1 = c_DayType l2" using m1 m2 by (metis (mono_tags, lifting) mem_Collect_eq set_filter)
  then have l: "l1 = l2" using labels_inj assms(2,3) eq(2) 1(7) 2(7) by (auto dest: inj_onD)
  have "distinct (map day_number ds)" unfolding assms(1) by simp
  then have "distinct (?pool l1)" by (simp add: distinct_map)
  then have "i1 = i2" using d 1(2) 2(2) l nth_eq_iff_index_eq by blast
  then have "p1 = p2" using 1(3) 2(3) l by simp
  with 1(1) 2(1) l show ?thesis by blast
qed

lemma frame_mem:
  "c \<in> set (frame sha seed ds) \<Longrightarrow> \<exists>l\<in>set labels. c = derive_cell sha seed (\<lambda>dt. filter (\<lambda>d. dayType d = dt) ds) l"
  by (auto simp: frame_def)

lemma derive_cell_fields [simp]:
  "c_Label (derive_cell sha seed pools l) = c_Label l" "c_DayType (derive_cell sha seed pools l) = c_DayType l"
  "c_SlotHourUTC (derive_cell sha seed pools l) = c_SlotHourUTC l"
  "c_Attempts (derive_cell sha seed pools l) = cell_attempts sha seed (pools (c_DayType l)) l"
  by (simp_all add: derive_cell_def)

lemma attempts_nonempty: "pool \<noteq> [] \<Longrightarrow> cell_attempts sha seed pool l \<noteq> []"
  by (auto simp: cell_attempts_def MaxAttempts_def draw_def not_le)

lemma attempts_dates:
  "map at_Date (cell_attempts sha seed pool l) = map format_date (take 2 (drop (draw sha (seed @ c_Label l) (length pool)) pool))"
  "map at_SlotStart (cell_attempts sha seed pool l) =
     map (\<lambda>d. date_ns d + c_SlotHourUTC l * hour_ns) (take 2 (drop (draw sha (seed @ c_Label l) (length pool)) pool))"
  by (rule nth_equalityI; simp add: cell_attempts_def MaxAttempts_def min.commute)+

lemma frame_slots_distinct:
  assumes "map day_number ds = [x..y]" and "\<And>dt. dt = ''weekday'' \<or> dt = ''weekend'' \<Longrightarrow> filter (\<lambda>d. dayType d = dt) ds \<noteq> []"
  shows "distinct (map (\<lambda>c. at_SlotStart (hd (c_Attempts c))) (frame sha seed ds))"
proof -
  have "distinct (map c_Label labels)" by code_simp
  then have "distinct labels" by (simp add: distinct_map)
  moreover have "inj_on (\<lambda>l. at_SlotStart (hd (cell_attempts sha seed (filter (\<lambda>d. dayType d = c_DayType l) ds) l))) (set labels)"
  proof (rule inj_onI)
    fix l l'
    assume l: "l \<in> set labels" "l' \<in> set labels" and eq: "at_SlotStart (hd (cell_attempts sha seed (filter (\<lambda>d. dayType d = c_DayType l) ds) l))
        = at_SlotStart (hd (cell_attempts sha seed (filter (\<lambda>d. dayType d = c_DayType l') ds) l'))"
    show "l = l'"
      by (rule conjunct1 [OF slot_inj [OF assms(1) l _ _ eq]]; rule hd_in_set, rule attempts_nonempty, rule assms(2), rule labels_mem(1), rule l)
  qed
  ultimately show ?thesis by (simp add: frame_def distinct_map comp_def inj_on_def)
qed

section \<open>Claims\<close>

text \<open>A window of three days from Friday 2026-01-02, two routes, and a stand-in for SHA-256.\<close>

definition demo_frame :: sched_input where
  "demo_frame = \<lparr>in_MasterSeed = ''seed'', in_First = ''2026-01-02'', in_Last = ''2026-01-04'', in_Routes = [''b'', ''a''],
     in_Configs = [\<lparr>rc_Route = ''b'', rc_ConfigSHA256 = replicate 64 (CHR ''0''), rc_ConfigHMACSHA256 = [], rc_HostGroup = [''b'', ''a'']\<rparr>],
     in_LedgerSHA256 = [], in_LedgerLines = 0, in_LedgerHeadSHA256 = []\<rparr>"

definition demo_sha :: "string \<Rightarrow> string" where
  "demo_sha key = replicate 31 (CHR 0x00) @ [char_of (sum_list (map of_char key) mod 256 :: nat)]"

definition demo_schedule :: schedule where
  "demo_schedule = (case New demo_sha demo_frame of Inr s \<Rightarrow> s)"

lemma demo_new: "New demo_sha demo_frame = Inr demo_schedule"
proof -
  have "is_ok (New demo_sha demo_frame)" by code_simp
  then show ?thesis unfolding demo_schedule_def by (cases "New demo_sha demo_frame") simp_all
qed

text \<open>Claim C29. An accepted input yields the release's frame: the twelve cells of the fixed labels, strictly
  ordered by the slot of their first attempt. Each cell's attempts fall on a date of its day type
  drawn from the dates of the window and, if there is one, on the next such date, at the cell's slot hour. Among the
  weekend cells' first attempts there is one on a Saturday and one on a Sunday.\<close>

theorem schedule_frame:
  assumes "New sha inp = Inr s"
  shows "\<exists>d1 d2. parse_date (in_First inp) = Some d1 \<and> parse_date (in_Last inp) = Some d2
     \<and> map day_number (window_dates d1 d2) = [day_number d1..day_number d2]
     \<and> mset (map (\<lambda>c. (c_Label c, c_DayType c, c_SlotHourUTC c)) (s_Cells s))
         = mset (map (\<lambda>c. (c_Label c, c_DayType c, c_SlotHourUTC c)) labels)
     \<and> sorted_wrt (<) (map (\<lambda>c. at_SlotStart (hd (c_Attempts c))) (s_Cells s))
     \<and> (\<forall>c\<in>set (s_Cells s). \<exists>i. let pool = filter (\<lambda>d. dayType d = c_DayType c) (window_dates d1 d2) in
          i < length pool \<and> map at_Date (c_Attempts c) = map format_date (take 2 (drop i pool))
          \<and> map at_SlotStart (c_Attempts c) = map (\<lambda>d. date_ns d + c_SlotHourUTC c * hour_ns) (take 2 (drop i pool)))
     \<and> (\<forall>wd\<in>{Saturday, Sunday}. \<exists>c\<in>set (s_Cells s). \<exists>d\<in>set (window_dates d1 d2).
          c_DayType c = ''weekend'' \<and> weekday_of d = wd \<and> at_Date (hd (c_Attempts c)) = format_date d)"
proof -
  obtain d1 d2 seed where f: "parse_date (in_First inp) = Some d1" "parse_date (in_Last inp) = Some d2"
    "map day_number (window_dates d1 d2) = [day_number d1..day_number d2]"
    "pools_of d1 d2 ''weekday'' \<noteq> []" "pools_of d1 d2 ''weekend'' \<noteq> []" "snd (derive sha seed (pools_of d1 d2))"
    "s_Cells s = sort_key (\<lambda>c. at_SlotStart (hd (c_Attempts c))) (frame sha seed (window_dates d1 d2))"
    using New_frame [OF assms] by blast
  define ds where "ds = window_dates d1 d2"
  have pool: "filter (\<lambda>d. dayType d = dt) ds \<noteq> []" if "dt = ''weekday'' \<or> dt = ''weekend''" for dt
    using that f(4,5) by (auto simp: pools_of_def ds_def)
  have mset: "mset (s_Cells s) = mset (frame sha seed ds)" by (simp add: f(7) ds_def)
  then have set: "set (s_Cells s) = set (frame sha seed ds)" by (rule mset_eq_setD)
  have cells: "\<exists>i. let pool = filter (\<lambda>d. dayType d = c_DayType c) ds in
          i < length pool \<and> map at_Date (c_Attempts c) = map format_date (take 2 (drop i pool))
          \<and> map at_SlotStart (c_Attempts c) = map (\<lambda>d. date_ns d + c_SlotHourUTC c * hour_ns) (take 2 (drop i pool))"
    if c: "c \<in> set (s_Cells s)" for c
  proof -
    obtain l where l: "l \<in> set labels" "c = derive_cell sha seed (\<lambda>dt. filter (\<lambda>d. dayType d = dt) ds) l"
      using frame_mem [OF c [unfolded set]] by blast
    have "draw sha (seed @ c_Label l) (length (filter (\<lambda>d. dayType d = c_DayType l) ds)) < length (filter (\<lambda>d. dayType d = c_DayType l) ds)"
      using pool [OF labels_mem(1) [OF l(1)]] unfolding draw_def by (intro mod_less_divisor) blast
    then show ?thesis unfolding Let_def l(2) derive_cell_fields by (intro exI conjI) (assumption, rule attempts_dates, rule attempts_dates)
  qed
  have weekend: "\<exists>c\<in>set (s_Cells s). \<exists>d\<in>set ds. c_DayType c = ''weekend'' \<and> weekday_of d = wd \<and> at_Date (hd (c_Attempts c)) = format_date d"
    if wd: "wd \<in> {Saturday, Sunday}" for wd
  proof -
    obtain l where l: "l \<in> set labels" "c_DayType l = ''weekend''" "weekday_of (drawn_date sha seed (pools_of d1 d2) l) = wd"
      using f(6) wd by (auto simp: derive_def Let_def)
    let ?pool = "pools_of d1 d2 ''weekend''"
    let ?i = "draw sha (seed @ c_Label l) (length ?pool)"
    have i: "?i < length ?pool" using f(5) by (simp add: draw_def)
    have "drawn_date sha seed (pools_of d1 d2) l = ?pool ! ?i" by (simp add: drawn_date_def l(2) Let_def)
    moreover have "?pool ! ?i \<in> set ds" using nth_mem [OF i] by (auto simp: pools_of_def ds_def)
    moreover have "at_Date (hd (cell_attempts sha seed ?pool l)) = format_date (?pool ! ?i)"
      using arg_cong [OF attempts_dates(1) [of sha seed ?pool l], of hd] attempts_nonempty [OF f(5), of sha seed l] i
      by (simp add: hd_map hd_drop_conv_nth)
    moreover have "derive_cell sha seed (pools_of d1 d2) l \<in> set (s_Cells s)"
      using l(1) by (simp add: set frame_def pools_of_def [abs_def] ds_def)
    ultimately show ?thesis using l(2,3) by (intro bexI) auto
  qed
  have "sorted_wrt (<) (map (\<lambda>c. at_SlotStart (hd (c_Attempts c))) (s_Cells s))"
    unfolding strict_sorted_iff
    using frame_slots_distinct [of ds _ _ sha seed, OF f(3) [folded ds_def] pool] mset
    by (simp add: f(7) ds_def) (metis mset_eq_imp_distinct_iff mset_map mset_sort)
  moreover have "mset (map (\<lambda>c. (c_Label c, c_DayType c, c_SlotHourUTC c)) (s_Cells s))
      = mset (map (\<lambda>c. (c_Label c, c_DayType c, c_SlotHourUTC c)) labels)"
    by (simp add: mset frame_def image_mset.compositionality comp_def)
  ultimately show ?thesis using f(1-3) cells weekend unfolding ds_def by blast
qed

theorem schedule_frame_witness:
  "length (s_Cells demo_schedule) = 12"
proof -
  have "mset (map (\<lambda>c. (c_Label c, c_DayType c, c_SlotHourUTC c)) (s_Cells demo_schedule))
      = mset (map (\<lambda>c. (c_Label c, c_DayType c, c_SlotHourUTC c)) labels)"
    using schedule_frame [OF demo_new] by (elim exE conjE)
  from arg_cong [OF this, of size] have "length (s_Cells demo_schedule) = length labels" by simp
  moreover have "length labels = 12" by code_simp
  ultimately show ?thesis by simp
qed

lemma shuffle_mset: "i < length ms \<Longrightarrow> mset (shuffle sha seed i ms) = mset ms"
proof (induction i arbitrary: ms)
  case (Suc i)
  let ?j = "draw sha (seed @ ''offset/'' @ nat_digits (Suc i)) (Suc i + 1)"
  have "?j < Suc (Suc i)" by (simp add: draw_def)
  then have "?j < length ms" using Suc.prems by simp
  with Suc show ?case by (simp add: Let_def mset_swap)
qed simp

lemma offset_minutes_mset:
  assumes "0 < n"
  shows "mset (offset_minutes sha seed n) = mset (map (\<lambda>i. 10 * int i) [0..<n])"
proof -
  have "map (\<lambda>i. int i * (OffsetStep div minute_ns)) [0..<n] = map (\<lambda>i. 10 * int i) [0..<n]" by (simp add: OffsetStep_def)
  with assms show ?thesis by (simp only: offset_minutes_def) (rule shuffle_mset, simp)
qed

lemma repeated_None: "repeated xs = None \<longleftrightarrow> distinct_adj xs"
  by (induction xs rule: repeated.induct) auto

lemma sorted_distinct_adj: "sorted xs \<Longrightarrow> distinct_adj xs \<longleftrightarrow> distinct (xs :: 'a :: linorder list)"
proof (induction xs)
  case (Cons x xs)
  show ?case
  proof (cases xs)
    case (Cons y ys)
    have "x \<notin> set xs" if "x \<noteq> y"
      using Cons.prems that by (auto simp: Cons)
    with Cons.IH Cons.prems show ?thesis by (auto simp: Cons)
  qed simp
qed simp

lemma check_routes_ok:
  assumes "check_routes rs = None"
  shows "rs \<noteq> []" and "distinct_adj rs" and "(int (length rs) - 1) * OffsetStep + StartTolerance + CellLength \<le> slotLength"
  using assms by (auto simp: check_routes_def repeated_None [symmetric] split: if_splits option.splits)

text \<open>Every route of the release has an offset of its own: the offsets list the routes sorted by
  name, without repetition, and their minutes are a permutation of 0, 10, 20 and so on.\<close>

theorem schedule_offsets_permutation:
  assumes "New sha inp = Inr s"
  shows "map of_Route (s_Offsets s) = sort (in_Routes inp) \<and> distinct (in_Routes inp)
     \<and> mset (map of_Minutes (s_Offsets s)) = mset (map (\<lambda>i. 10 * int i) [0..<length (in_Routes inp)])"
proof -
  obtain seed where so: "s_Offsets s = map2 (\<lambda>r m. \<lparr>of_Route = r, of_Minutes = m\<rparr>) (sort (in_Routes inp))
      (offset_minutes sha seed (length (in_Routes inp)))"
    using New_frame [OF assms] by blast
  note ok = check_routes_ok [OF conjunct1 [OF conjunct2 [OF New_ok [OF assms]]]]
  have n: "0 < length (in_Routes inp)" using ok(1) by (cases "in_Routes inp") simp_all
  have len: "length (offset_minutes sha seed (length (in_Routes inp))) = length (in_Routes inp)"
    using arg_cong [OF offset_minutes_mset [OF n, of sha seed], of size] by simp
  have "distinct (sort (in_Routes inp))" using ok(2) by (simp add: sorted_distinct_adj)
  moreover have "map of_Route (s_Offsets s) = sort (in_Routes inp)" by (simp add: so len map_fst_zip case_prod_unfold comp_def)
  moreover have "map of_Minutes (s_Offsets s) = offset_minutes sha seed (length (in_Routes inp))"
    by (simp add: so len map_snd_zip case_prod_unfold comp_def)
  ultimately show ?thesis using offset_minutes_mset [OF n, of sha seed] by simp
qed

theorem schedule_offsets_permutation_witness:
  "map of_Route (s_Offsets demo_schedule) = [''a'', ''b'']"
proof -
  have "sort (in_Routes demo_frame) = [''a'', ''b'']" by code_simp
  then show ?thesis using schedule_offsets_permutation [OF demo_new] by simp
qed

text \<open>A run that the schedule hands out for a route: one of its first attempts or a re-run.\<close>

definition route_run :: "schedule \<Rightarrow> string \<Rightarrow> cell_run \<Rightarrow> bool" where
  "route_run s route r \<longleftrightarrow> (\<exists>rs. Runs s route = Inr rs \<and> r \<in> set rs) \<or> (\<exists>label taken. Rerun s route label taken = Inr r)"

lemma find_mem: "find P xs = Some x \<Longrightarrow> x \<in> set xs \<and> P x"
  by (induction xs) (auto split: if_splits)

lemma route_run_attempt:
  assumes "route_run s route r" and "\<And>c. c \<in> set (s_Cells s) \<Longrightarrow> c_Attempts c \<noteq> []"
  shows "\<exists>off c a. offset_of s route = Inr off \<and> c \<in> set (s_Cells s) \<and> a \<in> set (c_Attempts c) \<and> r = run_of route off c a"
proof -
  obtain off where off: "offset_of s route = Inr off"
    using assms(1) by (cases "offset_of s route") (auto simp: route_run_def Runs_def Rerun_def)
  consider c where "c \<in> set (s_Cells s)" "r = run_of route off c (hd (c_Attempts c))"
    | c where "c \<in> set (s_Cells s)" "2 \<le> length (c_Attempts c)" "r = run_of route off c (c_Attempts c ! 1)"
    using assms(1) off find_mem by (fastforce simp: route_run_def Runs_def Rerun_def split: if_splits option.splits)
  then show ?thesis
  proof cases
    case 1
    with off assms(2) hd_in_set show ?thesis by blast
  next
    case 2
    then have "c_Attempts c ! 1 \<in> set (c_Attempts c)" by (intro nth_mem) simp
    with 2 off show ?thesis by blast
  qed
qed

lemma New_cells:
  assumes "New sha inp = Inr s"
  shows "\<And>c. c \<in> set (s_Cells s) \<Longrightarrow> c_Attempts c \<noteq> []"
    and "\<And>c a. c \<in> set (s_Cells s) \<Longrightarrow> a \<in> set (c_Attempts c) \<Longrightarrow> slotLength dvd at_SlotStart a"
    and "\<And>c a c' a'. c \<in> set (s_Cells s) \<Longrightarrow> a \<in> set (c_Attempts c) \<Longrightarrow> c' \<in> set (s_Cells s) \<Longrightarrow> a' \<in> set (c_Attempts c')
      \<Longrightarrow> at_SlotStart a = at_SlotStart a' \<Longrightarrow> c = c' \<and> a = a'"
proof -
  obtain d1 d2 seed where f: "map day_number (window_dates d1 d2) = [day_number d1..day_number d2]"
    "pools_of d1 d2 ''weekday'' \<noteq> []" "pools_of d1 d2 ''weekend'' \<noteq> []"
    "s_Cells s = sort_key (\<lambda>c. at_SlotStart (hd (c_Attempts c))) (frame sha seed (window_dates d1 d2))"
    using New_frame [OF assms] by blast
  define ds where "ds = window_dates d1 d2"
  have pool: "filter (\<lambda>d. dayType d = dt) ds \<noteq> []" if "dt = ''weekday'' \<or> dt = ''weekend''" for dt
    using that f(2,3) by (auto simp: pools_of_def ds_def)
  have set: "set (s_Cells s) = set (frame sha seed ds)" by (simp add: f(4) ds_def)
  show "c_Attempts c \<noteq> []" if c: "c \<in> set (s_Cells s)" for c
    using frame_mem [OF c [unfolded set]] attempts_nonempty [OF pool [OF labels_mem(1)]] by auto
  show "slotLength dvd at_SlotStart a" if c: "c \<in> set (s_Cells s)" and a: "a \<in> set (c_Attempts c)" for c a
    using frame_mem [OF c [unfolded set]] a slot_grid by (metis derive_cell_fields(4) dvd_triv_left)
  show "c = c' \<and> a = a'" if c: "c \<in> set (s_Cells s)" and a: "a \<in> set (c_Attempts c)" and c': "c' \<in> set (s_Cells s)"
    and a': "a' \<in> set (c_Attempts c')" and eq: "at_SlotStart a = at_SlotStart a'" for c a c' a'
    using frame_mem [OF c [unfolded set]] frame_mem [OF c' [unfolded set]] a a' eq slot_inj [OF f(1) [folded ds_def]]
    by (metis derive_cell_fields(4))
qed

lemma offset_of_bounds:
  assumes "New sha inp = Inr s" and "offset_of s route = Inr off"
  shows "0 \<le> off" and "off + StartTolerance + CellLength \<le> slotLength"
proof -
  obtain seed where so: "s_Offsets s = map2 (\<lambda>r m. \<lparr>of_Route = r, of_Minutes = m\<rparr>) (sort (in_Routes inp))
      (offset_minutes sha seed (length (in_Routes inp)))"
    using New_frame [OF assms(1)] by blast
  note ok = check_routes_ok [OF conjunct1 [OF conjunct2 [OF New_ok [OF assms(1)]]]]
  obtain q where q: "q \<in> set (s_Offsets s)" "off = of_Minutes q * minute_ns"
    using assms(2) find_mem by (fastforce simp: offset_of_def split: option.splits)
  then have "of_Minutes q \<in> set (offset_minutes sha seed (length (in_Routes inp)))" by (auto simp: so dest: set_zip_rightD)
  moreover have "0 < length (in_Routes inp)" using ok(1) by (cases "in_Routes inp") simp_all
  ultimately have "of_Minutes q \<in> set (map (\<lambda>i. 10 * int i) [0..<length (in_Routes inp)])"
    using mset_eq_setD [OF offset_minutes_mset] by blast
  then obtain i where i: "of_Minutes q = 10 * int i" "i < length (in_Routes inp)" by auto
  then show "0 \<le> off" and "off + StartTolerance + CellLength \<le> slotLength"
    using q(2) ok(3) by (simp_all add: OffsetStep_def)
qed

text \<open>Claim C28. A route's runs never overlap: a run of an accepted schedule that starts on time ends before
  the next slot begins, and two different runs of one route, first attempts or re-runs, that both start on time
  are at least a cell's length apart.\<close>

theorem schedule_runs_never_overlap:
  assumes "New sha inp = Inr s" and "route_run s route r1" and "route_run s route r2" and "r1 \<noteq> r2"
    and "OnTime r1 t1" and "OnTime r2 t2"
  shows "(t1 + CellLength \<le> t2 \<or> t2 + CellLength \<le> t1)
     \<and> (\<exists>slot. slotLength dvd slot \<and> slot - StartTolerance \<le> t1 \<and> t1 + CellLength \<le> slot + slotLength)"
proof -
  note cells = New_cells [OF assms(1)]
  obtain off c1 a1 where 1: "offset_of s route = Inr off" "c1 \<in> set (s_Cells s)" "a1 \<in> set (c_Attempts c1)" "r1 = run_of route off c1 a1"
    using route_run_attempt [OF assms(2) cells(1)] by blast
  obtain off' c2 a2 where "offset_of s route = Inr off'" "c2 \<in> set (s_Cells s)" "a2 \<in> set (c_Attempts c2)" "r2 = run_of route off' c2 a2"
    using route_run_attempt [OF assms(3) cells(1)] by blast
  with 1(1) have 2: "c2 \<in> set (s_Cells s)" "a2 \<in> set (c_Attempts c2)" "r2 = run_of route off c2 a2" by simp_all
  have ne: "at_SlotStart a1 \<noteq> at_SlotStart a2" using cells(3) [OF 1(2,3) 2(1,2)] assms(4) 1(4) 2(3) by blast
  obtain k1 k2 where k: "at_SlotStart a1 = slotLength * k1" "at_SlotStart a2 = slotLength * k2"
    using cells(2) [OF 1(2,3)] cells(2) [OF 2(1,2)] by (auto elim!: dvdE)
  have t1: "at_SlotStart a1 + off - StartTolerance \<le> t1" "t1 \<le> at_SlotStart a1 + off + StartTolerance"
    and t2: "at_SlotStart a2 + off - StartTolerance \<le> t2" "t2 \<le> at_SlotStart a2 + off + StartTolerance"
    using assms(5,6) by (simp_all add: OnTime_def 1(4) 2(3) run_of_def Let_def)
  have off: "0 \<le> off" "off + StartTolerance + CellLength \<le> slotLength" using offset_of_bounds [OF assms(1) 1(1)] by blast+
  define x y where xy: "x = at_SlotStart a1" "y = at_SlotStart a2"
  have "k1 + 1 \<le> k2 \<or> k2 + 1 \<le> k1" using ne k by auto
  then have "x + slotLength \<le> y \<or> y + slotLength \<le> x" unfolding xy k by (auto simp: slotLength_def)
  moreover have "t1 + CellLength \<le> t2" if "x + slotLength \<le> y"
    using that t1 t2 unfolding xy [symmetric] slotLength_def CellLength_def StartTolerance_def by simp
  moreover have "t2 + CellLength \<le> t1" if "y + slotLength \<le> x"
    using that t1 t2 unfolding xy [symmetric] slotLength_def CellLength_def StartTolerance_def by simp
  ultimately have "t1 + CellLength \<le> t2 \<or> t2 + CellLength \<le> t1" by blast
  moreover have "at_SlotStart a1 - StartTolerance \<le> t1" "t1 + CellLength \<le> at_SlotStart a1 + slotLength" using t1 off by simp_all
  ultimately show ?thesis using cells(2) [OF 1(2,3)] by (intro conjI exI [of _ "at_SlotStart a1"])
qed

theorem schedule_runs_never_overlap_witness:
  "\<exists>r1 r2. route_run demo_schedule ''a'' r1 \<and> route_run demo_schedule ''a'' r2 \<and> r1 \<noteq> r2
     \<and> (cr_Start r1 + CellLength \<le> cr_Start r2 \<or> cr_Start r2 + CellLength \<le> cr_Start r1)"
proof -
  have "case Runs demo_schedule ''a'' of Inr rs \<Rightarrow> length rs = 12 \<and> rs ! 0 \<noteq> rs ! 1 | Inl e \<Rightarrow> False" by code_simp
  then obtain rs where rs: "Runs demo_schedule ''a'' = Inr rs" "length rs = 12" "rs ! 0 \<noteq> rs ! 1"
    by (cases "Runs demo_schedule ''a''") auto
  then have "route_run demo_schedule ''a'' (rs ! 0)" "route_run demo_schedule ''a'' (rs ! 1)" by (auto simp: route_run_def)
  moreover have "OnTime r (cr_Start r)" for r by (simp add: OnTime_def StartTolerance_def)
  ultimately show ?thesis using schedule_runs_never_overlap [OF demo_new _ _ rs(3)] rs(3) by blast
qed

lemma check_config_idem:
  assumes "check_config routes c = Inr c'"
  shows "check_config routes c' = Inr c'"
proof -
  have "c' = c\<lparr>rc_HostGroup := sort (rc_HostGroup c)\<rparr>" using assms by (simp add: check_config_def Let_def split: if_splits)
  with assms show ?thesis by (simp add: check_config_def Let_def sorted_sort_id split: if_splits)
qed

lemma check_configs_idem:
  "check_configs routes cs = Inr out \<Longrightarrow> \<forall>c\<in>set out. check_config routes c = Inr c"
  by (induction cs arbitrary: out) (auto dest: check_config_idem split: sum.splits)

lemma check_configs_fixed: "\<forall>c\<in>set cs. check_config routes c = Inr c \<Longrightarrow> check_configs routes cs = Inr cs"
  by (induction cs) auto

lemma routeConfigs_idem:
  assumes "routeConfigs routes cs = Inr out"
  shows "routeConfigs routes out = Inr out"
proof -
  obtain mid where mid: "check_configs routes cs = Inr mid"
    using assms by (cases "check_configs routes cs") (simp_all add: routeConfigs_def)
  then have out: "out = sort_key rc_Route mid" and rep: "repeated (map rc_Route out) = None"
    using assms by (auto simp: routeConfigs_def Let_def split: option.splits)
  have "sort_key rc_Route out = out" by (rule properties_for_sort_key) (simp_all add: out)
  moreover have "check_configs routes out = Inr out"
    using check_configs_idem [OF mid] by (intro check_configs_fixed) (simp add: out)
  ultimately show ?thesis using rep by (simp add: routeConfigs_def Let_def)
qed

lemma New_idem:
  assumes "New sha inp = Inr s"
  shows "New sha (s_Input s) = Inr s"
proof -
  obtain pools cs where ok: "in_MasterSeed inp \<noteq> []" "check_routes (sort (in_Routes inp)) = None" "check_ledger inp = None"
    "sched_window inp = Inr pools" "routeConfigs (sort (in_Routes inp)) (in_Configs inp) = Inr cs"
    "new_loop sha (inp\<lparr>in_Routes := sort (in_Routes inp), in_Configs := cs\<rparr>) pools 0 = Inr s"
    using New_ok [OF assms] by blast
  have s: "s_Input s = inp\<lparr>in_Routes := sort (in_Routes inp), in_Configs := cs\<rparr>" using new_loop_ok [OF ok(6)] by blast
  have w: "sched_window (s_Input s) = Inr pools" using ok(4) by (simp add: s sched_window_def)
  have "check_ledger (s_Input s) = check_ledger inp" unfolding s check_ledger_def by simp
  with ok(3) have l: "check_ledger (s_Input s) = None" by simp
  have r: "sort (in_Routes (s_Input s)) = sort (in_Routes inp)" by (simp add: s sorted_sort_id)
  have "routeConfigs (sort (in_Routes inp)) (in_Configs (s_Input s)) = Inr cs" using routeConfigs_idem [OF ok(5)] by (simp add: s)
  moreover have "(s_Input s)\<lparr>in_Routes := sort (in_Routes inp), in_Configs := cs\<rparr> = inp\<lparr>in_Routes := sort (in_Routes inp), in_Configs := cs\<rparr>"
    by (simp add: s)
  moreover have "in_MasterSeed (s_Input s) \<noteq> []" using ok(1) by (simp add: s)
  ultimately show ?thesis using ok(2,6) w l unfolding New_def Let_def r by simp
qed

text \<open>Claim C30. The committed form of a derived schedule loads as that schedule whenever the decoder reads its
  input back, and whatever loads is byte for byte the committed form of the schedule its own input derives.\<close>

theorem committed_schedule_loads:
  "(New sha inp = Inr s \<and> sched_JSON marshal s = Some b \<and> unmarshal b = Some (s_Input s) \<longrightarrow> Load sha marshal unmarshal b = Inr s)
   \<and> (Load sha marshal unmarshal data = Inr s \<longrightarrow>
        sched_JSON marshal s = Some data \<and> (\<exists>inp. unmarshal data = Some inp \<and> New sha inp = Inr s))"
proof (intro conjI impI)
  assume a: "New sha inp = Inr s \<and> sched_JSON marshal s = Some b \<and> unmarshal b = Some (s_Input s)"
  then have "New sha (s_Input s) = Inr s" using New_idem by blast
  with a show "Load sha marshal unmarshal b = Inr s" by (simp add: Load_def)
next
  assume l: "Load sha marshal unmarshal data = Inr s"
  obtain inp where inp: "unmarshal data = Some inp" using l by (cases "unmarshal data") (simp_all add: Load_def)
  obtain w where w: "New sha inp = Inr w" using l inp by (cases "New sha inp") (simp_all add: Load_def)
  obtain b where b: "sched_JSON marshal w = Some b" using l inp w by (cases "sched_JSON marshal w") (simp_all add: Load_def)
  then have "data = b \<and> w = s" using l inp w by (cases "data = b") (simp_all add: Load_def)
  with inp w b show "sched_JSON marshal s = Some data" "\<exists>inp. unmarshal data = Some inp \<and> New sha inp = Inr s" by blast+
qed

theorem committed_schedule_loads_witness:
  "Load demo_sha (\<lambda>s. Some ''json'') (\<lambda>b. if b = ''json'' @ [CHR 10] then Some (s_Input demo_schedule) else None) (''json'' @ [CHR 10])
     = Inr demo_schedule"
  using committed_schedule_loads [of demo_sha demo_frame demo_schedule "\<lambda>s. Some ''json''" "''json'' @ [CHR 10]"
      "\<lambda>b. if b = ''json'' @ [CHR 10] then Some (s_Input demo_schedule) else None" "[]"]
  by (simp add: demo_new sched_JSON_def)

end
