(* ===== verification/ReleaseConfig.thy ===== *)
theory ReleaseConfig
  imports Calendar "HOL-Library.Sublist"
begin

text \<open>
  The release profile's target checks of \<^verbatim>\<open>internal/config/release.go\<close> with the header matching of
  \<^verbatim>\<open>config.go\<close> and \<^verbatim>\<open>validate.go\<close>: recorded and unpublished limits, the balance ruling, retention,
  the documented responses, naming, and the response headers that are recorded and withheld. A
  \<open>validator\<close> accumulates messages; the model keeps each message's field path. Strings are ASCII
  bytes, on which \<open>strings.EqualFold\<close>, \<open>ToLower\<close> and \<open>TrimSpace\<close> act as below;
  \<open>net/url\<close>'s parser is the parameter \<open>url_ok\<close>.
\<close>

section \<open>Strings\<close>

definition lower_char :: "char \<Rightarrow> char" where
  "lower_char ch = (let k = of_char ch :: nat in if 65 \<le> k \<and> k \<le> 90 then char_of (k + 32) else ch)"

definition ToLower :: "string \<Rightarrow> string" where
  "ToLower s = map lower_char s"

definition EqualFold :: "string \<Rightarrow> string \<Rightarrow> bool" where
  "EqualFold a b \<longleftrightarrow> ToLower a = ToLower b"

definition is_space :: "char \<Rightarrow> bool" where
  "is_space ch \<longleftrightarrow> (let k = of_char ch :: nat in k = 32 \<or> 9 \<le> k \<and> k \<le> 13)"

definition TrimSpace :: "string \<Rightarrow> string" where
  "TrimSpace s = rev (dropWhile is_space (rev (dropWhile is_space s)))"

definition cut_star :: "string \<Rightarrow> string option" where
  "cut_star s = (if s \<noteq> [] \<and> last s = CHR ''*'' then Some (butlast s) else None)"

definition trim_star :: "string \<Rightarrow> string" where
  "trim_star s = (case cut_star s of Some p \<Rightarrow> p | None \<Rightarrow> s)"

definition in_range :: "char \<Rightarrow> char \<Rightarrow> char \<Rightarrow> bool" where
  "in_range lo hi ch \<longleftrightarrow> (of_char lo :: nat) \<le> of_char ch \<and> (of_char ch :: nat) \<le> of_char hi"

definition header_char :: "char \<Rightarrow> bool" where
  "header_char ch \<longleftrightarrow> in_range (CHR ''a'') (CHR ''z'') ch \<or> in_range (CHR ''A'') (CHR ''Z'') ch
     \<or> in_range (CHR ''0'') (CHR ''9'') ch \<or> ch = CHR ''-''"

definition headerToken :: "string \<Rightarrow> bool" where
  "headerToken s \<longleftrightarrow> s \<noteq> [] \<and> list_all header_char s"

definition fieldKey :: "string \<Rightarrow> bool" where
  "fieldKey s \<longleftrightarrow> s \<noteq> [] \<and> list_all (\<lambda>ch. header_char ch \<or> ch = CHR ''_'') s"

definition sha256Hex :: "string \<Rightarrow> bool" where
  "sha256Hex s \<longleftrightarrow> length s = 64 \<and> list_all (\<lambda>ch. in_range (CHR ''0'') (CHR ''9'') ch \<or> in_range (CHR ''a'') (CHR ''f'') ch) s"

section \<open>Header patterns\<close>

text \<open>An entry ending in a star matches the names its prefix opens.\<close>

definition headerMatch :: "string \<Rightarrow> string \<Rightarrow> bool" where
  "headerMatch entry name =
     (case cut_star entry of
        Some p \<Rightarrow> length p \<le> length name \<and> EqualFold (take (length p) name) p
      | None \<Rightarrow> EqualFold entry name)"

definition headerCovers :: "string \<Rightarrow> string \<Rightarrow> bool" where
  "headerCovers a entry =
     (case cut_star a of
        Some p \<Rightarrow> length p \<le> length (trim_star entry) \<and> EqualFold (take (length p) (trim_star entry)) p
      | None \<Rightarrow> cut_star entry = None \<and> EqualFold a entry)"

definition credentialHeaders :: "string list" where
  "credentialHeaders = [''Authorization'', ''Proxy-Authorization'', ''Cookie'', ''Set-Cookie'', ''X-Api-Key'', ''Api-Key'']"

definition CredentialHeader :: "string \<Rightarrow> bool" where
  "CredentialHeader name \<longleftrightarrow> list_ex (EqualFold name) credentialHeaders"

definition HeaderAllowed :: "string list \<Rightarrow> string \<Rightarrow> bool" where
  "HeaderAllowed allow name \<longleftrightarrow> \<not> CredentialHeader name \<and> list_ex (\<lambda>e. headerMatch e name) allow"

definition RequestIDHeader :: "string \<Rightarrow> bool" where
  "RequestIDHeader name \<longleftrightarrow>
     (let n = filter (\<lambda>ch. ch \<noteq> CHR ''-'' \<and> ch \<noteq> CHR ''_'') (ToLower name)
      in suffix ''requestid'' n \<and> \<not> sublist ''ratelimit'' n)"

section \<open>The target's records\<close>

record limit =
  l_Dimension :: string
  l_Value :: rat
  l_Marking :: string
  l_WindowS :: rat
  l_OperatorSet :: bool
  l_Counting :: string
  l_OutputBurndown :: rat
  l_Source :: string
  l_Retrieved :: string
  l_SHA256 :: string
  l_HMACSHA256 :: string

record unpublished_limit =
  ul_Dimension :: string
  ul_Source :: string
  ul_Retrieved :: string
  ul_SHA256 :: string
  ul_Ruled :: string
  ul_Ruling :: string

record balance_unavailable =
  bu_Kind :: string
  bu_Reason :: string
  bu_Ruled :: string
  bu_Ruling :: string

record retention =
  rt_ModelOutput :: string
  rt_Provision :: string
  rt_Deletion :: string
  rt_Source :: string
  rt_Retrieved :: string
  rt_SHA256 :: string

record reported_model =
  rm_Name :: string
  rm_Source :: string
  rm_Retrieved :: string
  rm_SHA256 :: string

record naming =
  n_Provider :: string
  n_Lines :: "string list"
  n_PermissionRequired :: bool
  n_PermissionRecord :: string

record status_doc =
  sd_Status :: int
  sd_Meaning :: string
  sd_Source :: string
  sd_Retrieved :: string

record error_doc =
  ed_Type :: string
  ed_Status :: int
  ed_Meaning :: string
  ed_Source :: string
  ed_Retrieved :: string

record billing_refusal =
  br_Status :: int
  br_BodyContains :: string
  br_Meaning :: string
  br_Source :: string
  br_Retrieved :: string

record target_probe =
  tp_LimitsURL :: string
  tp_LimitsRetained :: bool

record target =
  t_Name :: string
  t_ModelName :: string
  t_Limits :: "limit list"
  t_UnpublishedLimits :: "unpublished_limit list"
  t_ResponseHeaders :: "string list"
  t_RetainedHeaders :: "string list"
  t_Probe :: "target_probe option"
  t_BalanceUnavailable :: "balance_unavailable option"
  t_Naming :: "naming option"
  t_Retention :: "retention option"
  t_ReportedModel :: "reported_model option"
  t_StatusDocs :: "status_doc list"
  t_ErrorDocs :: "error_doc list"
  t_BillingRefusals :: "billing_refusal list"

definition Confidential :: "target \<Rightarrow> bool" where
  "Confidential t \<longleftrightarrow> list_ex (\<lambda>l. l_Marking l = ''confidential'') (t_Limits t)"

definition HeaderRetained :: "target \<Rightarrow> string \<Rightarrow> bool" where
  "HeaderRetained t name \<longleftrightarrow> list_ex (\<lambda>e. headerMatch e name) (t_RetainedHeaders t)"

definition KeepsModelOutput :: "target \<Rightarrow> bool" where
  "KeepsModelOutput t = (case t_Retention t of None \<Rightarrow> True | Some r \<Rightarrow> rt_ModelOutput r \<noteq> ''none'')"

definition ExpectedModel :: "target \<Rightarrow> string" where
  "ExpectedModel t = (case t_ReportedModel t of Some r \<Rightarrow> rm_Name r | None \<Rightarrow> t_ModelName t)"

definition Matches :: "billing_refusal \<Rightarrow> int \<Rightarrow> string \<Rightarrow> bool" where
  "Matches b status body \<longleftrightarrow> status = br_Status b \<and> sublist (br_BodyContains b) body"

section \<open>Validation\<close>

definition limitDimensions :: "string list" where
  "limitDimensions = [''requests_per_minute'', ''requests_per_second'', ''tokens_per_minute'', ''input_tokens_per_minute'',
     ''output_tokens_per_minute'', ''concurrent_requests'', ''requests_per_day'', ''tokens_per_day'',
     ''spend_per_window_usd'', ''spend_per_month_usd'', ''auto_reload_threshold_usd'']"

definition markings :: "string list" where
  "markings = [''public'', ''confidential'']"

definition countings :: "string list" where
  "countings = [''input_and_output'', ''input'', ''output_burndown'']"

definition err_if :: "bool \<Rightarrow> string \<Rightarrow> string list" where
  "err_if b path = (if b then [path] else [])"

text \<open>A source is a file name or, where it holds a scheme separator, an http or https URL.\<close>

definition bad_source :: "(string \<Rightarrow> bool) \<Rightarrow> string \<Rightarrow> bool" where
  "bad_source url_ok s = (let src = TrimSpace s in src = [] \<or> sublist ''://'' src \<and> \<not> url_ok src)"

definition bad_date :: "string \<Rightarrow> bool" where
  "bad_date s \<longleftrightarrow> parse_date s = None"

definition validateLimit :: "(string \<Rightarrow> bool) \<Rightarrow> string \<Rightarrow> limit \<Rightarrow> string list" where
  "validateLimit url_ok field l =
     (let tok = (l_Dimension l = ''tokens_per_minute'' \<or> l_Dimension l = ''tokens_per_day'');
          spend = (l_Dimension l = ''spend_per_window_usd''); burn = (l_Counting l = ''output_burndown'');
          conf = (l_Marking l = ''confidential'')
      in err_if (l_Dimension l \<notin> set limitDimensions) (field @ ''.dimension'')
       @ err_if (l_Value l \<le> 0) (field @ ''.value'')
       @ err_if (l_Marking l \<notin> set markings) (field @ ''.marking'')
       @ err_if (spend \<and> l_WindowS l \<le> 0 \<or> \<not> spend \<and> l_WindowS l \<noteq> 0) (field @ ''.window_s'')
       @ err_if (tok \<and> l_Counting l \<notin> set countings \<or> \<not> tok \<and> l_Counting l \<noteq> []) (field @ ''.counting'')
       @ err_if (burn \<and> l_OutputBurndown l < 1 \<or> \<not> burn \<and> l_OutputBurndown l \<noteq> 0) (field @ ''.output_burndown'')
       @ err_if (bad_source url_ok (l_Source l)) (field @ ''.source'')
       @ err_if (bad_date (l_Retrieved l)) (field @ ''.retrieved'')
       @ (if \<not> conf then if \<not> sha256Hex (l_SHA256 l) then [field @ ''.sha256'']
                           else err_if (l_HMACSHA256 l \<noteq> []) (field @ ''.hmac_sha256'')
          else if l_SHA256 l \<noteq> [] then [field @ ''.sha256'']
          else err_if (\<not> sha256Hex (l_HMACSHA256 l)) (field @ ''.hmac_sha256'')))"

definition unpublishedDimensionRe :: "string \<Rightarrow> bool" where
  "unpublishedDimensionRe s \<longleftrightarrow> s \<noteq> [] \<and> in_range (CHR ''a'') (CHR ''z'') (hd s)
     \<and> list_all (\<lambda>ch. in_range (CHR ''a'') (CHR ''z'') ch \<or> in_range (CHR ''0'') (CHR ''9'') ch \<or> ch = CHR ''_'') (tl s)"

definition validateUnpublishedLimit :: "(string \<Rightarrow> bool) \<Rightarrow> string \<Rightarrow> unpublished_limit \<Rightarrow> string list \<Rightarrow> string list" where
  "validateUnpublishedLimit url_ok field u seen =
     err_if (\<not> unpublishedDimensionRe (ul_Dimension u) \<or> ul_Dimension u \<in> set seen) (field @ ''.dimension'')
     @ err_if (bad_source url_ok (ul_Source u)) (field @ ''.source'')
     @ err_if (bad_date (ul_Retrieved u)) (field @ ''.retrieved'')
     @ err_if (\<not> sha256Hex (ul_SHA256 u)) (field @ ''.sha256'')
     @ err_if (case (parse_date (ul_Ruled u), parse_date (ul_Retrieved u)) of
                 (None, _) \<Rightarrow> True | (Some r, Some d) \<Rightarrow> day_number r < day_number d | (Some r, None) \<Rightarrow> False) (field @ ''.ruled'')
     @ err_if (TrimSpace (ul_Ruling u) = []) (field @ ''.ruling'')"

definition validateBalanceUnavailable :: "string \<Rightarrow> balance_unavailable \<Rightarrow> string list \<Rightarrow> string list" where
  "validateBalanceUnavailable field b dims =
     err_if (if bu_Kind b = ''prepaid'' then ''auto_reload_threshold_usd'' \<notin> set dims
             else if bu_Kind b = ''postpaid'' then ''spend_per_month_usd'' \<notin> set dims else True) (field @ ''.kind'')
     @ err_if (TrimSpace (bu_Reason b) = []) (field @ ''.reason'')
     @ err_if (bad_date (bu_Ruled b)) (field @ ''.ruled'')
     @ err_if (TrimSpace (bu_Ruling b) = []) (field @ ''.ruling'')"

definition validateRetention :: "(string \<Rightarrow> bool) \<Rightarrow> string \<Rightarrow> retention \<Rightarrow> string list" where
  "validateRetention url_ok field r =
     err_if (rt_ModelOutput r \<notin> set [''protocol_period'', ''none'']) (field @ ''.model_output'')
     @ err_if (TrimSpace (rt_Provision r) = []) (field @ ''.provision'')
     @ err_if (TrimSpace (rt_Deletion r) = []) (field @ ''.deletion'')
     @ err_if (bad_source url_ok (rt_Source r)) (field @ ''.source'')
     @ err_if (bad_date (rt_Retrieved r)) (field @ ''.retrieved'')
     @ err_if (\<not> sha256Hex (rt_SHA256 r)) (field @ ''.sha256'')"

definition validateReportedModel :: "(string \<Rightarrow> bool) \<Rightarrow> string \<Rightarrow> reported_model \<Rightarrow> string \<Rightarrow> string list" where
  "validateReportedModel url_ok field r requested =
     err_if (rm_Name r = [] \<or> TrimSpace (rm_Name r) \<noteq> rm_Name r \<or> rm_Name r = requested) (field @ ''.name'')
     @ err_if (bad_source url_ok (rm_Source r)) (field @ ''.source'')
     @ err_if (bad_date (rm_Retrieved r)) (field @ ''.retrieved'')
     @ err_if (\<not> sha256Hex (rm_SHA256 r)) (field @ ''.sha256'')"

definition validateDoc :: "(string \<Rightarrow> bool) \<Rightarrow> string \<Rightarrow> string \<Rightarrow> string \<Rightarrow> string \<Rightarrow> string list" where
  "validateDoc url_ok field meaning source retrieved =
     err_if (TrimSpace meaning = []) (field @ ''.meaning'')
     @ err_if (bad_source url_ok source) (field @ ''.source'')
     @ err_if (bad_date retrieved) (field @ ''.retrieved'')"

definition bad_status :: "int \<Rightarrow> bool" where
  "bad_status s \<longleftrightarrow> s < 100 \<or> 599 < s \<or> s = 200"

definition validateStatusDoc :: "(string \<Rightarrow> bool) \<Rightarrow> string \<Rightarrow> status_doc \<Rightarrow> int list \<Rightarrow> string list" where
  "validateStatusDoc url_ok field d seen =
     err_if (bad_status (sd_Status d) \<or> sd_Status d \<in> set seen) (field @ ''.status'')
     @ validateDoc url_ok field (sd_Meaning d) (sd_Source d) (sd_Retrieved d)"

definition validateErrorDoc :: "(string \<Rightarrow> bool) \<Rightarrow> string \<Rightarrow> error_doc \<Rightarrow> string list \<Rightarrow> string list" where
  "validateErrorDoc url_ok field d seen =
     err_if (ed_Type d = [] \<or> TrimSpace (ed_Type d) \<noteq> ed_Type d \<or> ed_Type d \<in> set seen) (field @ ''.type'')
     @ err_if (ed_Status d \<noteq> 0 \<and> bad_status (ed_Status d)) (field @ ''.status'')
     @ validateDoc url_ok field (ed_Meaning d) (ed_Source d) (ed_Retrieved d)"

definition validateBillingRefusal :: "(string \<Rightarrow> bool) \<Rightarrow> string \<Rightarrow> billing_refusal \<Rightarrow> (int \<times> string) list \<Rightarrow> string list" where
  "validateBillingRefusal url_ok field b seen =
     err_if (br_Status b < 400 \<or> 599 < br_Status b) (field @ ''.status'')
     @ err_if (TrimSpace (br_BodyContains b) \<noteq> br_BodyContains b) (field @ ''.body_contains'')
     @ err_if ((br_Status b, br_BodyContains b) \<in> set seen) field
     @ validateDoc url_ok field (br_Meaning b) (br_Source b) (br_Retrieved b)"

definition idx :: "string \<Rightarrow> string \<Rightarrow> nat \<Rightarrow> string" where
  "idx field key i = field @ key @ ''['' @ nat_digits i @ '']''"

fun validate_lines :: "string \<Rightarrow> nat \<Rightarrow> string list \<Rightarrow> string list \<Rightarrow> string list" where
  "validate_lines field i seen [] = []"
| "validate_lines field i seen (l # ls) =
     err_if (TrimSpace l = [] \<or> l \<in> set seen) (idx field ''.lines'' i) @ validate_lines field (Suc i) (l # seen) ls"

definition validateNaming :: "string \<Rightarrow> naming \<Rightarrow> string list" where
  "validateNaming field n =
     err_if (TrimSpace (n_Provider n) = []) (field @ ''.provider'')
     @ err_if (n_Lines n = []) (field @ ''.lines'')
     @ validate_lines field 0 [] (n_Lines n)
     @ err_if (n_PermissionRequired n \<and> TrimSpace (n_PermissionRecord n) = []) (field @ ''.permission_record'')"

text \<open>The loop over the allowlist; \<open>seen\<close> holds the lower-case entries before it.\<close>

fun response_headers_loop :: "string \<Rightarrow> nat \<Rightarrow> string list \<Rightarrow> string list \<Rightarrow> string list" where
  "response_headers_loop field i seen [] = []"
| "response_headers_loop field i seen (e # es) =
     (if \<not> headerToken (trim_star e) then idx field ''.response_headers'' i # response_headers_loop field (Suc i) seen es
      else err_if (ToLower e \<in> set seen) (idx field ''.response_headers'' i)
         @ concat (map (\<lambda>cred. err_if (headerMatch e cred) (idx field ''.response_headers'' i)) credentialHeaders)
         @ response_headers_loop field (Suc i) (ToLower e # seen) es)"

definition validateResponseHeaders :: "string \<Rightarrow> target \<Rightarrow> string list" where
  "validateResponseHeaders field t = response_headers_loop field 0 [] (t_ResponseHeaders t)"

fun retained_headers_loop :: "string \<Rightarrow> string list \<Rightarrow> nat \<Rightarrow> string list \<Rightarrow> string list \<Rightarrow> string list" where
  "retained_headers_loop field allow i seen [] = []"
| "retained_headers_loop field allow i seen (e # es) =
     (if \<not> headerToken (trim_star e) then idx field ''.retained_headers'' i # retained_headers_loop field allow (Suc i) seen es
      else err_if (ToLower e \<in> set seen) (idx field ''.retained_headers'' i)
         @ err_if (\<not> list_ex (\<lambda>a. headerCovers a e) allow) (idx field ''.retained_headers'' i)
         @ err_if (headerMatch e ''Retry-After'') (idx field ''.retained_headers'' i)
         @ retained_headers_loop field allow (Suc i) (ToLower e # seen) es)"

definition validateRetainedHeaders :: "string \<Rightarrow> target \<Rightarrow> string list" where
  "validateRetainedHeaders field t = retained_headers_loop field (t_ResponseHeaders t) 0 [] (t_RetainedHeaders t)"

fun confidential_loop :: "string \<Rightarrow> string list \<Rightarrow> nat \<Rightarrow> string list \<Rightarrow> string list" where
  "confidential_loop field ret i [] = []"
| "confidential_loop field ret i (e # es) =
     (if cut_star e = None \<and> (EqualFold e ''Retry-After'' \<or> RequestIDHeader e) then []
      else err_if (\<not> list_ex (\<lambda>r. headerCovers r e) ret) (idx field ''.response_headers'' i))
     @ confidential_loop field ret (Suc i) es"

definition validateConfidentialRetention :: "string \<Rightarrow> target \<Rightarrow> string list" where
  "validateConfidentialRetention field t =
     (if \<not> Confidential t then []
      else confidential_loop field (t_RetainedHeaders t) 0 (t_ResponseHeaders t)
         @ err_if (case t_Probe t of None \<Rightarrow> False | Some p \<Rightarrow> tp_LimitsURL p \<noteq> [] \<and> \<not> tp_LimitsRetained p)
             (field @ ''.probe.limits_retained''))"

text \<open>\<open>usdDecimal\<close>: the regular expression is the ledger's, and the amount must be positive.\<close>

definition usdDecimal :: "string \<Rightarrow> rat option" where
  "usdDecimal s = (case decimal s of Some r \<Rightarrow> if 0 < r then Some r else None | None \<Rightarrow> None)"

definition validateLedgerCaps :: "string \<Rightarrow> string \<Rightarrow> string \<Rightarrow> string list" where
  "validateLedgerCaps field routeUSD globalUSD =
     err_if (usdDecimal routeUSD = None) (field @ ''.route_usd'')
     @ err_if (usdDecimal globalUSD = None) (field @ ''.global_usd'')
     @ err_if (case (usdDecimal routeUSD, usdDecimal globalUSD) of (Some r, Some g) \<Rightarrow> g < r | _ \<Rightarrow> False) (field @ ''.route_usd'')"

text \<open>The part of \<open>validateReleaseTarget\<close> that goes over the target's recorded limits, rulings and documents.\<close>

fun unpublished_loop :: "(string \<Rightarrow> bool) \<Rightarrow> string \<Rightarrow> nat \<Rightarrow> string list \<Rightarrow> unpublished_limit list \<Rightarrow> string list" where
  "unpublished_loop url_ok field i seen [] = []"
| "unpublished_loop url_ok field i seen (u # us) =
     validateUnpublishedLimit url_ok (idx field ''.unpublished_limits'' i) u seen
     @ unpublished_loop url_ok field (Suc i) (ul_Dimension u # seen) us"

fun status_loop :: "(string \<Rightarrow> bool) \<Rightarrow> string \<Rightarrow> nat \<Rightarrow> int list \<Rightarrow> status_doc list \<Rightarrow> string list" where
  "status_loop url_ok field i seen [] = []"
| "status_loop url_ok field i seen (d # ds) =
     validateStatusDoc url_ok (idx field ''.status_docs'' i) d seen @ status_loop url_ok field (Suc i) (sd_Status d # seen) ds"

fun error_loop :: "(string \<Rightarrow> bool) \<Rightarrow> string \<Rightarrow> nat \<Rightarrow> string list \<Rightarrow> error_doc list \<Rightarrow> string list" where
  "error_loop url_ok field i seen [] = []"
| "error_loop url_ok field i seen (d # ds) =
     validateErrorDoc url_ok (idx field ''.error_docs'' i) d seen @ error_loop url_ok field (Suc i) (ed_Type d # seen) ds"

fun refusal_loop :: "(string \<Rightarrow> bool) \<Rightarrow> string \<Rightarrow> nat \<Rightarrow> (int \<times> string) list \<Rightarrow> billing_refusal list \<Rightarrow> string list" where
  "refusal_loop url_ok field i seen [] = []"
| "refusal_loop url_ok field i seen (b # bs) =
     validateBillingRefusal url_ok (idx field ''.billing_refusals'' i) b seen
     @ refusal_loop url_ok field (Suc i) ((br_Status b, br_BodyContains b) # seen) bs"

definition validate_target_records :: "(string \<Rightarrow> bool) \<Rightarrow> string \<Rightarrow> target \<Rightarrow> string list" where
  "validate_target_records url_ok field t =
     err_if (t_Limits t = []) (field @ ''.limits'')
     @ concat (map2 (\<lambda>i l. validateLimit url_ok (idx field ''.limits'' i) l) [0..<length (t_Limits t)] (t_Limits t))
     @ unpublished_loop url_ok field 0 (map l_Dimension (t_Limits t)) (t_UnpublishedLimits t)
     @ (case t_BalanceUnavailable t of None \<Rightarrow> []
        | Some b \<Rightarrow> validateBalanceUnavailable (field @ ''.balance_unavailable'') b
            (map l_Dimension (t_Limits t) @ map ul_Dimension (t_UnpublishedLimits t)))
     @ (case t_Naming t of None \<Rightarrow> [field @ ''.naming''] | Some n \<Rightarrow> validateNaming (field @ ''.naming'') n)
     @ (case t_Retention t of None \<Rightarrow> [field @ ''.retention''] | Some r \<Rightarrow> validateRetention url_ok (field @ ''.retention'') r)
     @ (case t_ReportedModel t of None \<Rightarrow> []
        | Some r \<Rightarrow> validateReportedModel url_ok (field @ ''.reported_model'') r (t_ModelName t))
     @ status_loop url_ok field 0 [] (t_StatusDocs t)
     @ error_loop url_ok field 0 [] (t_ErrorDocs t)
     @ refusal_loop url_ok field 0 [] (t_BillingRefusals t)"

section \<open>Header patterns are exact\<close>

lemma cut_star_Some: "cut_star s = Some p \<longleftrightarrow> s = p @ ''*''"
  by (cases s rule: rev_cases) (auto simp: cut_star_def)

lemma ToLower_take: "ToLower (take n s) = take n (ToLower s)"
  by (simp add: ToLower_def take_map)

lemma ToLower_length [simp]: "length (ToLower s) = length s"
  by (simp add: ToLower_def)

lemma EqualFold_length: "EqualFold a b \<Longrightarrow> length a = length b"
  unfolding EqualFold_def by (metis ToLower_length)

text \<open>Both matchings compare an opening of the lower-case names.\<close>

lemma prefix_match: "length p \<le> length s \<and> EqualFold (take (length p) s) p \<longleftrightarrow> prefix (ToLower p) (ToLower s)"
proof
  assume "length p \<le> length s \<and> EqualFold (take (length p) s) p"
  then have "take (length p) (ToLower s) = ToLower p" by (simp add: EqualFold_def ToLower_take)
  then show "prefix (ToLower p) (ToLower s)" by (metis take_is_prefix)
next
  assume "prefix (ToLower p) (ToLower s)"
  then obtain z where "ToLower s = ToLower p @ z" by (rule prefixE)
  then show "length p \<le> length s \<and> EqualFold (take (length p) s) p"
    by (metis EqualFold_def ToLower_length ToLower_take append_eq_conv_conj le_add1 length_append)
qed

lemma headerMatch_star: "headerMatch (p @ ''*'') name \<longleftrightarrow> prefix (ToLower p) (ToLower name)"
  using cut_star_Some [of "p @ ''*''" p] by (simp add: headerMatch_def prefix_match)

lemma headerMatch_literal: "cut_star e = None \<Longrightarrow> headerMatch e name \<longleftrightarrow> ToLower e = ToLower name"
  by (simp add: headerMatch_def EqualFold_def)

lemma headerCovers_star: "headerCovers (p @ ''*'') e \<longleftrightarrow> prefix (ToLower p) (ToLower (trim_star e))"
  using cut_star_Some [of "p @ ''*''" p] by (simp add: headerCovers_def prefix_match)

lemma headerCovers_iff:
  "headerCovers a e \<longleftrightarrow> (\<forall>name. headerMatch e name \<longrightarrow> headerMatch a name)"
proof (cases "cut_star a")
  case None
  show ?thesis
  proof (cases "cut_star e")
    case None
    with \<open>cut_star a = None\<close> show ?thesis by (auto simp: headerMatch_literal headerCovers_def EqualFold_def)
  next
    case (Some q)
    then have e: "e = q @ ''*''" by (simp add: cut_star_Some)
    have "headerMatch e q" "headerMatch e (q @ ''x'')" by (simp_all add: e headerMatch_star ToLower_def)
    moreover have "\<not> (headerMatch a q \<and> headerMatch a (q @ ''x''))"
      using \<open>cut_star a = None\<close> by (auto simp: headerMatch_literal ToLower_def)
    moreover have "\<not> headerCovers a e" using Some \<open>cut_star a = None\<close> by (simp add: headerCovers_def)
    ultimately show ?thesis by blast
  qed
next
  case (Some p)
  then have a: "a = p @ ''*''" by (simp add: cut_star_Some)
  show ?thesis
  proof (cases "cut_star e")
    case None
    then show ?thesis by (auto simp: a headerMatch_star headerCovers_star headerMatch_literal trim_star_def)
  next
    case (Some q)
    then have e: "e = q @ ''*''" "trim_star e = q" by (simp add: cut_star_Some, simp add: trim_star_def)
    show ?thesis
      unfolding a headerCovers_star e(2) unfolding e(1) headerMatch_star
      by (meson prefix_order.dual_order.refl prefix_order.trans)
  qed
qed

lemma header_covers_sound: "headerCovers a e \<Longrightarrow> headerMatch e name \<Longrightarrow> headerMatch a name"
  using headerCovers_iff by blast

text \<open>Claim C33. An allowlist entry covers another exactly when every header name the other matches also
  matches it, stars and letter case included.\<close>

theorem header_covers_exact:
  "headerCovers a e \<longleftrightarrow> (\<forall>name. headerMatch e name \<longrightarrow> headerMatch a name)"
  by (rule headerCovers_iff)

theorem header_covers_exact_witness:
  "headerMatch ''x-ratelimit-*'' ''X-RateLimit-Limit-Tokens'' \<and> headerMatch ''X-Rate*'' ''X-RateLimit-Limit-Tokens''"
proof -
  have "headerCovers ''X-Rate*'' ''x-ratelimit-*''" and m: "headerMatch ''x-ratelimit-*'' ''X-RateLimit-Limit-Tokens''" by code_simp+
  then show ?thesis using header_covers_exact [of "''X-Rate*''" "''x-ratelimit-*''"] by blast
qed

lemma err_if_Nil: "err_if b p = [] \<longleftrightarrow> \<not> b"
  by (simp add: err_if_def)

lemma confidential_loop_ok:
  "confidential_loop field ret i es = [] \<Longrightarrow> e \<in> set es \<Longrightarrow>
     (cut_star e = None \<and> (EqualFold e ''Retry-After'' \<or> RequestIDHeader e)) \<or> (\<exists>r\<in>set ret. headerCovers r e)"
  by (induction es arbitrary: i) (auto simp: err_if_Nil list_ex_iff split: if_splits)

lemma retained_headers_ok:
  "retained_headers_loop field allow i seen es = [] \<Longrightarrow> e \<in> set es \<Longrightarrow>
     (\<exists>a\<in>set allow. headerCovers a e) \<and> \<not> headerMatch e ''Retry-After''"
  by (induction es arbitrary: i seen) (auto simp: err_if_Nil list_ex_iff split: if_splits)

lemma RequestIDHeader_fold: "ToLower e = ToLower name \<Longrightarrow> RequestIDHeader e = RequestIDHeader name"
  by (simp add: RequestIDHeader_def)

text \<open>Claim C31. On a target with a confidential limit whose header lists validate, every response header
  that is recorded has its value withheld, unless it is Retry-After or identifies the request; Retry-After is
  never withheld, and only headers on the allowlist are.\<close>

theorem confidential_headers_withheld:
  assumes "Confidential t" and "validateConfidentialRetention field t = []" and "validateRetainedHeaders field t = []"
  shows "(HeaderAllowed (t_ResponseHeaders t) name \<longrightarrow>
            HeaderRetained t name \<or> EqualFold name ''Retry-After'' \<or> RequestIDHeader name)
     \<and> (EqualFold name ''Retry-After'' \<longrightarrow> \<not> HeaderRetained t name)
     \<and> (HeaderRetained t name \<longrightarrow> CredentialHeader name \<or> HeaderAllowed (t_ResponseHeaders t) name)"
proof (intro conjI impI)
  assume "HeaderAllowed (t_ResponseHeaders t) name"
  then obtain e where e: "e \<in> set (t_ResponseHeaders t)" "headerMatch e name" by (auto simp: HeaderAllowed_def list_ex_iff)
  have loop: "confidential_loop field (t_RetainedHeaders t) 0 (t_ResponseHeaders t) = []"
    using assms(1,2) by (simp add: validateConfidentialRetention_def)
  from confidential_loop_ok [OF loop e(1)]
  show "HeaderRetained t name \<or> EqualFold name ''Retry-After'' \<or> RequestIDHeader name"
  proof
    assume lit: "cut_star e = None \<and> (EqualFold e ''Retry-After'' \<or> RequestIDHeader e)"
    then have eq: "ToLower e = ToLower name" using e(2) headerMatch_literal by blast
    from lit show ?thesis unfolding EqualFold_def eq RequestIDHeader_fold [OF eq] by blast
  next
    assume "\<exists>r\<in>set (t_RetainedHeaders t). headerCovers r e"
    then show ?thesis using header_covers_sound [OF _ e(2)] unfolding HeaderRetained_def list_ex_iff by blast
  qed
next
  assume fold: "EqualFold name ''Retry-After''"
  have match: "headerMatch e name \<longleftrightarrow> headerMatch e ''Retry-After''" for e
  proof (cases "cut_star e")
    case None
    with fold show ?thesis by (simp add: headerMatch_literal EqualFold_def)
  next
    case (Some p)
    then have "e = p @ ''*''" by (simp add: cut_star_Some)
    with fold show ?thesis by (simp only: headerMatch_star EqualFold_def)
  qed
  have "\<not> headerMatch e name" if "e \<in> set (t_RetainedHeaders t)" for e
    using retained_headers_ok [OF assms(3) [unfolded validateRetainedHeaders_def] that] match [of e] by blast
  then show "\<not> HeaderRetained t name" by (simp add: HeaderRetained_def list_ex_iff)
next
  assume "HeaderRetained t name"
  then obtain r where r: "r \<in> set (t_RetainedHeaders t)" "headerMatch r name" by (auto simp: HeaderRetained_def list_ex_iff)
  then obtain a where "a \<in> set (t_ResponseHeaders t)" "headerCovers a r"
    using retained_headers_ok [OF assms(3) [unfolded validateRetainedHeaders_def]] by blast
  then show "CredentialHeader name \<or> HeaderAllowed (t_ResponseHeaders t) name"
    using header_covers_sound [OF _ r(2)] unfolding HeaderAllowed_def list_ex_iff by blast
qed

definition demo_limit :: limit where
  "demo_limit = \<lparr>l_Dimension = ''requests_per_minute'', l_Value = 600, l_Marking = ''confidential'', l_WindowS = 0,
     l_OperatorSet = False, l_Counting = [], l_OutputBurndown = 0, l_Source = ''console.png'', l_Retrieved = ''2026-01-02'',
     l_SHA256 = [], l_HMACSHA256 = replicate 64 (CHR ''a'')\<rparr>"

definition demo_target :: target where
  "demo_target = \<lparr>t_Name = ''a'', t_ModelName = ''m'', t_Limits = [demo_limit], t_UnpublishedLimits = [],
     t_ResponseHeaders = [''Retry-After'', ''x-ratelimit-*'', ''X-Request-Id''], t_RetainedHeaders = [''X-RateLimit-*''],
     t_Probe = None, t_BalanceUnavailable = None, t_Naming = None, t_Retention = None, t_ReportedModel = None,
     t_StatusDocs = [], t_ErrorDocs = [], t_BillingRefusals = []\<rparr>"

theorem confidential_headers_withheld_witness:
  "HeaderRetained demo_target ''X-RateLimit-Limit-Tokens''"
proof -
  let ?t = demo_target
  have "Confidential ?t" "validateConfidentialRetention ''target'' ?t = []" "validateRetainedHeaders ''target'' ?t = []"
    and "HeaderAllowed (t_ResponseHeaders ?t) ''X-RateLimit-Limit-Tokens''" "\<not> EqualFold ''X-RateLimit-Limit-Tokens'' ''Retry-After''"
      "\<not> RequestIDHeader ''X-RateLimit-Limit-Tokens''" by code_simp+
  then show ?thesis using confidential_headers_withheld [of ?t "''target''" "''X-RateLimit-Limit-Tokens''"] by blast
qed

end
