(* ===== verification/Ceiling.thy ===== *)
theory Ceiling
  imports Ledger ReleaseConfig Ladder Client
begin

text \<open>
  The ceiling rule of \<^verbatim>\<open>internal/admission/ceiling.go\<close>: the traffic plan of a release route, the nominal
  demand of each ladder step against every recorded limit, the admitted steps, the check of a published verdict, and
  the settlement counts of \<^verbatim>\<open>sent.go\<close>. A \<open>*big.Rat\<close> is a \<open>rat\<close>; \<open>rnd\<close> is the conversion
  to float64. The full configuration validation is the parameter \<open>validate\<close>; request counts are integers,
  far below the width of \<open>int\<close>.
\<close>

section \<open>Plans and verdicts\<close>

record plan =
  pl_WarmupRequests :: int
  pl_StepRequests :: "int list"
  pl_Cells :: int
  pl_DayCells :: int
  pl_ProbeRequests :: int

record ceiling_config =
  cf_Release :: bool
  cf_Ladder :: ladder_config
  cf_InputBoundTokens :: int
  cf_CeilingTokens :: int
  cf_RouteUSD :: string
  cf_Target :: target
  cf_HTTPTimeoutS :: int

text \<open>\<open>math.Round\<close> rounds half away from zero.\<close>

definition round_away :: "rat \<Rightarrow> int" where
  "round_away x = (if 0 \<le> x then \<lfloor>x + 1 / 2\<rfloor> else \<lceil>x - 1 / 2\<rceil>)"

definition ReleaseCells :: int where "ReleaseCells = 12"
definition ReleaseReruns :: int where "ReleaseReruns = 2"
definition ReleaseDayCells :: int where "ReleaseDayCells = 6"
definition ReleaseProbeAllowance :: int where "ReleaseProbeAllowance = 100"

text \<open>\<open>None\<close> is the index out of range of a ladder without steps.\<close>

definition ExpectedPlan :: "(rat \<Rightarrow> rat) \<Rightarrow> ceiling_config \<Rightarrow> plan option" where
  "ExpectedPlan rnd cfg =
     (let l = cf_Ladder cfg
      in case lc_StepsRPS l of
           [] \<Rightarrow> None
         | r0 # _ \<Rightarrow> Some \<lparr>pl_WarmupRequests = round_away (rnd (r0 * lc_WarmupS l)),
             pl_StepRequests = map (\<lambda>r. round_away (rnd (r * lc_StepS l))) (lc_StepsRPS l),
             pl_Cells = ReleaseCells + ReleaseReruns, pl_DayCells = ReleaseDayCells, pl_ProbeRequests = ReleaseProbeAllowance\<rparr>)"

record demand =
  dm_Dimension :: string
  dm_Limit :: int
  dm_Unpublished :: bool
  dm_Confidential :: bool
  dm_Source :: string
  dm_HMACSHA256 :: string
  dm_Value :: rat
  dm_Demand :: rat
  dm_Fraction :: rat
  dm_Half :: bool
  dm_Pass :: bool

record step =
  sp_RPS :: rat
  sp_Admitted :: bool
  sp_Binding :: "demand option"
  sp_Demands :: "demand list"

record verdict =
  v_Route :: string
  v_InputTokens :: int
  v_CeilingTokens :: int
  v_PerRequestUSD :: string
  v_ProbeUSD :: string
  v_TopRPS :: rat
  v_CellUSD :: string
  v_EditionUSD :: string
  v_Plan :: plan
  v_Steps :: "step list"

definition Admitted :: "verdict \<Rightarrow> rat list" where
  "Admitted v = map sp_RPS (filter sp_Admitted (v_Steps v))"

definition ReleaseTokens :: "ceiling_config \<Rightarrow> tokens" where
  "ReleaseTokens cfg = \<lparr>tok_Input = cf_InputBoundTokens cfg, tok_Output = cf_CeilingTokens cfg\<rparr>"

definition ReleaseProbeTokens :: "ceiling_config \<Rightarrow> tokens" where
  "ReleaseProbeTokens cfg = \<lparr>tok_Input = cf_InputBoundTokens cfg, tok_Output = Max (set [512, 1024])\<rparr>"

datatype ceiling_error = ENotRelease | EInvalidConfig | EPlanSteps nat nat | EPlan plan | EPrice ledger_error
  | ERouteCap string | EPanicDimension string | EPanicProbe
  | ERulePrice string | ENoPrice tokens | EUnderPriced tokens string

fun covers_each :: "state \<Rightarrow> string \<Rightarrow> (tokens \<times> string) list \<Rightarrow> ceiling_error option" where
  "covers_each st name [] = None"
| "covers_each st name ((tok, want) # cs) =
     (case decimal want of
        None \<Rightarrow> Some (ERulePrice want)
      | Some w \<Rightarrow>
          (case price_of st name tok of
             None \<Rightarrow> Some (ENoPrice tok)
           | Some have \<Rightarrow> if have < w then Some (EUnderPriced tok want) else covers_each st name cs))"

definition Covers :: "state \<Rightarrow> ceiling_config \<Rightarrow> verdict \<Rightarrow> ceiling_error option" where
  "Covers st cfg v = covers_each st (t_Name (cf_Target cfg))
     [(ReleaseTokens cfg, v_PerRequestUSD v), (ReleaseProbeTokens cfg, v_ProbeUSD v)]"

section \<open>Demands\<close>

definition request_tokens :: "limit \<Rightarrow> int \<Rightarrow> int \<Rightarrow> rat" where
  "request_tokens l inTok outTok =
     (if l_Counting l = ''input'' then of_int inTok
      else if l_Counting l = ''output_burndown'' then of_int inTok + of_int outTok * l_OutputBurndown l
      else of_int (inTok + outTok))"

text \<open>The step's demand against a limit, and whether it is a half test; \<open>None\<close> is the panic on an unknown
  dimension.\<close>

definition limitDemand :: "limit \<Rightarrow> rat \<Rightarrow> int \<Rightarrow> int \<Rightarrow> int \<Rightarrow> int \<Rightarrow> rat \<Rightarrow> int \<Rightarrow> rat \<Rightarrow> rat \<Rightarrow> (rat \<times> bool) option" where
  "limitDemand l r cell dayCells inTok outTok c hardTimeoutS cellUSD editionUSD =
     (let perMinute = r * 60; day = of_int (dayCells * cell); dmn = l_Dimension l
      in if dmn = ''requests_per_minute'' then Some (perMinute, True)
         else if dmn = ''requests_per_second'' then Some (r, True)
         else if dmn = ''tokens_per_minute'' then Some (perMinute * request_tokens l inTok outTok, True)
         else if dmn = ''input_tokens_per_minute'' then Some (perMinute * of_int inTok, True)
         else if dmn = ''output_tokens_per_minute'' then Some (perMinute * of_int outTok, True)
         else if dmn = ''concurrent_requests'' then Some (r * of_int hardTimeoutS, True)
         else if dmn = ''requests_per_day'' then Some (day, True)
         else if dmn = ''tokens_per_day'' then Some (day * request_tokens l inTok outTok, True)
         else if dmn = ''spend_per_window_usd'' then Some (r * l_WindowS l * c, True)
         else if dmn = ''spend_per_month_usd'' then Some (editionUSD, False)
         else if dmn = ''auto_reload_threshold_usd'' then Some (cellUSD, False)
         else None)"

definition test_bound :: "rat \<Rightarrow> bool \<Rightarrow> rat" where
  "test_bound v half = (if half then v / 2 else v)"

definition demand_of :: "(rat \<Rightarrow> rat) \<Rightarrow> string \<Rightarrow> int \<Rightarrow> rat \<Rightarrow> rat \<Rightarrow> bool \<Rightarrow> demand" where
  "demand_of rnd dmn index v d half =
     \<lparr>dm_Dimension = dmn, dm_Limit = index, dm_Unpublished = False, dm_Confidential = False, dm_Source = [],
      dm_HMACSHA256 = [], dm_Value = rnd v, dm_Demand = rnd d, dm_Fraction = rnd (d / v), dm_Half = half,
      dm_Pass = (d \<le> test_bound v half)\<rparr>"

definition withhold :: "limit \<Rightarrow> demand \<Rightarrow> demand" where
  "withhold l dm =
     (if l_Marking l = ''confidential''
      then dm\<lparr>dm_Value := 0, dm_Fraction := 0, dm_Confidential := True, dm_Source := l_Source l, dm_HMACSHA256 := l_HMACSHA256 l\<rparr>
      else dm)"

section \<open>The rule\<close>

text \<open>What a step's demands depend on besides the step: the configuration, the plan and the two prices.\<close>

fun limit_demands :: "(rat \<Rightarrow> rat) \<Rightarrow> (limit \<Rightarrow> (rat \<times> bool) option) \<Rightarrow> nat \<Rightarrow> limit list \<Rightarrow> ceiling_error + demand list" where
  "limit_demands rnd dem i [] = Inr []"
| "limit_demands rnd dem i (l # ls) =
     (case dem l of
        None \<Rightarrow> Inl (EPanicDimension (l_Dimension l))
      | Some (d, half) \<Rightarrow>
          (case limit_demands rnd dem (Suc i) ls of
             Inl e \<Rightarrow> Inl e
           | Inr dms \<Rightarrow> Inr (withhold l (demand_of rnd (l_Dimension l) (int i) (l_Value l) d half) # dms)))"

definition unpublished_demands :: "(rat \<Rightarrow> rat) \<Rightarrow> rat \<Rightarrow> unpublished_limit list \<Rightarrow> demand list" where
  "unpublished_demands rnd r us =
     map2 (\<lambda>i u. (demand_of rnd (''unpublished:'' @ ul_Dimension u) (int i) (1 / 2) r False)\<lparr>dm_Unpublished := True\<rparr>)
       [0..<length us] us"

definition edition_usd :: "plan \<Rightarrow> rat \<Rightarrow> rat \<Rightarrow> int \<Rightarrow> rat" where
  "edition_usd plan c cProbe cell = c * of_int (pl_Cells plan * cell) + cProbe * of_int (pl_ProbeRequests plan)"

definition step_demands :: "(rat \<Rightarrow> rat) \<Rightarrow> ceiling_config \<Rightarrow> plan \<Rightarrow> rat \<Rightarrow> rat \<Rightarrow> rat \<Rightarrow> rat \<Rightarrow> int \<Rightarrow> ceiling_error + demand list" where
  "step_demands rnd cfg plan c cProbe routeCap r cell =
     (let cellUSD = c * of_int cell; editionUSD = edition_usd plan c cProbe cell
      in case limit_demands rnd (\<lambda>l. limitDemand l r cell (pl_DayCells plan) (cf_InputBoundTokens cfg) (cf_CeilingTokens cfg) c
                (cf_HTTPTimeoutS cfg) cellUSD editionUSD) 0 (t_Limits (cf_Target cfg)) of
           Inl e \<Rightarrow> Inl e
         | Inr dms \<Rightarrow> Inr (dms @ unpublished_demands rnd r (t_UnpublishedLimits (cf_Target cfg))
             @ [demand_of rnd ''route_cap_usd'' (- 1) routeCap editionUSD False]))"

definition judge :: "rat \<Rightarrow> demand list \<Rightarrow> step" where
  "judge r dms =
     (let b = find (\<lambda>d. \<not> dm_Pass d) dms
      in \<lparr>sp_RPS = r, sp_Admitted = (b = None), sp_Binding = b, sp_Demands = dms\<rparr>)"

fun ceiling_steps :: "(rat \<Rightarrow> rat) \<Rightarrow> ceiling_config \<Rightarrow> plan \<Rightarrow> rat \<Rightarrow> rat \<Rightarrow> rat \<Rightarrow> int \<Rightarrow> (rat \<times> int) list \<Rightarrow> verdict
    \<Rightarrow> ceiling_error + verdict" where
  "ceiling_steps rnd cfg plan c cProbe routeCap cell [] v = Inr v"
| "ceiling_steps rnd cfg plan c cProbe routeCap cell ((rate, n) # steps) v =
     (let cell' = cell + n
      in case step_demands rnd cfg plan c cProbe routeCap rate cell' of
           Inl e \<Rightarrow> Inl e
         | Inr dms \<Rightarrow>
             let s = judge rate dms;
                 v1 = (if sp_Admitted s
                       then v\<lparr>v_TopRPS := rate, v_CellUSD := decimalString (c * of_int cell'),
                              v_EditionUSD := decimalString (edition_usd plan c cProbe cell')\<rparr>
                       else v)
             in ceiling_steps rnd cfg plan c cProbe routeCap cell' steps (v1\<lparr>v_Steps := v_Steps v1 @ [s]\<rparr>))"

text \<open>A validated ladder has steps, so the least step count exists.\<close>

definition bad_plan :: "plan \<Rightarrow> bool" where
  "bad_plan plan \<longleftrightarrow> pl_WarmupRequests plan < 0 \<or> pl_DayCells plan < 1 \<or> pl_Cells plan < pl_DayCells plan \<or> pl_ProbeRequests plan < 0
     \<or> list_ex (\<lambda>n. n < 0) (pl_StepRequests plan)"

definition CeilingRule :: "(rat \<Rightarrow> rat) \<Rightarrow> ledger_env \<Rightarrow> (ceiling_config \<Rightarrow> bool) \<Rightarrow> ceiling_config \<Rightarrow> price \<Rightarrow> plan
    \<Rightarrow> ceiling_error + verdict" where
  "CeilingRule rnd env validate cfg p plan =
     (let steps = lc_StepsRPS (cf_Ladder cfg); name = t_Name (cf_Target cfg);
          p1 = p\<lparr>pr_InputTokens := cf_InputBoundTokens cfg, pr_OutputTokens := cf_CeilingTokens cfg\<rparr>
      in if \<not> cf_Release cfg then Inl ENotRelease
         else if \<not> validate cfg then Inl EInvalidConfig
         else if length (pl_StepRequests plan) \<noteq> length steps then Inl (EPlanSteps (length (pl_StepRequests plan)) (length steps))
         else if bad_plan plan then Inl (EPlan plan)
         else case checkPrice env name p1 of
           Inl e \<Rightarrow> Inl (EPrice e)
         | Inr c \<Rightarrow>
             (case decimal (cf_RouteUSD cfg) of
                None \<Rightarrow> Inl (ERouteCap (cf_RouteUSD cfg))
              | Some routeCap \<Rightarrow>
                  (case checkPrice env name (p1\<lparr>pr_OutputTokens := tok_Output (ReleaseProbeTokens cfg)\<rparr>) of
                     Inl _ \<Rightarrow> Inl EPanicProbe
                   | Inr cProbe \<Rightarrow>
                       ceiling_steps rnd cfg plan c cProbe routeCap (pl_WarmupRequests plan) (zip steps (pl_StepRequests plan))
                         \<lparr>v_Route = name, v_InputTokens = cf_InputBoundTokens cfg, v_CeilingTokens = cf_CeilingTokens cfg,
                          v_PerRequestUSD = decimalString c, v_ProbeUSD = decimalString cProbe, v_TopRPS = 0, v_CellUSD = ''0'',
                          v_EditionUSD = ''0'', v_Plan = plan, v_Steps = []\<rparr>)))"

section \<open>Checking a published verdict\<close>

datatype problem = PNotInLimits int | PWrongTest int | PMarking int | PLeaks | PSource int | PValue int | PPass

definition check_demand :: "limit list \<Rightarrow> demand \<Rightarrow> problem list" where
  "check_demand limits d =
     (if dm_Unpublished d \<or> dm_Limit d = - 1 \<and> dm_Dimension d = ''route_cap_usd'' then []
      else if dm_Limit d < 0 \<or> int (length limits) \<le> dm_Limit d then [PNotInLimits (dm_Limit d)]
      else let l = limits ! nat (dm_Limit d);
               cover = (l_Dimension l = ''spend_per_month_usd'' \<or> l_Dimension l = ''auto_reload_threshold_usd'');
               confidential = (l_Marking l = ''confidential'')
           in if dm_Dimension d \<noteq> l_Dimension l \<or> dm_Half d = cover then [PWrongTest (dm_Limit d)]
              else if dm_Confidential d \<noteq> confidential then [PMarking (dm_Limit d)]
              else if confidential \<and> (dm_Value d \<noteq> 0 \<or> dm_Fraction d \<noteq> 0) then [PLeaks]
              else if confidential \<and> (dm_Source d \<noteq> l_Source l \<or> dm_HMACSHA256 d \<noteq> l_HMACSHA256 l) then [PSource (dm_Limit d)]
              else if \<not> confidential \<and> (dm_Value d \<noteq> l_Value l \<or> dm_Source d \<noteq> [] \<or> dm_HMACSHA256 d \<noteq> []) then [PValue (dm_Limit d)]
              else if confidential \<and> (dm_Demand d \<le> test_bound (l_Value l) (dm_Half d)) \<noteq> dm_Pass d then [PPass]
              else [])"

definition check_step :: "limit list \<Rightarrow> step \<Rightarrow> problem list" where
  "check_step limits s = concat (map (check_demand limits) (sp_Demands s))
     @ (case sp_Binding s of None \<Rightarrow> [] | Some d \<Rightarrow> check_demand limits d)"

text \<open>The problems found, with the number of their step; the verdict is accepted when there is none.\<close>

definition CheckPublished :: "ceiling_config \<Rightarrow> verdict \<Rightarrow> (nat \<times> problem) list" where
  "CheckPublished cfg v =
     concat (map2 (\<lambda>k s. map (Pair (Suc k)) (check_step (t_Limits (cf_Target cfg)) s)) [0..<length (v_Steps v)] (v_Steps v))"

section \<open>Settlement counts\<close>

text \<open>What a probe record says was dispatched: the request, and the wrong-model request where there is one.\<close>

record probe_dispatch =
  pd_Request :: bool
  pd_WrongModel :: "bool option"

definition ProbeSent :: "probe_dispatch option \<Rightarrow> int" where
  "ProbeSent rec1 =
     (case rec1 of
        None \<Rightarrow> 0
      | Some p \<Rightarrow> (if pd_Request p then 1 else 0) + (if pd_WrongModel p = Some True then 1 else 0))"

text \<open>The requests of a run's result with the end of its warm-up.\<close>

definition RunSent :: "(request list \<times> int) option \<Rightarrow> int \<times> int" where
  "RunSent res =
     (case res of
        None \<Rightarrow> (0, 0)
      | Some (rs, warmupEndNs) \<Rightarrow>
          foldl (\<lambda>(w, m) r. if r_DispatchNs r = 0 then (w, m)
                           else if r_IntendedNs r < warmupEndNs then (w + 1, m) else (w, m + 1)) (0, 0) rs)"

definition WindowSent :: "probe_dispatch option \<Rightarrow> (request list \<times> int) option \<Rightarrow> counts" where
  "WindowSent rec1 res = (case RunSent res of (w, m) \<Rightarrow>
     \<lparr>cnt_Probe = ProbeSent rec1, cnt_Development = 0, cnt_Warmup = w, cnt_Measured = m\<rparr>)"

section \<open>The steps of a verdict\<close>

text \<open>Each step's rate with the requests of a cell up to it.\<close>

fun run_cells :: "int \<Rightarrow> (rat \<times> int) list \<Rightarrow> (rat \<times> int) list" where
  "run_cells cell [] = []"
| "run_cells cell ((r, n) # xs) = (r, cell + n) # run_cells (cell + n) xs"

lemma run_cells_fst: "map fst (run_cells cell xs) = map fst xs"
  by (induction cell xs rule: run_cells.induct) simp_all

lemma run_cells_ge: "\<forall>n\<in>snd ` set xs. 0 \<le> n \<Longrightarrow> y \<in> set (run_cells cell xs) \<Longrightarrow> cell \<le> snd y"
  by (induction cell xs rule: run_cells.induct) fastforce+

lemma run_cells_sorted:
  "\<forall>n\<in>snd ` set xs. 0 \<le> n \<Longrightarrow> sorted (map snd (run_cells cell xs))"
  by (induction cell xs rule: run_cells.induct) (auto dest: run_cells_ge [rotated])

lemma ceiling_steps_ok:
  assumes "ceiling_steps rnd cfg plan c cProbe cap cell xs v = Inr v'"
  shows "\<exists>new. v_Steps v' = v_Steps v @ new
     \<and> list_all2 (\<lambda>s y. \<exists>dms. step_demands rnd cfg plan c cProbe cap (fst y) (snd y) = Inr dms \<and> s = judge (fst y) dms) new (run_cells cell xs)
     \<and> v_TopRPS v' = (if filter sp_Admitted new = [] then v_TopRPS v else sp_RPS (last (filter sp_Admitted new)))"
  using assms
proof (induction xs arbitrary: cell v)
  case (Cons x xs)
  obtain rate n where x: "x = (rate, n)" by fastforce
  obtain dms where dms: "step_demands rnd cfg plan c cProbe cap rate (cell + n) = Inr dms"
    using Cons.prems x by (cases "step_demands rnd cfg plan c cProbe cap rate (cell + n)") (simp_all add: Let_def)
  define s where "s = judge rate dms"
  define v1 where "v1 = (if sp_Admitted s then v\<lparr>v_TopRPS := rate, v_CellUSD := decimalString (c * of_int (cell + n)),
      v_EditionUSD := decimalString (edition_usd plan c cProbe (cell + n))\<rparr> else v)"
  have rec: "ceiling_steps rnd cfg plan c cProbe cap (cell + n) xs (v1\<lparr>v_Steps := v_Steps v1 @ [s]\<rparr>) = Inr v'"
    using Cons.prems by (simp add: x dms Let_def s_def v1_def)
  obtain new where new: "v_Steps v' = v_Steps v1 @ [s] @ new"
    "list_all2 (\<lambda>s y. \<exists>dms. step_demands rnd cfg plan c cProbe cap (fst y) (snd y) = Inr dms \<and> s = judge (fst y) dms) new (run_cells (cell + n) xs)"
    "v_TopRPS v' = (if filter sp_Admitted new = [] then v_TopRPS v1 else sp_RPS (last (filter sp_Admitted new)))"
    using Cons.IH [OF rec] by auto
  have v1: "v_Steps v1 = v_Steps v" "v_TopRPS v1 = (if sp_Admitted s then sp_RPS s else v_TopRPS v)"
    by (simp_all add: v1_def s_def judge_def Let_def)
  have "v_TopRPS v' = (if filter sp_Admitted (s # new) = [] then v_TopRPS v else sp_RPS (last (filter sp_Admitted (s # new))))"
    using new(3) v1(2) by auto
  moreover have "list_all2 (\<lambda>s y. \<exists>dms. step_demands rnd cfg plan c cProbe cap (fst y) (snd y) = Inr dms \<and> s = judge (fst y) dms)
      (s # new) (run_cells cell (x # xs))"
    using new(2) dms by (simp add: x s_def)
  ultimately show ?case using new(1) v1(1) by (intro exI [of _ "s # new"]) simp
qed simp

lemma checkPrice_pos:
  assumes "checkPrice env name q = Inr pr"
  shows "0 \<le> pr" and "0 < pr_InputTokens q" and "0 < pr_OutputTokens q"
proof -
  obtain a b where ab: "decimal (pr_InputUSDPerMTok q) = Some a" "decimal (pr_OutputUSDPerMTok q) = Some b"
    and t: "1 \<le> pr_InputTokens q" "1 \<le> pr_OutputTokens q" and pr: "pr = perRequest a b (pr_InputTokens q) (pr_OutputTokens q)"
    using assms by (auto simp: checkPrice_def split: if_splits option.splits)
  then show "0 < pr_InputTokens q" and "0 < pr_OutputTokens q" by simp_all
  show "0 \<le> pr" unfolding pr perRequest_def using decimal_nonneg [OF ab(1)] decimal_nonneg [OF ab(2)] t by simp
qed

lemma CeilingRule_ok:
  assumes "CeilingRule rnd env validate cfg p plan = Inr v"
  shows "\<exists>c cProbe cap. 0 \<le> c \<and> 0 \<le> cProbe \<and> 0 < cf_InputBoundTokens cfg \<and> 0 < cf_CeilingTokens cfg \<and> \<not> bad_plan plan
     \<and> length (pl_StepRequests plan) = length (lc_StepsRPS (cf_Ladder cfg))
     \<and> list_all2 (\<lambda>s y. \<exists>dms. step_demands rnd cfg plan c cProbe cap (fst y) (snd y) = Inr dms \<and> s = judge (fst y) dms) (v_Steps v)
         (run_cells (pl_WarmupRequests plan) (zip (lc_StepsRPS (cf_Ladder cfg)) (pl_StepRequests plan)))
     \<and> v_TopRPS v = (if filter sp_Admitted (v_Steps v) = [] then 0 else sp_RPS (last (filter sp_Admitted (v_Steps v))))"
proof -
  define p1 where "p1 = p\<lparr>pr_InputTokens := cf_InputBoundTokens cfg, pr_OutputTokens := cf_CeilingTokens cfg\<rparr>"
  define name where "name = t_Name (cf_Target cfg)"
  define p2 where "p2 = p1\<lparr>pr_OutputTokens := tok_Output (ReleaseProbeTokens cfg)\<rparr>"
  have g: "cf_Release cfg" "validate cfg" "length (pl_StepRequests plan) = length (lc_StepsRPS (cf_Ladder cfg))" "\<not> bad_plan plan"
    using assms by (auto simp: CeilingRule_def Let_def split: if_splits)
  obtain c where c: "checkPrice env name p1 = Inr c"
    using assms g by (cases "checkPrice env name p1") (simp_all add: CeilingRule_def Let_def p1_def name_def)
  obtain cap where cap: "decimal (cf_RouteUSD cfg) = Some cap"
    using assms g c by (cases "decimal (cf_RouteUSD cfg)") (simp_all add: CeilingRule_def Let_def p1_def name_def)
  obtain cProbe where cp: "checkPrice env name p2 = Inr cProbe"
    using assms g c cap by (cases "checkPrice env name p2") (simp_all add: CeilingRule_def Let_def p1_def p2_def name_def)
  define v0 where "v0 = \<lparr>v_Route = name, v_InputTokens = cf_InputBoundTokens cfg, v_CeilingTokens = cf_CeilingTokens cfg,
      v_PerRequestUSD = decimalString c, v_ProbeUSD = decimalString cProbe, v_TopRPS = 0, v_CellUSD = ''0'',
      v_EditionUSD = ''0'', v_Plan = plan, v_Steps = []\<rparr>"
  have "ceiling_steps rnd cfg plan c cProbe cap (pl_WarmupRequests plan) (zip (lc_StepsRPS (cf_Ladder cfg)) (pl_StepRequests plan)) v0 = Inr v"
    using assms g c cap cp by (simp add: CeilingRule_def Let_def p1_def p2_def name_def v0_def)
  from ceiling_steps_ok [OF this] have "list_all2 (\<lambda>s y. \<exists>dms. step_demands rnd cfg plan c cProbe cap (fst y) (snd y) = Inr dms \<and> s = judge (fst y) dms)
      (v_Steps v) (run_cells (pl_WarmupRequests plan) (zip (lc_StepsRPS (cf_Ladder cfg)) (pl_StepRequests plan)))
     \<and> v_TopRPS v = (if filter sp_Admitted (v_Steps v) = [] then 0 else sp_RPS (last (filter sp_Admitted (v_Steps v))))"
    by (auto simp: v0_def)
  moreover have "0 \<le> c" "0 < cf_InputBoundTokens cfg" "0 < cf_CeilingTokens cfg" "0 \<le> cProbe"
    using checkPrice_pos [OF c] checkPrice_pos [OF cp] by (simp_all add: p1_def)
  ultimately show ?thesis using g by blast
qed

section \<open>Demands rise with the step\<close>

lemma request_tokens_nonneg:
  assumes "validateLimit url_ok f l = []" and "0 \<le> a" and "0 \<le> b"
  shows "0 \<le> request_tokens l a b"
proof -
  have "l_Counting l = ''output_burndown'' \<Longrightarrow> 0 \<le> l_OutputBurndown l"
    using assms(1) by (simp add: validateLimit_def Let_def err_if_def split: if_splits)
  then show ?thesis using assms(2,3) by (auto simp: request_tokens_def)
qed

definition dominated :: "(rat \<times> bool) option \<Rightarrow> (rat \<times> bool) option \<Rightarrow> bool" where
  "dominated x y \<longleftrightarrow> (\<forall>d h. x = Some (d, h) \<longrightarrow> (\<exists>d'. y = Some (d', h) \<and> d \<le> d'))"

lemma dominated_None: "dominated None y"
  by (simp add: dominated_def)

lemma dominated_if: "(b \<Longrightarrow> x \<le> y) \<Longrightarrow> (\<not> b \<Longrightarrow> dominated e e') \<Longrightarrow>
    dominated (if b then Some (x, h) else e) (if b then Some (y, h) else e')"
  by (simp add: dominated_def)

lemma limitDemand_mono:
  assumes valid: "validateLimit url_ok f l = []" and "0 \<le> r" "r \<le> r'" "cell \<le> cell'" and "0 \<le> dayCells" "0 \<le> a" "0 \<le> b" "0 \<le> c" "0 \<le> tmo"
    and "cu \<le> cu'" "eu \<le> eu'"
    and d: "limitDemand l r cell dayCells a b c tmo cu eu = Some (d, h)"
  shows "\<exists>d'. limitDemand l r' cell' dayCells a b c tmo cu' eu' = Some (d', h) \<and> d \<le> d'"
proof -
  have tok: "0 \<le> request_tokens l a b" by (rule request_tokens_nonneg [OF valid assms(6,7)])
  have win: "0 \<le> l_WindowS l" if "l_Dimension l = ''spend_per_window_usd''"
    using valid that by (simp add: validateLimit_def Let_def err_if_def split: if_splits)
  have "r * 60 \<le> r' * 60" "(of_int (dayCells * cell) :: rat) \<le> of_int (dayCells * cell')"
    using assms(3-5) by (simp_all add: mult_left_mono)
  then have m: "r * 60 \<le> r' * 60" "r * 60 * request_tokens l a b \<le> r' * 60 * request_tokens l a b"
    "r * 60 * of_int a \<le> r' * 60 * of_int a" "r * 60 * of_int b \<le> r' * 60 * of_int b" "r * of_int tmo \<le> r' * of_int tmo"
    "(of_int (dayCells * cell) :: rat) \<le> of_int (dayCells * cell')"
    "of_int (dayCells * cell) * request_tokens l a b \<le> of_int (dayCells * cell') * request_tokens l a b"
    using assms(3,6,7,9) tok by (simp_all only: mult_right_mono of_int_0_le_iff)
  have w: "r * l_WindowS l * c \<le> r' * l_WindowS l * c" if "l_Dimension l = ''spend_per_window_usd''"
    using win [OF that] assms(3,8) by (intro mult_right_mono) simp_all
  have "dominated (limitDemand l r cell dayCells a b c tmo cu eu) (limitDemand l r' cell' dayCells a b c tmo cu' eu')"
    unfolding limitDemand_def Let_def
    by (intro dominated_if dominated_None m w assms(3,10,11))
  with d show ?thesis unfolding dominated_def by blast
qed

lemma limitDemand_None: "limitDemand l r cell k a b c tmo cu eu = None \<longleftrightarrow> l_Dimension l \<notin> set limitDimensions"
  by (auto simp: limitDemand_def Let_def limitDimensions_def)

text \<open>A step passes every test.\<close>

definition admits :: "ceiling_config \<Rightarrow> plan \<Rightarrow> rat \<Rightarrow> rat \<Rightarrow> rat \<Rightarrow> rat \<Rightarrow> int \<Rightarrow> bool" where
  "admits cfg plan c cProbe cap r cell \<longleftrightarrow>
     (\<forall>l\<in>set (t_Limits (cf_Target cfg)). \<exists>d h. limitDemand l r cell (pl_DayCells plan) (cf_InputBoundTokens cfg) (cf_CeilingTokens cfg) c
        (cf_HTTPTimeoutS cfg) (c * of_int cell) (edition_usd plan c cProbe cell) = Some (d, h) \<and> d \<le> test_bound (l_Value l) h)
     \<and> (t_UnpublishedLimits (cf_Target cfg) = [] \<or> r \<le> 1 / 2) \<and> edition_usd plan c cProbe cell \<le> cap"

lemma demand_pass [simp]:
  "dm_Pass (withhold l dm) = dm_Pass dm" "dm_Pass (demand_of rnd k i v d h) \<longleftrightarrow> d \<le> test_bound v h"
  by (simp_all add: withhold_def demand_of_def)

lemma limit_demands_pass:
  "limit_demands rnd dem i ls = Inr dms \<Longrightarrow>
     list_all dm_Pass dms \<longleftrightarrow> (\<forall>l\<in>set ls. \<exists>d h. dem l = Some (d, h) \<and> d \<le> test_bound (l_Value l) h)"
  by (induction ls arbitrary: i dms) (auto split: option.splits sum.splits)

lemma unpublished_pass: "list_all dm_Pass (unpublished_demands rnd r us) \<longleftrightarrow> us = [] \<or> r \<le> 1 / 2"
proof -
  have "list_all dm_Pass (unpublished_demands rnd r us) \<longleftrightarrow> (\<forall>i<length us. r \<le> 1 / 2)"
    by (simp add: unpublished_demands_def list_all_length test_bound_def)
  then show ?thesis by (cases us) auto
qed

lemma judge_admits:
  assumes "step_demands rnd cfg plan c cProbe cap r cell = Inr dms"
  shows "sp_Admitted (judge r dms) \<longleftrightarrow> admits cfg plan c cProbe cap r cell"
proof -
  define dem where "dem = (\<lambda>l. limitDemand l r cell (pl_DayCells plan) (cf_InputBoundTokens cfg) (cf_CeilingTokens cfg) c
      (cf_HTTPTimeoutS cfg) (c * of_int cell) (edition_usd plan c cProbe cell))"
  obtain ld where ld: "limit_demands rnd dem 0 (t_Limits (cf_Target cfg)) = Inr ld"
    using assms by (cases "limit_demands rnd dem 0 (t_Limits (cf_Target cfg))") (simp_all add: step_demands_def Let_def dem_def)
  have dms: "dms = ld @ unpublished_demands rnd r (t_UnpublishedLimits (cf_Target cfg))
      @ [demand_of rnd ''route_cap_usd'' (- 1) cap (edition_usd plan c cProbe cell) False]"
    using assms ld by (simp add: step_demands_def Let_def dem_def)
  have "sp_Admitted (judge r dms) \<longleftrightarrow> list_all dm_Pass dms"
    by (auto simp: judge_def Let_def find_None_iff list_all_iff)
  also have "\<dots> \<longleftrightarrow> list_all dm_Pass ld \<and> (t_UnpublishedLimits (cf_Target cfg) = [] \<or> r \<le> 1 / 2) \<and> edition_usd plan c cProbe cell \<le> cap"
    unfolding dms list_all_append unpublished_pass by (simp add: test_bound_def)
  finally show ?thesis unfolding limit_demands_pass [OF ld] admits_def dem_def .
qed

lemma admits_mono:
  assumes "admits cfg plan c cProbe cap r' cell'" and "0 \<le> r" "r \<le> r'" "0 \<le> cell" "cell \<le> cell'"
    and "0 \<le> c" "\<not> bad_plan plan" "0 < cf_InputBoundTokens cfg" "0 < cf_CeilingTokens cfg" "0 \<le> cf_HTTPTimeoutS cfg"
    and "\<forall>l\<in>set (t_Limits (cf_Target cfg)). validateLimit url_ok f l = []"
  shows "admits cfg plan c cProbe cap r cell"
proof -
  have plan: "0 \<le> pl_DayCells plan" "0 \<le> pl_Cells plan" using assms(7) by (auto simp: bad_plan_def)
  have cu: "c * of_int cell \<le> c * of_int cell'" using assms(5,6) by (simp add: mult_left_mono)
  have "pl_Cells plan * cell \<le> pl_Cells plan * cell'" using plan(2) assms(5) by (rule mult_left_mono [rotated])
  then have eu: "edition_usd plan c cProbe cell \<le> edition_usd plan c cProbe cell'"
    unfolding edition_usd_def using assms(6) by (intro add_right_mono mult_left_mono) (simp_all only: of_int_le_iff)
  have "\<exists>d h. limitDemand l r cell (pl_DayCells plan) (cf_InputBoundTokens cfg) (cf_CeilingTokens cfg) c
        (cf_HTTPTimeoutS cfg) (c * of_int cell) (edition_usd plan c cProbe cell) = Some (d, h) \<and> d \<le> test_bound (l_Value l) h"
    if l: "l \<in> set (t_Limits (cf_Target cfg))" for l
  proof -
    obtain d' h where d': "limitDemand l r' cell' (pl_DayCells plan) (cf_InputBoundTokens cfg) (cf_CeilingTokens cfg) c
        (cf_HTTPTimeoutS cfg) (c * of_int cell') (edition_usd plan c cProbe cell') = Some (d', h)" "d' \<le> test_bound (l_Value l) h"
      using assms(1) l unfolding admits_def by blast
    have "limitDemand l r cell (pl_DayCells plan) (cf_InputBoundTokens cfg) (cf_CeilingTokens cfg) c
        (cf_HTTPTimeoutS cfg) (c * of_int cell) (edition_usd plan c cProbe cell) \<noteq> None"
      using d'(1) limitDemand_None by (metis option.distinct(1))
    then obtain d h' where d: "limitDemand l r cell (pl_DayCells plan) (cf_InputBoundTokens cfg) (cf_CeilingTokens cfg) c
        (cf_HTTPTimeoutS cfg) (c * of_int cell) (edition_usd plan c cProbe cell) = Some (d, h')"
      by fast
    have "\<exists>d'. limitDemand l r' cell' (pl_DayCells plan) (cf_InputBoundTokens cfg) (cf_CeilingTokens cfg) c
        (cf_HTTPTimeoutS cfg) (c * of_int cell') (edition_usd plan c cProbe cell') = Some (d', h') \<and> d \<le> d'"
      by (rule limitDemand_mono [OF bspec [OF assms(11) l] assms(2,3,5) plan(1) _ _ assms(6,10) cu eu d]) (use assms(8,9) in simp_all)
    with d'(1) have "h' = h" "d \<le> d'" by auto
    with d d'(2) show ?thesis by (meson order_trans)
  qed
  moreover have "t_UnpublishedLimits (cf_Target cfg) = [] \<or> r \<le> 1 / 2" using assms(1,3) unfolding admits_def by (meson order_trans)
  moreover have "edition_usd plan c cProbe cell \<le> cap" using assms(1) eu unfolding admits_def by (meson order_trans)
  ultimately show ?thesis unfolding admits_def by blast
qed

lemma antitone_prefix:
  assumes "\<And>i j. i \<le> j \<Longrightarrow> j < length bs \<Longrightarrow> bs ! j \<Longrightarrow> bs ! i"
  shows "\<exists>n\<le>length bs. bs = replicate n True @ replicate (length bs - n) False"
  using assms
proof (induction bs)
  case (Cons b bs)
  show ?case
  proof (cases b)
    case True
    have "\<And>i j. i \<le> j \<Longrightarrow> j < length bs \<Longrightarrow> bs ! j \<Longrightarrow> bs ! i" using Cons.prems [of "Suc _" "Suc _"] by simp
    then obtain n where "n \<le> length bs" "bs = replicate n True @ replicate (length bs - n) False" using Cons.IH by blast
    with True show ?thesis by (intro exI [of _ "Suc n"]) simp
  next
    case False
    then have "\<forall>x\<in>set bs. \<not> x" using Cons.prems [of 0 "Suc _"] by (auto simp: in_set_conv_nth)
    then have "bs = replicate (length bs) False" by (metis (full_types) replicate_eqI)
    with False show ?thesis by (intro exI [of _ 0]) simp
  qed
qed simp

lemma verdict_admitted:
  assumes "list_all2 (\<lambda>s y. \<exists>dms. step_demands rnd cfg plan c cProbe cap (fst y) (snd y) = Inr dms \<and> s = judge (fst y) dms) ss ys"
  shows "map sp_Admitted ss = map (\<lambda>y. admits cfg plan c cProbe cap (fst y) (snd y)) ys" and "map sp_RPS ss = map fst ys"
proof -
  have "map sp_Admitted ss = map (\<lambda>y. admits cfg plan c cProbe cap (fst y) (snd y)) ys \<and> map sp_RPS ss = map fst ys"
    using assms
  proof (induction rule: list_all2_induct)
    case (Cons s ss y ys)
    then show ?case using judge_admits by (fastforce simp: judge_def Let_def)
  qed simp
  then show "map sp_Admitted ss = map (\<lambda>y. admits cfg plan c cProbe cap (fst y) (snd y)) ys" and "map sp_RPS ss = map fst ys" by blast+
qed

lemma filter_prefix:
  assumes "map f xs = replicate n True @ replicate m False"
  shows "filter f xs = take n xs"
  using assms
proof (induction n arbitrary: xs)
  case 0
  then have "\<forall>x\<in>set xs. \<not> f x" by (metis append_Nil image_eqI in_set_replicate list.set_map replicate_0)
  then show ?case by simp
next
  case (Suc n)
  then obtain x xs' where xs: "xs = x # xs'" by (cases xs) auto
  with Suc show ?case by simp
qed

text \<open>The rule decides every route it is given a plan, a price and known limit dimensions for.\<close>

lemma limit_demands_total:
  "\<forall>l\<in>set ls. l_Dimension l \<in> set limitDimensions \<Longrightarrow> \<exists>dms. limit_demands rnd (\<lambda>l. limitDemand l r cell k a b c tmo cu eu) i ls = Inr dms"
proof (induction ls arbitrary: i)
  case (Cons l ls)
  then obtain dms where "limit_demands rnd (\<lambda>l. limitDemand l r cell k a b c tmo cu eu) (Suc i) ls = Inr dms" by fastforce
  moreover obtain d h where "limitDemand l r cell k a b c tmo cu eu = Some (d, h)"
    using Cons.prems limitDemand_None [of l r cell k a b c tmo cu eu] by fastforce
  ultimately show ?case by simp
qed simp

lemma ceiling_steps_total:
  assumes "\<forall>l\<in>set (t_Limits (cf_Target cfg)). l_Dimension l \<in> set limitDimensions"
  shows "\<exists>v'. ceiling_steps rnd cfg plan c cProbe cap cell xs v = Inr v'"
proof (induction xs arbitrary: cell v)
  case (Cons x xs)
  obtain rate n where x: "x = (rate, n)" by fastforce
  obtain ld where "limit_demands rnd (\<lambda>l. limitDemand l rate (cell + n) (pl_DayCells plan) (cf_InputBoundTokens cfg) (cf_CeilingTokens cfg) c
      (cf_HTTPTimeoutS cfg) (c * of_int (cell + n)) (edition_usd plan c cProbe (cell + n))) 0 (t_Limits (cf_Target cfg)) = Inr ld"
    using limit_demands_total [OF assms] by blast
  then have "\<exists>dms. step_demands rnd cfg plan c cProbe cap rate (cell + n) = Inr dms" unfolding step_demands_def Let_def by simp
  then obtain dms where dms: "step_demands rnd cfg plan c cProbe cap rate (cell + n) = Inr dms" ..
  show ?case unfolding x ceiling_steps.simps Let_def dms sum.case by (rule Cons.IH)
qed simp

lemma CeilingRule_decides:
  assumes "cf_Release cfg" and "validate cfg" and "length (pl_StepRequests plan) = length (lc_StepsRPS (cf_Ladder cfg))" and "\<not> bad_plan plan"
    and "is_ok (checkPrice env (t_Name (cf_Target cfg)) (p\<lparr>pr_InputTokens := cf_InputBoundTokens cfg, pr_OutputTokens := cf_CeilingTokens cfg\<rparr>))"
    and "is_ok (checkPrice env (t_Name (cf_Target cfg)) (p\<lparr>pr_InputTokens := cf_InputBoundTokens cfg, pr_OutputTokens := tok_Output (ReleaseProbeTokens cfg)\<rparr>))"
    and "decimal (cf_RouteUSD cfg) \<noteq> None" and "\<forall>l\<in>set (t_Limits (cf_Target cfg)). l_Dimension l \<in> set limitDimensions"
  shows "is_ok (CeilingRule rnd env validate cfg p plan)"
proof -
  obtain c cProbe cap where "checkPrice env (t_Name (cf_Target cfg)) (p\<lparr>pr_InputTokens := cf_InputBoundTokens cfg, pr_OutputTokens := cf_CeilingTokens cfg\<rparr>) = Inr c"
    "checkPrice env (t_Name (cf_Target cfg)) (p\<lparr>pr_InputTokens := cf_InputBoundTokens cfg, pr_OutputTokens := tok_Output (ReleaseProbeTokens cfg)\<rparr>) = Inr cProbe"
    "decimal (cf_RouteUSD cfg) = Some cap" using assms(5-7) by (auto simp: is_ok_iff)
  with assms(1-4) have "\<exists>v0. CeilingRule rnd env validate cfg p plan = ceiling_steps rnd cfg plan c cProbe cap (pl_WarmupRequests plan)
      (zip (lc_StepsRPS (cf_Ladder cfg)) (pl_StepRequests plan)) v0" by (auto simp: CeilingRule_def Let_def)
  then show ?thesis using ceiling_steps_total [OF assms(8)] is_ok_iff by metis
qed

text \<open>Claim C19. The admitted steps of a route are an opening of its ladder: when the ladder's rates do not fall and
  the recorded limits validate, every demand rises with the step, so a step is admitted only after every step before it, and the
  top rate is that of the last admitted step.\<close>

theorem ceiling_admits_prefix:
  assumes "CeilingRule rnd env validate cfg p plan = Inr v" and "sorted (lc_StepsRPS (cf_Ladder cfg))"
    and "\<forall>r\<in>set (lc_StepsRPS (cf_Ladder cfg)). 0 \<le> r" and "0 \<le> cf_HTTPTimeoutS cfg"
    and "\<forall>l\<in>set (t_Limits (cf_Target cfg)). validateLimit url_ok f l = []"
  shows "\<exists>n\<le>length (lc_StepsRPS (cf_Ladder cfg)).
     map sp_Admitted (v_Steps v) = replicate n True @ replicate (length (lc_StepsRPS (cf_Ladder cfg)) - n) False
     \<and> Admitted v = take n (lc_StepsRPS (cf_Ladder cfg))
     \<and> v_TopRPS v = (if n = 0 then 0 else lc_StepsRPS (cf_Ladder cfg) ! (n - 1))"
proof -
  define rates where "rates = lc_StepsRPS (cf_Ladder cfg)"
  define ys where "ys = run_cells (pl_WarmupRequests plan) (zip rates (pl_StepRequests plan))"
  obtain c cProbe cap where ok: "0 \<le> c" "0 < cf_InputBoundTokens cfg" "0 < cf_CeilingTokens cfg" "\<not> bad_plan plan"
    "length (pl_StepRequests plan) = length rates"
    "list_all2 (\<lambda>s y. \<exists>dms. step_demands rnd cfg plan c cProbe cap (fst y) (snd y) = Inr dms \<and> s = judge (fst y) dms) (v_Steps v) ys"
    "v_TopRPS v = (if filter sp_Admitted (v_Steps v) = [] then 0 else sp_RPS (last (filter sp_Admitted (v_Steps v))))"
    using CeilingRule_ok [OF assms(1)] unfolding rates_def ys_def by blast
  have fsts: "map fst ys = rates" using ok(5) by (simp add: ys_def run_cells_fst)
  then have len: "length ys = length rates" "length (v_Steps v) = length rates"
    using ok(6) by (auto simp: list_all2_lengthD dest: arg_cong [of _ _ length])
  have nonneg: "\<forall>n\<in>snd ` set (zip rates (pl_StepRequests plan)). 0 \<le> n"
    using ok(4) by (fastforce simp: bad_plan_def list_ex_iff dest: set_zip_rightD)
  have cells: "sorted (map snd ys)" "\<forall>y\<in>set ys. 0 \<le> snd y"
    using run_cells_sorted [OF nonneg] run_cells_ge [OF nonneg] ok(4) by (fastforce simp: ys_def bad_plan_def)+
  have mono: "admits cfg plan c cProbe cap (fst (ys ! i)) (snd (ys ! i))"
    if ij: "i \<le> j" "j < length ys" "admits cfg plan c cProbe cap (fst (ys ! j)) (snd (ys ! j))" for i j
  proof (rule admits_mono [OF ij(3) _ _ _ _ ok(1,4,2,3) assms(4,5)])
    show "snd (ys ! i) \<le> snd (ys ! j)" using sorted_nth_mono [OF cells(1), of i j] ij by simp
    show "0 \<le> snd (ys ! i)" using cells(2) ij by simp
    have "rates ! i \<le> rates ! j" using sorted_nth_mono [OF assms(2), of i j] ij len by (simp add: rates_def)
    moreover have "fst (ys ! k) = rates ! k" if "k < length ys" for k using that fsts by (metis nth_map)
    ultimately show "fst (ys ! i) \<le> fst (ys ! j)" "0 \<le> fst (ys ! i)" using ij assms(3) len by (simp_all add: rates_def)
  qed
  let ?bs = "map sp_Admitted (v_Steps v)"
  have bs: "?bs = map (\<lambda>y. admits cfg plan c cProbe cap (fst y) (snd y)) ys" and rps: "map sp_RPS (v_Steps v) = rates"
    using verdict_admitted [OF ok(6)] fsts by simp_all
  have "\<exists>n\<le>length ?bs. ?bs = replicate n True @ replicate (length ?bs - n) False"
    by (rule antitone_prefix) (use mono in \<open>auto simp: bs\<close>)
  then obtain n where n: "n \<le> length rates" "?bs = replicate n True @ replicate (length rates - n) False"
    using len by auto
  have filt: "filter sp_Admitted (v_Steps v) = take n (v_Steps v)" by (rule filter_prefix [OF n(2)])
  have adm: "Admitted v = take n rates" unfolding Admitted_def filt rps [symmetric] by (simp add: take_map)
  have "sp_RPS (last (take n (v_Steps v))) = rates ! (n - 1)" if "0 < n"
  proof -
    have "take n (v_Steps v) \<noteq> []" using that n(1) len by auto
    then have "sp_RPS (last (take n (v_Steps v))) = last (map sp_RPS (take n (v_Steps v)))" by (simp add: last_map)
    also have "\<dots> = last (take n rates)" by (simp add: take_map [symmetric] rps)
    also have "\<dots> = rates ! (n - 1)" using that n(1) by (subst last_conv_nth) (auto simp: min_def)
    finally show ?thesis .
  qed
  then have "v_TopRPS v = (if n = 0 then 0 else rates ! (n - 1))" using ok(7) n(1) len unfolding filt by auto
  with n adm show ?thesis unfolding rates_def by blast
qed

text \<open>A release route at the pinned ladder with a limit of 100 requests a minute, priced at US$1 and US$2 a million tokens.\<close>

definition demo_release :: ceiling_config where
  "demo_release = \<lparr>cf_Release = True, cf_Ladder = \<lparr>lc_StepsRPS = [1 / 4, 1 / 2, 1, 2, 4], lc_WarmupS = 60, lc_StepS = 480, lc_DrainS = 90\<rparr>,
     cf_InputBoundTokens = 1200, cf_CeilingTokens = 512, cf_RouteUSD = ''400'',
     cf_Target = demo_target\<lparr>t_Limits := [demo_limit\<lparr>l_Value := 100\<rparr>]\<rparr>, cf_HTTPTimeoutS = 90\<rparr>"

definition demo_price :: price where
  "demo_price = \<lparr>pr_InputUSDPerMTok = ''1'', pr_OutputUSDPerMTok = ''2'', pr_InputTokens = 0, pr_OutputTokens = 0,
     pr_Source = ''https://example.com'', pr_Retrieved = ''2026-01-02''\<rparr>"

definition demo_plan :: plan where
  "demo_plan = \<lparr>pl_WarmupRequests = 15, pl_StepRequests = [120, 240, 480, 960, 1920], pl_Cells = 14, pl_DayCells = 6, pl_ProbeRequests = 100\<rparr>"

definition demo_env :: ledger_env where
  "demo_env = \<lparr>env_sha256hex = (\<lambda>_. []), env_encode = (\<lambda>_. []), env_decode = (\<lambda>_. Inl ENegativeRequestCap),
     env_http_url = (\<lambda>s. prefix ''https://'' s), env_now = []\<rparr>"

definition demo_verdict :: verdict where
  "demo_verdict = (case CeilingRule fl demo_env (\<lambda>_. True) demo_release demo_price demo_plan of Inr v \<Rightarrow> v)"

lemma demo_rule: "CeilingRule fl demo_env (\<lambda>_. True) demo_release demo_price demo_plan = Inr demo_verdict"
proof -
  have "is_ok (checkPrice demo_env (t_Name (cf_Target demo_release))
      (demo_price\<lparr>pr_InputTokens := cf_InputBoundTokens demo_release, pr_OutputTokens := cf_CeilingTokens demo_release\<rparr>))" by code_simp
  moreover have "is_ok (checkPrice demo_env (t_Name (cf_Target demo_release))
      (demo_price\<lparr>pr_InputTokens := cf_InputBoundTokens demo_release, pr_OutputTokens := tok_Output (ReleaseProbeTokens demo_release)\<rparr>))" by code_simp
  moreover have "decimal (cf_RouteUSD demo_release) \<noteq> None" "\<not> bad_plan demo_plan" "cf_Release demo_release"
    "length (pl_StepRequests demo_plan) = length (lc_StepsRPS (cf_Ladder demo_release))"
    "\<forall>l\<in>set (t_Limits (cf_Target demo_release)). l_Dimension l \<in> set limitDimensions" by code_simp+
  ultimately have "is_ok (CeilingRule fl demo_env (\<lambda>_. True) demo_release demo_price demo_plan)"
    using CeilingRule_decides [where rnd = fl and validate = "\<lambda>_. True"] by simp
  then show ?thesis unfolding demo_verdict_def by (cases "CeilingRule fl demo_env (\<lambda>_. True) demo_release demo_price demo_plan") simp_all
qed

theorem ceiling_admits_prefix_witness:
  "\<exists>n\<le>5. Admitted demo_verdict = take n [1 / 4, 1 / 2, 1, 2, 4]"
proof -
  have l: "lc_StepsRPS (cf_Ladder demo_release) = [1 / 4, 1 / 2, 1, 2, 4]" "0 \<le> cf_HTTPTimeoutS demo_release"
    by (simp_all add: demo_release_def)
  have "sorted (lc_StepsRPS (cf_Ladder demo_release))" "\<forall>r\<in>set (lc_StepsRPS (cf_Ladder demo_release)). 0 \<le> r"
    unfolding l by simp_all
  moreover have "\<forall>l\<in>set (t_Limits (cf_Target demo_release)). validateLimit (\<lambda>_. True) ''limit'' l = []" by code_simp
  ultimately have "\<exists>n\<le>length (lc_StepsRPS (cf_Ladder demo_release)). Admitted demo_verdict = take n (lc_StepsRPS (cf_Ladder demo_release))"
    using ceiling_admits_prefix [OF demo_rule _ _ l(2)] by blast
  then show ?thesis unfolding l by (simp add: numeral_eq_Suc)
qed

section \<open>The published verdict\<close>

lemma limitDemand_half:
  "limitDemand l r cell k a b c tmo cu eu = Some (d, h) \<Longrightarrow>
     h \<longleftrightarrow> \<not> (l_Dimension l = ''spend_per_month_usd'' \<or> l_Dimension l = ''auto_reload_threshold_usd'')"
  unfolding limitDemand_def Let_def by (simp split: if_split_asm)

lemma limit_demands_nth:
  assumes "limit_demands rnd dem i ls = Inr dms"
  shows "length dms = length ls \<and> (\<forall>j<length ls. \<exists>d h. dem (ls ! j) = Some (d, h)
     \<and> dms ! j = withhold (ls ! j) (demand_of rnd (l_Dimension (ls ! j)) (int (i + j)) (l_Value (ls ! j)) d h))"
  using assms
proof (induction ls arbitrary: i dms)
  case (Cons l ls)
  obtain d h where d: "dem l = Some (d, h)" using Cons.prems by (cases "dem l") auto
  obtain rest where rest: "limit_demands rnd dem (Suc i) ls = Inr rest"
    and dms: "dms = withhold l (demand_of rnd (l_Dimension l) (int i) (l_Value l) d h) # rest"
    using Cons.prems d by (cases "limit_demands rnd dem (Suc i) ls") auto
  from Cons.IH [OF rest] d dms show ?case by (auto simp: less_Suc_eq_0_disj ac_simps)
qed simp

text \<open>The checker's verdict on one demand of the rule.\<close>

lemma check_own_demand:
  fixes d :: rat
  assumes mono: "\<And>x y. x \<le> y \<Longrightarrow> rnd x \<le> rnd y" and l: "limits ! j = l" "j < length limits"
    and half: "h \<longleftrightarrow> \<not> (l_Dimension l = ''spend_per_month_usd'' \<or> l_Dimension l = ''auto_reload_threshold_usd'')"
    and float: "rnd (l_Value l) = l_Value l" "rnd (test_bound (l_Value l) h) = test_bound (l_Value l) h"
  defines "dm \<equiv> withhold l (demand_of rnd (l_Dimension l) (int j) (l_Value l) d h)"
  shows "check_demand limits dm = [] \<longleftrightarrow> (dm_Confidential dm \<and> \<not> dm_Pass dm \<longrightarrow> test_bound (l_Value l) h < dm_Demand dm)"
proof -
  have le: "d \<le> test_bound (l_Value l) h \<Longrightarrow> rnd d \<le> test_bound (l_Value l) h" using mono float(2) by metis
  have f: "dm_Unpublished dm = False" "dm_Limit dm = int j" "dm_Dimension dm = l_Dimension l" "dm_Half dm = h"
    "dm_Demand dm = rnd d" "dm_Pass dm \<longleftrightarrow> d \<le> test_bound (l_Value l) h" "dm_Confidential dm \<longleftrightarrow> l_Marking l = ''confidential''"
    by (simp_all add: dm_def withhold_def demand_of_def)
  define cover where "cover \<longleftrightarrow> l_Dimension l = ''spend_per_month_usd'' \<or> l_Dimension l = ''auto_reload_threshold_usd''"
  have h: "h = (\<not> cover)" using half unfolding cover_def .
  show ?thesis
  proof (cases "l_Marking l = ''confidential''")
    case True
    then have v: "dm_Value dm = 0" "dm_Fraction dm = 0" "dm_Source dm = l_Source l" "dm_HMACSHA256 dm = l_HMACSHA256 l"
      by (simp_all add: dm_def withhold_def demand_of_def)
    have "check_demand limits dm = (if (rnd d \<le> test_bound (l_Value l) h) \<noteq> (d \<le> test_bound (l_Value l) h) then [PPass] else [])"
      unfolding check_demand_def Let_def f v nat_int l(1) cover_def [symmetric] h using l(2) True by simp
    with le show ?thesis unfolding f using True by auto
  next
    case False
    then have v: "dm_Value dm = rnd (l_Value l)" "dm_Source dm = []" "dm_HMACSHA256 dm = []"
      by (simp_all add: dm_def withhold_def demand_of_def)
    have "check_demand limits dm = []" unfolding check_demand_def Let_def f v nat_int l(1) cover_def [symmetric] h using l(2) False float(1) by simp
    with False show ?thesis unfolding f by blast
  qed
qed

lemma check_other_demands:
  "d \<in> set (unpublished_demands rnd r us) \<Longrightarrow> check_demand limits d = [] \<and> \<not> dm_Confidential d"
  "check_demand limits (demand_of rnd ''route_cap_usd'' (- 1) cap e False) = [] \<and> \<not> dm_Confidential (demand_of rnd ''route_cap_usd'' (- 1) cap e False)"
  by (auto simp: unpublished_demands_def demand_of_def check_demand_def)

lemma concat_map2_Nil:
  "length ks = length xs \<Longrightarrow> concat (map2 (\<lambda>k s. map (g k) (f s)) ks xs) = [] \<longleftrightarrow> (\<forall>s\<in>set xs. f s = [])"
  by (induction ks xs rule: list_induct2) auto

text \<open>Claim C32. The checker accepts the rule's own verdict exactly when no refused demand against a confidential limit
  rounds onto the bound it exceeds: a demand is judged exactly by the rule and published in float64, so only
  such a demand reads as a pass. The limits' values and their halves are float64 values.\<close>

theorem published_verdict_checks:
  assumes "CeilingRule rnd env validate cfg p plan = Inr v" and "\<And>x y. x \<le> y \<Longrightarrow> rnd x \<le> rnd y"
    and "\<forall>l\<in>set (t_Limits (cf_Target cfg)). rnd (l_Value l) = l_Value l \<and> rnd (l_Value l / 2) = l_Value l / 2"
  shows "CheckPublished cfg v = [] \<longleftrightarrow>
     (\<forall>s\<in>set (v_Steps v). \<forall>d\<in>set (sp_Demands s). dm_Confidential d \<and> \<not> dm_Pass d \<longrightarrow>
        test_bound (l_Value (t_Limits (cf_Target cfg) ! nat (dm_Limit d))) (dm_Half d) < dm_Demand d)"
proof -
  let ?ls = "t_Limits (cf_Target cfg)"
  let ?good = "\<lambda>d. dm_Confidential d \<and> \<not> dm_Pass d \<longrightarrow> test_bound (l_Value (?ls ! nat (dm_Limit d))) (dm_Half d) < dm_Demand d"
  obtain c cProbe cap ys where ss: "list_all2 (\<lambda>s y. \<exists>dms. step_demands rnd cfg plan c cProbe cap (fst y) (snd y) = Inr dms \<and> s = judge (fst y) dms) (v_Steps v) ys"
    using CeilingRule_ok [OF assms(1)] by blast
  have each: "check_demand ?ls d = [] \<longleftrightarrow> ?good d" if s: "s \<in> set (v_Steps v)" and d: "d \<in> set (sp_Demands s)" for s d
  proof -
    obtain r cell dms where dms: "step_demands rnd cfg plan c cProbe cap r cell = Inr dms" and sj: "s = judge r dms"
      using ss s by (auto simp: list_all2_conv_all_nth in_set_conv_nth)
    define dem where "dem = (\<lambda>l. limitDemand l r cell (pl_DayCells plan) (cf_InputBoundTokens cfg) (cf_CeilingTokens cfg) c
        (cf_HTTPTimeoutS cfg) (c * of_int cell) (edition_usd plan c cProbe cell))"
    obtain ld where ld: "limit_demands rnd dem 0 ?ls = Inr ld"
      using dms by (cases "limit_demands rnd dem 0 ?ls") (simp_all add: step_demands_def Let_def dem_def)
    have "dms = ld @ unpublished_demands rnd r (t_UnpublishedLimits (cf_Target cfg))
        @ [demand_of rnd ''route_cap_usd'' (- 1) cap (edition_usd plan c cProbe cell) False]"
      using dms ld by (simp add: step_demands_def Let_def dem_def)
    then consider (limit) "d \<in> set ld" | (other) "check_demand ?ls d = [] \<and> \<not> dm_Confidential d"
      using d check_other_demands by (auto simp: sj judge_def Let_def)
    then show ?thesis
    proof cases
      case limit
      then obtain j where j: "j < length ?ls" "d = ld ! j" using limit_demands_nth [OF ld] by (auto simp: in_set_conv_nth)
      obtain x h where x: "dem (?ls ! j) = Some (x, h)"
        and dx: "d = withhold (?ls ! j) (demand_of rnd (l_Dimension (?ls ! j)) (int j) (l_Value (?ls ! j)) x h)"
        using limit_demands_nth [OF ld] j by auto
      have f: "dm_Limit d = int j" "dm_Half d = h" by (simp_all add: dx withhold_def demand_of_def)
      have "rnd (l_Value (?ls ! j)) = l_Value (?ls ! j)" "rnd (test_bound (l_Value (?ls ! j)) h) = test_bound (l_Value (?ls ! j)) h"
        using assms(3) j(1) by (simp_all add: test_bound_def)
      from check_own_demand [OF assms(2) refl j(1) limitDemand_half [OF x [unfolded dem_def]] this, of x]
      show ?thesis unfolding dx [symmetric] f nat_int .
    qed blast
  qed
  have bind: "d \<in> set (sp_Demands s)" if s: "s \<in> set (v_Steps v)" and b: "sp_Binding s = Some d" for s d
  proof -
    obtain r dms where "s = judge r dms" using ss s by (auto simp: list_all2_conv_all_nth in_set_conv_nth)
    with b show ?thesis by (auto simp: judge_def Let_def find_Some_iff in_set_conv_nth)
  qed
  have "check_step ?ls s = [] \<longleftrightarrow> (\<forall>d\<in>set (sp_Demands s). ?good d)" if "s \<in> set (v_Steps v)" for s
  proof -
    have "check_step ?ls s = [] \<longleftrightarrow> (\<forall>d\<in>set (sp_Demands s). check_demand ?ls d = [])"
      using bind [OF that] by (auto simp: check_step_def split: option.split)
    with each [OF that] show ?thesis by blast
  qed
  moreover have "CheckPublished cfg v = [] \<longleftrightarrow> (\<forall>s\<in>set (v_Steps v). check_step ?ls s = [])"
    unfolding CheckPublished_def by (rule concat_map2_Nil) simp
  ultimately show ?thesis by blast
qed

theorem published_verdict_checks_witness:
  "CheckPublished demo_release demo_verdict = [] \<longleftrightarrow>
     (\<forall>s\<in>set (v_Steps demo_verdict). \<forall>d\<in>set (sp_Demands s). dm_Confidential d \<and> \<not> dm_Pass d \<longrightarrow>
        test_bound (l_Value (t_Limits (cf_Target demo_release) ! nat (dm_Limit d))) (dm_Half d) < dm_Demand d)"
proof -
  have l: "\<forall>l\<in>set (t_Limits (cf_Target demo_release)). fl (l_Value l) = l_Value l \<and> fl (l_Value l / 2) = l_Value l / 2"
    using fl_of_int [of 100] fl_of_int [of 50] by (simp add: demo_release_def)
  show ?thesis by (rule published_verdict_checks [OF demo_rule _ l]) (rule fl_mono)
qed

end
