(* ===== verification/Sse.thy ===== *)
theory Sse
  imports Prelude "HOL-Library.Sublist"
begin

text \<open>
  The event framing of \<^verbatim>\<open>internal/sse/sse.go\<close>: \<open>SplitLines\<close>, the scan of a stream into lines through
  \<open>bufio.Scanner\<close>, and \<open>Events\<close>. The scanner is a step relation in which each read delivers any
  non-empty part of the stream that fits the buffer; \<open>scan_lines\<close> gives the lines as a function of the
  whole stream, and the two agree however the reads fall. \<open>cap\<close> is the size the scanner's buffer grows to: the larger of
  its initial 4096 bytes and the limit. Bytes are characters.
\<close>

section \<open>Definitions\<close>

abbreviation lf :: char where "lf \<equiv> CHR 0x0A"
abbreviation cr :: char where "cr \<equiv> CHR 0x0D"

text \<open>The loop of \<open>SplitLines\<close> with the bytes before the index; the result is the advance and the token.\<close>

fun split_loop :: "string \<Rightarrow> string \<Rightarrow> bool \<Rightarrow> nat \<times> string option" where
  "split_loop seen [] atEOF = (if atEOF then (length seen, Some seen) else (0, None))"
| "split_loop seen (b # rest) atEOF =
     (if b = lf then (length seen + 1, Some seen)
      else if b = cr then
        (case rest of
           d # _ \<Rightarrow> (if d = lf then length seen + 2 else length seen + 1, Some seen)
         | [] \<Rightarrow> if atEOF then (length seen + 1, Some seen) else (0, None))
      else split_loop (seen @ [b]) rest atEOF)"

definition SplitLines :: "string \<Rightarrow> bool \<Rightarrow> nat \<times> string option" where
  "SplitLines data atEOF = (if atEOF \<and> data = [] then (0, None) else split_loop [] data atEOF)"

text \<open>The scanner: the unread part of its buffer, the rest of the stream, whether a read has reported the stream's end,
  and the tokens so far.\<close>

record scanner =
  sc_pending :: string
  sc_rest :: string
  sc_eof :: bool
  sc_tokens :: "string list"

definition scan_start :: "string \<Rightarrow> scanner" where
  "scan_start s = \<lparr>sc_pending = [], sc_rest = s, sc_eof = False, sc_tokens = []\<rparr>"

inductive scan_step :: "nat \<Rightarrow> scanner \<Rightarrow> scanner \<Rightarrow> bool" for cap :: nat where
  token: "sc_pending c \<noteq> [] \<or> sc_eof c \<Longrightarrow> SplitLines (sc_pending c) (sc_eof c) = (adv, Some t) \<Longrightarrow>
    scan_step cap c (c\<lparr>sc_pending := drop adv (sc_pending c), sc_tokens := sc_tokens c @ [t]\<rparr>)"
| read: "\<not> sc_eof c \<Longrightarrow> SplitLines (sc_pending c) False = (0, None) \<Longrightarrow> n \<le> length (sc_rest c) \<Longrightarrow>
    length (sc_pending c) < cap \<Longrightarrow> length (sc_pending c) + n \<le> cap \<Longrightarrow>
    (if eof then n = length (sc_rest c) else 0 < n) \<Longrightarrow>
    scan_step cap c (c\<lparr>sc_pending := sc_pending c @ take n (sc_rest c), sc_rest := drop n (sc_rest c), sc_eof := eof\<rparr>)"



text \<open>The scan ends at the stream's end, or with \<open>bufio.ErrTooLong\<close> on a full buffer that holds no line.\<close>

definition scan_done :: "scanner \<Rightarrow> bool" where
  "scan_done c \<longleftrightarrow> sc_eof c \<and> SplitLines (sc_pending c) True = (0, None)"

definition scan_too_long :: "nat \<Rightarrow> scanner \<Rightarrow> bool" where
  "scan_too_long cap c \<longleftrightarrow> \<not> sc_eof c \<and> SplitLines (sc_pending c) False = (0, None) \<and> cap \<le> length (sc_pending c)"

text \<open>The lines of a whole stream. \<open>need\<close> is the buffer a line takes: its bytes, its terminator and, after a carriage
  return or at the end, one byte more to tell what follows.\<close>

fun need :: "string \<Rightarrow> nat" where
  "need [] = 1"
| "need (b # s) = (if b = lf then 1 else if b = cr then 2 else Suc (need s))"

lemma split_loop_eof: "s \<noteq> [] \<or> seen \<noteq> [] \<Longrightarrow> \<exists>adv t. split_loop seen s True = (adv, Some t) \<and> 0 < adv"
  by (induction seen s True rule: split_loop.induct) (auto split: list.splits)

function scan_lines :: "nat \<Rightarrow> string \<Rightarrow> string list \<times> bool" where
  "scan_lines cap s =
     (if s = [] then ([], False)
      else if cap < need s then ([], True)
      else case SplitLines s True of
        (adv, Some t) \<Rightarrow> (let (ts, tooLong) = scan_lines cap (drop adv s) in (t # ts, tooLong))
      | (adv, None) \<Rightarrow> ([], False))"
  by pat_completeness auto
termination
proof (relation "measure (\<lambda>(cap, s). length s)", goal_cases)
  case 2
  then show ?case using split_loop_eof [of _ "[]"] by (fastforce simp: SplitLines_def)
qed simp

declare scan_lines.simps [simp del]

section \<open>Events\<close>

record ev_state =
  ev_event :: string
  ev_overflow :: bool
  ev_sawData :: bool
  ev_dropped :: nat
  ev_out :: "string list"

definition trim_prefix :: "string \<Rightarrow> string \<Rightarrow> string" where
  "trim_prefix p s = (if prefix p s then drop (length p) s else s)"

definition trim_lf :: "string \<Rightarrow> string" where
  "trim_lf s = (if s \<noteq> [] \<and> last s = lf then butlast s else s)"

text \<open>The callback answers from the payloads delivered so far whether to stop. One line; the flag says the callback
  stopped the scan.\<close>

definition event_line :: "(string list \<Rightarrow> bool) \<Rightarrow> nat \<Rightarrow> string \<Rightarrow> ev_state \<Rightarrow> ev_state \<times> bool" where
  "event_line fn limit line st =
     (if line = [] then
        let payload = trim_lf (ev_event st); deliver = (\<not> ev_overflow st \<and> payload \<noteq> []);
            out = (if deliver then ev_out st @ [payload] else ev_out st)
        in (st\<lparr>ev_event := [], ev_overflow := False, ev_out := out\<rparr>, deliver \<and> fn out)
      else if \<not> prefix ''data:'' line then (st, False)
      else let st1 = st\<lparr>ev_sawData := True\<rparr>; v = trim_prefix '' '' (drop 5 line)
           in if ev_overflow st1 then (st1, False)
              else if limit < length (ev_event st1) + length v + 1
              then (st1\<lparr>ev_dropped := Suc (ev_dropped st1), ev_event := [], ev_overflow := True\<rparr>, False)
              else (st1\<lparr>ev_event := ev_event st1 @ v @ [lf]\<rparr>, False))"

fun events_loop :: "(string list \<Rightarrow> bool) \<Rightarrow> nat \<Rightarrow> string list \<Rightarrow> ev_state \<Rightarrow> ev_state \<times> bool" where
  "events_loop fn limit [] st = (st, False)"
| "events_loop fn limit (l # ls) st =
     (case event_line fn limit l st of
        (st', True) \<Rightarrow> (st', True)
      | (st', False) \<Rightarrow> events_loop fn limit ls st')"

definition bom :: string where
  "bom = [CHR 0xEF, CHR 0xBB, CHR 0xBF]"

definition strip_first :: "string list \<Rightarrow> string list" where
  "strip_first ls = (case ls of [] \<Rightarrow> [] | l # ls' \<Rightarrow> trim_prefix bom l # ls')"

definition ev_start :: ev_state where
  "ev_start = \<lparr>ev_event = [], ev_overflow = False, ev_sawData = False, ev_dropped = 0, ev_out = []\<rparr>"

text \<open>\<open>Events\<close> over the scanned lines: the payloads delivered, whether a data field was seen, the events dropped and
  whether the scan ended with \<open>ErrTooLong\<close>.\<close>

definition Events_lines :: "(string list \<Rightarrow> bool) \<Rightarrow> nat \<Rightarrow> string list \<times> bool \<Rightarrow> string list \<times> bool \<times> nat \<times> bool" where
  "Events_lines fn limit scanned =
     (case events_loop fn limit (strip_first (fst scanned)) ev_start of
        (st, True) \<Rightarrow> (ev_out st, ev_sawData st, ev_dropped st, False)
      | (st, False) \<Rightarrow>
          (let payload = trim_lf (ev_event st);
               out = (if \<not> ev_overflow st \<and> payload \<noteq> [] then ev_out st @ [payload] else ev_out st)
           in (out, ev_sawData st, ev_dropped st + (if snd scanned then 1 else 0), snd scanned)))"

definition Events :: "(string list \<Rightarrow> bool) \<Rightarrow> nat \<Rightarrow> string \<Rightarrow> string list \<times> bool \<times> nat \<times> bool" where
  "Events fn limit s = Events_lines fn limit (scan_lines (max 4096 limit) s)"

section \<open>The scanner refines the lines of the stream\<close>

lemma need_pos: "0 < need s"
  by (cases s) simp_all

lemma split_loop_None: "length p < need p \<Longrightarrow> split_loop seen p False = (0, None)"
  by (induction seen p False rule: split_loop.induct) (auto split: if_splits list.splits)

lemma split_loop_Some:
  "need p \<le> length p \<Longrightarrow> \<exists>adv t. split_loop seen p False = (adv, Some t) \<and> split_loop seen (p @ r) e = (adv, Some t)
     \<and> length seen < adv \<and> adv \<le> length seen + length p"
proof (induction p arbitrary: seen)
  case (Cons b p)
  consider "b = lf" | "b = cr" | "b \<noteq> lf" "b \<noteq> cr" by blast
  then show ?case
  proof cases
    case 2
    with Cons.prems show ?thesis by (cases p) auto
  next
    case 3
    with Cons.prems have "need p \<le> length p" by simp
    from Cons.IH [OF this, of "seen @ [b]"] 3 show ?thesis by auto
  qed simp
qed simp

lemma need_append: "need p \<le> length p \<Longrightarrow> need (p @ r) = need p"
  by (induction p) auto

lemma need_append_gt: "length p < need p \<Longrightarrow> length p < need (p @ r)"
  by (induction p) (auto simp: need_pos split: if_splits)

lemma SplitLines_False: "SplitLines p False = split_loop [] p False"
  by (simp add: SplitLines_def)

lemma SplitLines_None_iff: "SplitLines p False = (0, None) \<longleftrightarrow> length p < need p"
  unfolding SplitLines_False
proof
  assume none: "split_loop [] p False = (0, None)"
  show "length p < need p"
  proof (rule ccontr)
    assume "\<not> length p < need p"
    then have "need p \<le> length p" by simp
    from split_loop_Some [OF this, of "[]"] none show False by simp
  qed
qed (rule split_loop_None)

lemma SplitLines_extend:
  assumes "SplitLines p False = (adv, Some t)"
  shows "SplitLines (p @ r) True = (adv, Some t)" and "adv \<le> length p" and "0 < adv" and "need (p @ r) = need p" and "need p \<le> length p" and "p \<noteq> []"
proof -
  show le: "need p \<le> length p" using assms SplitLines_None_iff [of p] by (metis not_less option.distinct(1) prod.inject)
  obtain adv' t' where *: "split_loop [] p False = (adv', Some t')" "split_loop [] (p @ r) True = (adv', Some t')" "0 < adv'" "adv' \<le> length p"
    using split_loop_Some [OF le, of "[]" r True] by auto
  then show "adv \<le> length p" and "0 < adv" and "p \<noteq> []" using assms by (auto simp: SplitLines_False)
  then show "SplitLines (p @ r) True = (adv, Some t)" using * assms by (simp add: SplitLines_def)
  show "need (p @ r) = need p" by (rule need_append [OF le])
qed

lemma SplitLines_True:
  "SplitLines p True = (adv, Some t) \<Longrightarrow> p \<noteq> [] \<and> 0 < adv"
  using split_loop_eof [of p "[]"] by (auto simp: SplitLines_def split: if_splits)

lemma SplitLines_True_None: "SplitLines p True = (adv, None) \<Longrightarrow> p = []"
  using split_loop_eof [of p "[]"] by (auto simp: SplitLines_def split: if_splits)

lemma scan_lines_unfold:
  assumes "SplitLines s True = (adv, Some t)" and "need s \<le> cap"
  shows "scan_lines cap s = (t # fst (scan_lines cap (drop adv s)), snd (scan_lines cap (drop adv s)))"
  using assms SplitLines_True [OF assms(1)] by (subst scan_lines.simps) (simp add: case_prod_unfold Let_def)

lemma scan_lines_fit:
  assumes "\<not> snd (scan_lines cap s)" and "s \<noteq> []"
  shows "need s \<le> cap"
  using assms by (subst (asm) scan_lines.simps) (auto split: if_splits)

text \<open>The invariant: the tokens and the lines of what is left are the lines of the stream.\<close>

definition scan_inv :: "nat \<Rightarrow> string \<Rightarrow> scanner \<Rightarrow> bool" where
  "scan_inv cap s c \<longleftrightarrow> sc_tokens c @ fst (scan_lines cap (sc_pending c @ sc_rest c)) = fst (scan_lines cap s)
     \<and> \<not> snd (scan_lines cap (sc_pending c @ sc_rest c)) \<and> (sc_eof c \<longrightarrow> sc_rest c = [])"

lemma scan_inv_token:
  assumes "SplitLines (p @ r) True = (adv, Some t)" and "adv \<le> length p"
    and "\<not> snd (scan_lines cap (p @ r))"
  shows "fst (scan_lines cap (p @ r)) = t # fst (scan_lines cap (drop adv p @ r)) \<and> \<not> snd (scan_lines cap (drop adv p @ r))"
proof -
  have "p @ r \<noteq> []" using SplitLines_True [OF assms(1)] by blast
  then have fit: "need (p @ r) \<le> cap" by (rule scan_lines_fit [OF assms(3)])
  have "drop adv (p @ r) = drop adv p @ r" using assms(2) by simp
  with scan_lines_unfold [OF assms(1) fit] assms(3) show ?thesis by simp
qed

lemma split_loop_adv: "split_loop seen p True = (adv, Some t) \<Longrightarrow> adv \<le> length seen + length p"
  by (induction seen p True arbitrary: adv t rule: split_loop.induct) (fastforce split: if_splits list.splits)+

lemma scan_step_inv:
  assumes "scan_step cap c c'" and "scan_inv cap s c"
  shows "scan_inv cap s c'"
  using assms(1)
proof (cases rule: scan_step.cases)
  case (token adv t)
  have inv: "sc_tokens c @ fst (scan_lines cap (sc_pending c @ sc_rest c)) = fst (scan_lines cap s)"
    "\<not> snd (scan_lines cap (sc_pending c @ sc_rest c))" "sc_eof c \<longrightarrow> sc_rest c = []" using assms(2) by (simp_all add: scan_inv_def)
  have "SplitLines (sc_pending c @ sc_rest c) True = (adv, Some t) \<and> adv \<le> length (sc_pending c)"
  proof (cases "sc_eof c")
    case True
    with token(3) have split: "SplitLines (sc_pending c) True = (adv, Some t)" by simp
    then have "adv \<le> length (sc_pending c)" using split_loop_adv [of "[]"] by (auto simp: SplitLines_def split: if_splits)
    with split True inv(3) show ?thesis by simp
  next
    case False
    with token(3) SplitLines_extend show ?thesis by simp
  qed
  then have "fst (scan_lines cap (sc_pending c @ sc_rest c)) = t # fst (scan_lines cap (drop adv (sc_pending c) @ sc_rest c))
      \<and> \<not> snd (scan_lines cap (drop adv (sc_pending c) @ sc_rest c))"
    using scan_inv_token inv(2) by blast
  with inv(1,3) show ?thesis unfolding scan_inv_def token(1) by simp
next
  case (read n eof)
  with assms(2) show ?thesis by (auto simp: scan_inv_def)
qed

lemma scan_steps_inv:
  assumes "(scan_step cap)\<^sup>*\<^sup>* (scan_start s) c" and "\<not> snd (scan_lines cap s)"
  shows "scan_inv cap s c"
  using assms(1)
proof (induction rule: rtranclp_induct)
  case base
  with assms(2) show ?case by (simp add: scan_inv_def scan_start_def)
next
  case (step c c')
  then show ?case using scan_step_inv by blast
qed

definition scan_work :: "scanner \<Rightarrow> nat" where
  "scan_work c = 2 * length (sc_rest c) + length (sc_pending c) + (if sc_eof c then 0 else 1)"

lemma scan_step_work:
  assumes "scan_step cap c c'"
  shows "scan_work c' < scan_work c"
  using assms
proof (cases rule: scan_step.cases)
  case (token adv t)
  have "sc_pending c \<noteq> [] \<and> 0 < adv"
  proof (cases "sc_eof c")
    case True
    with token(3) SplitLines_True show ?thesis by simp
  next
    case False
    with token(3) SplitLines_extend(3,6) show ?thesis by simp
  qed
  then show ?thesis using token(1) by (auto simp: scan_work_def)
next
  case (read n eof)
  then show ?thesis by (auto simp: scan_work_def split: if_splits)
qed

lemma scan_progress:
  assumes "\<not> scan_done c" and "\<not> scan_too_long cap c" and "0 < cap"
  shows "\<exists>c'. scan_step cap c c'"
proof (cases "SplitLines (sc_pending c) (sc_eof c)")
  case (Pair adv t)
  show ?thesis
  proof (cases t)
    case (Some u)
    have "sc_pending c \<noteq> [] \<or> sc_eof c" using Pair Some SplitLines_extend(6) by (cases "sc_eof c") simp_all
    with Pair Some show ?thesis using scan_step.token by blast
  next
    case None
    have "\<not> sc_eof c"
    proof
      assume eof: "sc_eof c"
      then have "sc_pending c = []" using Pair None SplitLines_True_None by simp
      then have "scan_done c" using eof by (simp add: scan_done_def SplitLines_def)
      with assms(1) show False by blast
    qed
    moreover have none: "SplitLines (sc_pending c) False = (0, None)"
      using Pair None SplitLines_None_iff [of "sc_pending c"] split_loop_Some [of "sc_pending c" "[]" "[]" False] \<open>\<not> sc_eof c\<close>
      by (force simp: SplitLines_False)
    moreover have "length (sc_pending c) < cap" using assms(2) calculation by (simp add: scan_too_long_def)
    ultimately show ?thesis
      using scan_step.read [of c 0 cap True] scan_step.read [of c 1 cap False] by (cases "sc_rest c = []") (auto simp: Suc_le_eq)
  qed
qed

text \<open>Claim C15. However the reads fall, scanning a stream whose lines all fit the buffer yields exactly the lines of the
  whole stream: a scan never reports a line as too long, is finished or can go on, cannot go on forever, and when
  it is finished its tokens are the stream's lines.\<close>

theorem scan_refines_lines:
  assumes "(scan_step cap)\<^sup>*\<^sup>* (scan_start s) c" and "\<not> snd (scan_lines cap s)" and "0 < cap"
  shows "\<not> scan_too_long cap c \<and> (scan_done c \<or> (\<exists>c'. scan_step cap c c'))
     \<and> (\<forall>c'. scan_step cap c c' \<longrightarrow> scan_work c' < scan_work c)
     \<and> (scan_done c \<longrightarrow> sc_tokens c = fst (scan_lines cap s))"
proof -
  have inv: "scan_inv cap s c" by (rule scan_steps_inv [OF assms(1,2)])
  have long: "\<not> scan_too_long cap c"
  proof
    assume l: "scan_too_long cap c"
    then have "length (sc_pending c) < need (sc_pending c)" "cap \<le> length (sc_pending c)"
      by (simp_all add: scan_too_long_def SplitLines_None_iff)
    then have "cap < need (sc_pending c @ sc_rest c)" "sc_pending c @ sc_rest c \<noteq> []"
      using need_append_gt [of "sc_pending c" "sc_rest c"] assms(3) by auto
    moreover have "\<not> snd (scan_lines cap (sc_pending c @ sc_rest c))" using inv by (simp add: scan_inv_def)
    ultimately show False using scan_lines_fit by fastforce
  qed
  have "sc_tokens c = fst (scan_lines cap s)" if d: "scan_done c"
  proof -
    have "sc_pending c = []" "sc_rest c = []" using d inv SplitLines_True_None by (auto simp: scan_done_def scan_inv_def)
    moreover have "fst (scan_lines cap []) = []" by (simp add: scan_lines.simps)
    ultimately show ?thesis using inv by (simp add: scan_inv_def)
  qed
  with long scan_progress [OF _ long assms(3)] scan_step_work show ?thesis by blast
qed

theorem scan_refines_lines_witness:
  "\<not> scan_too_long 4096 (scan_start (''data: a'' @ [cr, lf, lf])) \<and> fst (scan_lines 4096 (''data: a'' @ [cr, lf, lf])) = [''data: a'', '''']"
proof -
  have "scan_lines 4096 (''data: a'' @ [cr, lf, lf]) = ([''data: a'', ''''], False)" by code_simp
  then show ?thesis using scan_refines_lines [of 4096 "''data: a'' @ [cr, lf, lf]" "scan_start (''data: a'' @ [cr, lf, lf])"] by simp
qed

lemma scan_can_end:
  assumes "0 < cap"
  shows "\<exists>c'. (scan_step cap)\<^sup>*\<^sup>* c c' \<and> (scan_done c' \<or> scan_too_long cap c')"
proof (induction "scan_work c" arbitrary: c rule: less_induct)
  case less
  show ?case
  proof (cases "scan_done c \<or> scan_too_long cap c")
    case False
    then obtain c1 where step: "scan_step cap c c1" using scan_progress [OF _ _ assms] by blast
    from less [OF scan_step_work [OF step]] step show ?thesis by (blast intro: converse_rtranclp_into_rtranclp)
  qed blast
qed

text \<open>Claim C26. A scan always ends: from every state, whatever has been read, the end of the stream or the too-long error
  is reached, and there is no infinite sequence of reads and tokens.\<close>

theorem scan_always_ends:
  assumes "0 < cap"
  shows "(\<exists>c'. (scan_step cap)\<^sup>*\<^sup>* c c' \<and> (scan_done c' \<or> scan_too_long cap c'))
     \<and> \<not> (\<exists>run. run 0 = c \<and> (\<forall>i. scan_step cap (run i) (run (Suc i))))"
proof
  show "\<exists>c'. (scan_step cap)\<^sup>*\<^sup>* c c' \<and> (scan_done c' \<or> scan_too_long cap c')" by (rule scan_can_end [OF assms])
  show "\<not> (\<exists>run. run 0 = c \<and> (\<forall>i. scan_step cap (run i) (run (Suc i))))"
  proof
    assume "\<exists>run. run 0 = c \<and> (\<forall>i. scan_step cap (run i) (run (Suc i)))"
    then obtain run where run: "\<forall>i. scan_step cap (run i) (run (Suc i))" by blast
    have "scan_work (run i) + i \<le> scan_work (run 0)" for i
    proof (induction i)
      case (Suc i)
      with scan_step_work [OF run [rule_format, of i]] show ?case by linarith
    qed simp
    from this [of "Suc (scan_work (run 0))"] show False by simp
  qed
qed

theorem scan_always_ends_witness:
  "\<exists>c'. (scan_step 4096)\<^sup>*\<^sup>* (scan_start (''data: a'' @ [lf])) c' \<and> (scan_done c' \<or> scan_too_long 4096 c')"
  using scan_always_ends [of 4096 "scan_start (''data: a'' @ [lf])"] by simp

section \<open>Payloads\<close>

definition ev_ok :: "nat \<Rightarrow> ev_state \<Rightarrow> bool" where
  "ev_ok limit st \<longleftrightarrow> length (ev_event st) \<le> limit \<and> (ev_event st \<noteq> [] \<longrightarrow> last (ev_event st) = lf)
     \<and> (\<forall>p\<in>set (ev_out st). p \<noteq> [] \<and> length p < limit)"

lemma payload_bounded: "ev_ok limit st \<Longrightarrow> trim_lf (ev_event st) \<noteq> [] \<Longrightarrow> length (trim_lf (ev_event st)) < limit"
  by (cases "ev_event st" rule: rev_cases) (auto simp: ev_ok_def trim_lf_def)

lemma event_line_ok: "ev_ok limit st \<Longrightarrow> ev_ok limit (fst (event_line fn limit l st))"
proof -
  assume ok: "ev_ok limit st"
  have out: "\<forall>p\<in>set (ev_out st). p \<noteq> [] \<and> length p < limit" using ok by (simp add: ev_ok_def)
  show ?thesis
  proof (cases "l = []")
    case True
    then show ?thesis using payload_bounded [OF ok] out by (auto simp: event_line_def Let_def ev_ok_def)
  next
    case False
    then show ?thesis using ok by (auto simp: event_line_def Let_def ev_ok_def)
  qed
qed

lemma events_loop_ok: "ev_ok limit st \<Longrightarrow> ev_ok limit (fst (events_loop fn limit ls st))"
proof (induction ls arbitrary: st)
  case (Cons l ls)
  have "ev_ok limit (fst (event_line fn limit l st))" by (rule event_line_ok [OF Cons.prems])
  with Cons.IH show ?case by (auto split: prod.splits bool.splits)
qed simp

text \<open>Every payload that is delivered from any stream to any callback is non-empty and shorter than the limit.\<close>

theorem sse_payloads_bounded:
  "case Events fn limit s of (payloads, rest) \<Rightarrow> \<forall>p\<in>set payloads. p \<noteq> [] \<and> length p < limit"
proof -
  obtain st b where run: "events_loop fn limit (strip_first (fst (scan_lines (max 4096 limit) s))) ev_start = (st, b)" by fastforce
  have "ev_ok limit ev_start" by (simp add: ev_ok_def ev_start_def)
  from events_loop_ok [OF this, of fn "strip_first (fst (scan_lines (max 4096 limit) s))"] have ok: "ev_ok limit st" by (simp add: run)
  then show ?thesis
    using payload_bounded [OF ok] by (cases b) (auto simp: Events_def Events_lines_def run ev_ok_def Let_def)
qed

theorem sse_payloads_bounded_witness:
  "\<forall>p\<in>set (fst (Events (\<lambda>_. False) 100 (''data: ab'' @ [lf, lf]))). p \<noteq> [] \<and> length p < 100"
  using sse_payloads_bounded [where fn = "\<lambda>_. False" and limit = 100 and s = "''data: ab'' @ [lf, lf]"] by (simp add: case_prod_unfold)

text \<open>A server's encoding of a payload: one data line per line of it, then a blank line.\<close>

fun lf_lines :: "string \<Rightarrow> string list" where
  "lf_lines [] = [[]]"
| "lf_lines (b # s) = (if b = lf then [] # lf_lines s else (b # hd (lf_lines s)) # tl (lf_lines s))"

definition data_lines :: "string \<Rightarrow> string list" where
  "data_lines p = map (\<lambda>l. ''data: '' @ l) (lf_lines p) @ [[]]"

definition sse_encode :: "string list \<Rightarrow> string" where
  "sse_encode ps = concat (map (\<lambda>l. l @ [lf]) (concat (map data_lines ps)))"

lemma lf_lines_ne [simp]: "lf_lines p \<noteq> []"
  by (induction p) auto

lemma lf_lines_join: "concat (map (\<lambda>l. l @ [lf]) (lf_lines p)) = p @ [lf]"
proof (induction p)
  case (Cons b p)
  then show ?case by (cases "lf_lines p") auto
qed simp

lemma lf_lines_chars: "l \<in> set (lf_lines p) \<Longrightarrow> lf \<notin> set l \<and> set l \<subseteq> set p"
proof (induction p arbitrary: l)
  case (Cons b p)
  then show ?case by (cases "lf_lines p") (auto split: if_splits, blast+)
qed simp

lemma split_line:
  "lf \<notin> set l \<Longrightarrow> cr \<notin> set l \<Longrightarrow> split_loop seen (l @ lf # s) e = (length seen + length l + 1, Some (seen @ l))"
  "lf \<notin> set l \<Longrightarrow> cr \<notin> set l \<Longrightarrow> need (l @ lf # s) = length l + 1"
  by (induction l arbitrary: seen) auto

lemma scan_encoded:
  "(\<And>l. l \<in> set ls \<Longrightarrow> lf \<notin> set l \<and> cr \<notin> set l \<and> length l + 1 \<le> cap) \<Longrightarrow> scan_lines cap (concat (map (\<lambda>l. l @ [lf]) ls)) = (ls, False)"
proof (induction ls)
  case (Cons l ls)
  let ?s = "concat (map (\<lambda>l. l @ [lf]) ls)"
  have l: "lf \<notin> set l" "cr \<notin> set l" "length l + 1 \<le> cap" using Cons.prems by auto
  have "SplitLines (l @ lf # ?s) True = (length l + 1, Some l)" using split_line(1) [OF l(1,2), of "[]" ?s True] by (simp add: SplitLines_def)
  from scan_lines_unfold [OF this] split_line(2) [OF l(1,2)] l(3) Cons show ?case by simp
qed (simp add: scan_lines.simps)

lemma data_line:
  assumes "\<not> ev_overflow st" and "length (ev_event st) + length l + 1 \<le> limit"
  shows "event_line fn limit (''data: '' @ l) st = (st\<lparr>ev_sawData := True, ev_event := ev_event st @ l @ [lf]\<rparr>, False)"
  using assms by (simp add: event_line_def Let_def trim_prefix_def)

lemma data_lines_run:
  assumes "\<not> ev_overflow st" and "length (ev_event st) + length (concat (map (\<lambda>l. l @ [lf]) ls)) \<le> limit" and "ls \<noteq> [] \<or> ev_sawData st"
  shows "events_loop fn limit (map (\<lambda>l. ''data: '' @ l) ls @ rest) st =
     events_loop fn limit rest (st\<lparr>ev_sawData := True, ev_event := ev_event st @ concat (map (\<lambda>l. l @ [lf]) ls)\<rparr>)"
  using assms
proof (induction ls arbitrary: st)
  case (Cons l ls)
  let ?st = "st\<lparr>ev_sawData := True, ev_event := ev_event st @ l @ [lf]\<rparr>"
  have "event_line fn limit (''data: '' @ l) st = (?st, False)" by (rule data_line) (use Cons.prems in auto)
  then have "events_loop fn limit (map (\<lambda>l. ''data: '' @ l) (l # ls) @ rest) st = events_loop fn limit (map (\<lambda>l. ''data: '' @ l) ls @ rest) ?st"
    by simp
  also have "\<dots> = events_loop fn limit rest (?st\<lparr>ev_sawData := True, ev_event := ev_event ?st @ concat (map (\<lambda>l. l @ [lf]) ls)\<rparr>)"
    by (rule Cons.IH) (use Cons.prems in auto)
  finally show ?case by simp
next
  case Nil
  then have "st\<lparr>ev_sawData := True\<rparr> = st" by (cases st) simp
  then show ?case by simp
qed

lemma events_encoded:
  assumes "\<And>p. p \<in> set ps \<Longrightarrow> p \<noteq> [] \<and> length p < limit" and "\<not> ev_overflow st" and "ev_event st = []"
  shows "events_loop (\<lambda>_. False) limit (concat (map data_lines ps)) st =
     (st\<lparr>ev_out := ev_out st @ ps, ev_sawData := ev_sawData st \<or> ps \<noteq> []\<rparr>, False)"
  using assms
proof (induction ps arbitrary: st)
  case (Cons p ps)
  let ?rest = "concat (map data_lines ps)"
  have p: "p \<noteq> []" "length p < limit" using Cons.prems by auto
  have "events_loop (\<lambda>_. False) limit (concat (map data_lines (p # ps))) st =
      events_loop (\<lambda>_. False) limit ([] # ?rest) (st\<lparr>ev_sawData := True, ev_event := ev_event st @ concat (map (\<lambda>l. l @ [lf]) (lf_lines p))\<rparr>)"
  proof -
    have "concat (map data_lines (p # ps)) = map (\<lambda>l. ''data: '' @ l) (lf_lines p) @ [] # ?rest" by (simp add: data_lines_def [of p])
    moreover have "length (ev_event st) + length (concat (map (\<lambda>l. l @ [lf]) (lf_lines p))) \<le> limit"
      unfolding lf_lines_join using Cons.prems(3) p(2) by simp
    ultimately show ?thesis using data_lines_run [OF Cons.prems(2)] lf_lines_ne by metis
  qed
  also have "\<dots> = events_loop (\<lambda>_. False) limit ?rest (st\<lparr>ev_sawData := True, ev_event := [], ev_out := ev_out st @ [p]\<rparr>)"
    using Cons.prems(2,3) p(1) by (cases st) (simp add: lf_lines_join event_line_def Let_def trim_lf_def)
  also have "\<dots> = (st\<lparr>ev_sawData := True, ev_event := [], ev_out := ev_out st @ p # ps\<rparr>, False)"
    using Cons.IH [of "st\<lparr>ev_sawData := True, ev_event := [], ev_out := ev_out st @ [p]\<rparr>"] Cons.prems by simp
  finally show ?case using Cons.prems(3) by (cases st) simp
qed simp

text \<open>Claim C20. Every sequence of non-empty payloads without a carriage return, each shorter than the limit and encoded as a server
  writes it (one data line for every line of the payload, then a blank line), is delivered exactly, in order, and nothing is dropped.\<close>

theorem sse_round_trip:
  assumes "\<And>p. p \<in> set ps \<Longrightarrow> p \<noteq> [] \<and> cr \<notin> set p \<and> length p < limit"
    and "\<And>p l. p \<in> set ps \<Longrightarrow> l \<in> set (lf_lines p) \<Longrightarrow> length l + 7 \<le> max 4096 limit"
  shows "Events (\<lambda>_. False) limit (sse_encode ps) = (ps, ps \<noteq> [], 0, False)"
proof -
  let ?ls = "concat (map data_lines ps)"
  have "scan_lines (max 4096 limit) (sse_encode ps) = (?ls, False)"
    unfolding sse_encode_def
  proof (rule scan_encoded)
    fix l assume "l \<in> set ?ls"
    then obtain p where p: "p \<in> set ps" "l \<in> set (data_lines p)" by auto
    then show "lf \<notin> set l \<and> cr \<notin> set l \<and> length l + 1 \<le> max 4096 limit"
      using assms(1) [OF p(1)] assms(2) [OF p(1)] lf_lines_chars [of _ p] by (fastforce simp: data_lines_def)
  qed
  moreover have "strip_first ?ls = ?ls"
  proof (cases ps)
    case (Cons p qs)
    obtain l ls where "lf_lines p = l # ls" using lf_lines_ne [of p] by (cases "lf_lines p") auto
    then show ?thesis using Cons by (simp add: data_lines_def strip_first_def trim_prefix_def bom_def)
  qed (simp add: strip_first_def)
  moreover have "events_loop (\<lambda>_. False) limit ?ls ev_start = (ev_start\<lparr>ev_out := ev_out ev_start @ ps, ev_sawData := ev_sawData ev_start \<or> ps \<noteq> []\<rparr>, False)"
    by (rule events_encoded) (use assms(1) in \<open>auto simp: ev_start_def\<close>)
  ultimately show ?thesis by (simp add: Events_def Events_lines_def ev_start_def trim_lf_def)
qed

theorem sse_round_trip_witness:
  "Events (\<lambda>_. False) 100 (sse_encode [''ab'' @ [lf] @ ''c'', ''d'']) = ([''ab'' @ [lf] @ ''c'', ''d''], True, 0, False)"
  using sse_round_trip [where ps = "[''ab'' @ [lf] @ ''c'', ''d'']" and limit = 100] by fastforce

end
