(* ===== verification/Stats.thy ===== *)
theory Stats
  imports Float64
begin

text \<open>
  The run-level statistics of \<^verbatim>\<open>internal/stats\<close>: the Holm step-down procedure (\<^verbatim>\<open>holm.go\<close>) and the scalar summary
  (\<^verbatim>\<open>stats.go\<close>). \<open>rnd\<close> rounds a float64 operation and \<open>sqrt64\<close> is \<^verbatim>\<open>math.Sqrt\<close>; values are finite. The headline text is
  not modelled.
\<close>

section \<open>Holm's procedure\<close>

record comparison =
  c_Name :: string
  c_PRaw :: rat

record holm_result =
  hr_Name :: string
  hr_PRaw :: rat
  hr_PAdjusted :: rat
  hr_Rejected :: bool
  hr_Rank :: nat

definition zero_holm :: holm_result where
  "zero_holm = \<lparr>hr_Name = [], hr_PRaw = 0, hr_PAdjusted = 0, hr_Rejected = False, hr_Rank = 0\<rparr>"

definition holm_order :: "comparison list \<Rightarrow> nat list" where
  "holm_order cs = sort_key (\<lambda>i. c_PRaw (cs ! i)) [0..<length cs]"

definition adjusted :: "(rat \<Rightarrow> rat) \<Rightarrow> rat \<Rightarrow> rat \<Rightarrow> rat \<Rightarrow> rat" where
  "adjusted rnd p factor prevAdj =
     (let adj = rnd (p * factor); adj1 = (if 1 < adj then 1 else adj) in if adj1 < prevAdj then prevAdj else adj1)"

fun holm_loop :: "(rat \<Rightarrow> rat) \<Rightarrow> rat \<Rightarrow> comparison list \<Rightarrow> nat \<Rightarrow> rat \<Rightarrow> bool \<Rightarrow> nat list \<Rightarrow> holm_result list \<Rightarrow> holm_result list" where
  "holm_loop rnd alpha cs i prevAdj stillRejecting [] results = results"
| "holm_loop rnd alpha cs i prevAdj stillRejecting (oi # rest) results =
     (let c = cs ! oi; factor = rnd (of_nat (length cs - i)); adj = adjusted rnd (c_PRaw c) factor prevAdj;
          still = (stillRejecting \<and> \<not> rnd (alpha / factor) < c_PRaw c)
      in holm_loop rnd alpha cs (Suc i) adj still rest
           (results[oi := \<lparr>hr_Name = c_Name c, hr_PRaw = c_PRaw c, hr_PAdjusted = adj, hr_Rejected = still, hr_Rank = i + 1\<rparr>]))"

definition holm :: "(rat \<Rightarrow> rat) \<Rightarrow> comparison list \<Rightarrow> rat \<Rightarrow> holm_result list" where
  "holm rnd cs alpha = holm_loop rnd alpha cs 0 0 True (holm_order cs) (replicate (length cs) zero_holm)"

section \<open>The scalar summary\<close>

definition studentTDF4 :: "(rat \<Rightarrow> rat) \<Rightarrow> rat" where
  "studentTDF4 rnd = rnd (2776 / 1000)"

definition studentT95 :: "(rat \<Rightarrow> rat) \<Rightarrow> (int \<times> rat) list" where
  "studentT95 rnd =
     [(1, rnd (12706 / 1000)), (2, rnd (4303 / 1000)), (3, rnd (3182 / 1000)), (4, studentTDF4 rnd), (5, rnd (2571 / 1000)),
      (6, rnd (2447 / 1000)), (7, rnd (2365 / 1000)), (8, rnd (2306 / 1000)), (9, rnd (2262 / 1000)), (10, rnd (2228 / 1000))]"

definition tMultiplier :: "(rat \<Rightarrow> rat) \<Rightarrow> int \<Rightarrow> rat" where
  "tMultiplier rnd df =
     (case map_of (studentT95 rnd) df of
        Some t \<Rightarrow> t
      | None \<Rightarrow> (case map_of (studentT95 rnd) 10 of Some t \<Rightarrow> t | None \<Rightarrow> 0))"

record summary =
  su_Values :: "rat list"
  su_N :: nat
  su_Median :: rat
  su_Mean :: rat
  su_Min :: rat
  su_Max :: rat
  su_SampleSD :: rat
  su_SEM :: rat
  su_TIntervalLo :: rat
  su_TIntervalHi :: rat
  su_TMultiplier :: rat
  su_DF :: int
  su_AtPinnedDF :: bool
  su_CoV :: rat
  su_CoVDefined :: bool
  su_Heavy :: bool

text \<open>The median of a sorted sample; \<open>None\<close> is an index out of range.\<close>

definition median :: "(rat \<Rightarrow> rat) \<Rightarrow> rat list \<Rightarrow> rat option" where
  "median rnd s =
     (let n = int (length s)
      in if n mod 2 = 1 then go_nth s (n div 2)
         else case (go_nth s (n div 2 - 1), go_nth s (n div 2)) of
           (Some a, Some b) \<Rightarrow> Some (rnd (rnd (a + b) / 2)) | _ \<Rightarrow> None)"

definition fsum :: "(rat \<Rightarrow> rat) \<Rightarrow> rat list \<Rightarrow> rat" where
  "fsum rnd xs = foldl (\<lambda>s x. rnd (s + x)) 0 xs"

definition sample_sd :: "(rat \<Rightarrow> rat) \<Rightarrow> (rat \<Rightarrow> rat) \<Rightarrow> rat list \<Rightarrow> rat \<Rightarrow> rat" where
  "sample_sd rnd sqrt64 values mean =
     sqrt64 (rnd (fsum rnd (map (\<lambda>v. let d = rnd (v - mean) in rnd (d * d)) values) / rnd (of_nat (length values - 1))))"

text \<open>\<open>None\<close> is the panic on an empty input.\<close>

definition Summarize :: "(rat \<Rightarrow> rat) \<Rightarrow> (rat \<Rightarrow> rat) \<Rightarrow> rat list \<Rightarrow> bool \<Rightarrow> summary option" where
  "Summarize rnd sqrt64 values heavy =
     (let n = length values; s = sort values
      in if n = 0 then None
         else case (go_nth s 0, go_nth s (int n - 1), median rnd s) of
           (Some mn, Some mx, Some med) \<Rightarrow>
             let mean = rnd (fsum rnd values / rnd (of_nat n));
                 sd = (if 2 \<le> n then sample_sd rnd sqrt64 values mean else 0);
                 sem = (if 2 \<le> n then rnd (sd / sqrt64 (rnd (of_nat n))) else 0);
                 df = (if 2 \<le> n then int n - 1 else 0);
                 tm = (if 2 \<le> n then tMultiplier rnd df else 0);
                 half = rnd (tm * sem);
                 cov = (mean \<noteq> 0 \<and> 2 \<le> n)
             in Some \<lparr>su_Values = values, su_N = n, su_Median = med, su_Mean = mean, su_Min = mn, su_Max = mx, su_SampleSD = sd, su_SEM = sem,
                  su_TIntervalLo = (if 2 \<le> n then rnd (mean - half) else mean), su_TIntervalHi = (if 2 \<le> n then rnd (mean + half) else mean),
                  su_TMultiplier = tm, su_DF = df, su_AtPinnedDF = (df = 4), su_CoV = (if cov then rnd (sd / mean) else 0), su_CoVDefined = cov,
                  su_Heavy = heavy\<rparr>
         | _ \<Rightarrow> None)"

section \<open>The step-down\<close>


lemma holm_loop_length [simp]: "length (holm_loop rnd alpha cs i prev still xs results) = length results"
  by (induction xs arbitrary: i prev still results) (simp_all add: Let_def)

lemma holm_loop_other: "k \<notin> set xs \<Longrightarrow> holm_loop rnd alpha cs i prev still xs results ! k = results ! k"
  by (induction xs arbitrary: i prev still results) (simp_all add: Let_def)


lemma holm_order_perm: "distinct (holm_order cs)" "set (holm_order cs) = {..<length cs}" "sorted (map (\<lambda>i. c_PRaw (cs ! i)) (holm_order cs))"
  by (auto simp: holm_order_def)




text \<open>The raw order is the order of the raw values, equal ones in the order they are given.\<close>

definition precedes :: "comparison list \<Rightarrow> nat \<Rightarrow> nat \<Rightarrow> bool" where
  "precedes cs j k \<longleftrightarrow> c_PRaw (cs ! j) < c_PRaw (cs ! k) \<or> c_PRaw (cs ! j) = c_PRaw (cs ! k) \<and> j < k"

lemma sorted_filter_nth:
  assumes "sorted_wrt (<) (filter P xs)" and "i < i'" and "i' < length xs" and "P (xs ! i)" and "P (xs ! i')"
  shows "(xs ! i :: nat) < xs ! i'"
proof -
  have "xs ! i \<in> set (take i' xs)" using nth_mem [of i "take i' xs"] assms(2,3) by simp
  moreover have "xs ! i' \<in> set (drop i' xs)" using nth_mem [of 0 "drop i' xs"] assms(3) by simp
  moreover have "sorted_wrt (<) (filter P (take i' xs) @ filter P (drop i' xs))"
    using assms(1) unfolding filter_append [symmetric] append_take_drop_id .
  ultimately show ?thesis using assms(4,5) by (simp add: sorted_wrt_append)
qed

lemma holm_order_precedes:
  assumes "i < i'" and "i' < length cs"
  shows "precedes cs (holm_order cs ! i) (holm_order cs ! i')"
proof -
  let ?f = "\<lambda>i. c_PRaw (cs ! i)" and ?o = "holm_order cs"
  have len: "length ?o = length cs" by (simp add: holm_order_def)
  have le: "?f (?o ! i) \<le> ?f (?o ! i')"
    using sorted_nth_mono [OF holm_order_perm(3), of i i' cs] assms len by simp
  have "?o ! i < ?o ! i'" if "?f (?o ! i) = ?f (?o ! i')"
  proof (rule sorted_filter_nth [OF _ assms(1), of "\<lambda>x. ?f x = ?f (?o ! i')"])
    have "filter (\<lambda>x. ?f x = ?f (?o ! i')) ?o = filter (\<lambda>x. ?f x = ?f (?o ! i')) [0..<length cs]"
      unfolding holm_order_def by (rule sort_key_stable)
    then show "sorted_wrt (<) (filter (\<lambda>x. ?f x = ?f (?o ! i')) ?o)" by (simp add: sorted_wrt_filter)
  qed (use that assms(2) len in simp_all)
  with le show ?thesis by (auto simp: precedes_def)
qed

lemma holm_order_rank:
  assumes "i < length cs"
  shows "{j. j < length cs \<and> precedes cs j (holm_order cs ! i)} = (!) (holm_order cs) ` {..<i}"
    and "card {j. j < length cs \<and> precedes cs j (holm_order cs ! i)} = i"
proof -
  let ?o = "holm_order cs"
  have len: "length ?o = length cs" by (simp add: holm_order_def)
  have asym: "\<not> precedes cs k j" if "precedes cs j k" for j k using that by (auto simp: precedes_def)
  have irr: "\<not> precedes cs j j" for j by (auto simp: precedes_def)
  show eq: "{j. j < length cs \<and> precedes cs j (?o ! i)} = (!) ?o ` {..<i}"
  proof (intro set_eqI iffI)
    fix j assume j: "j \<in> {j. j < length cs \<and> precedes cs j (?o ! i)}"
    then have "j \<in> set ?o" by (simp add: holm_order_perm(2))
    then obtain t where t: "t < length cs" "j = ?o ! t" by (auto simp: in_set_conv_nth len)
    have "t < i" using j t asym irr holm_order_precedes [of i t cs] by (cases t i rule: linorder_cases) auto
    then show "j \<in> (!) ?o ` {..<i}" using t by simp
  next
    fix j assume "j \<in> (!) ?o ` {..<i}"
    then obtain t where t: "t < i" "j = ?o ! t" by auto
    moreover have "?o ! t \<in> set ?o" using t assms len by simp
    ultimately show "j \<in> {j. j < length cs \<and> precedes cs j (?o ! i)}"
      using holm_order_precedes [of t i cs] assms by (simp add: holm_order_perm(2))
  qed
  have "inj_on ((!) ?o) {..<i}" using inj_on_nth [OF holm_order_perm(1), of "{..<i}" cs] assms len by auto
  then show "card {j. j < length cs \<and> precedes cs j (?o ! i)} = i" unfolding eq by (simp add: card_image)
qed

text \<open>What the loop stores at each place of the raw order, every operation rounded.\<close>

definition capped_at :: "(rat \<Rightarrow> rat) \<Rightarrow> comparison list \<Rightarrow> nat \<Rightarrow> nat \<Rightarrow> rat" where
  "capped_at rnd cs k i = min 1 (rnd (c_PRaw (cs ! k) * rnd (of_nat (length cs - i))))"

lemma holm_loop_at:
  assumes "distinct xs" and "\<forall>k\<in>set xs. k < length results" and "t < length xs"
  shows "holm_loop rnd alpha cs i prev still xs results ! (xs ! t) =
     \<lparr>hr_Name = c_Name (cs ! (xs ! t)), hr_PRaw = c_PRaw (cs ! (xs ! t)),
      hr_PAdjusted = Max (insert prev ((\<lambda>j. capped_at rnd cs (xs ! j) (i + j)) ` {..t})),
      hr_Rejected = (still \<and> (\<forall>j\<le>t. c_PRaw (cs ! (xs ! j)) \<le> rnd (alpha / rnd (of_nat (length cs - (i + j)))))), hr_Rank = i + t + 1\<rparr>"
  using assms
proof (induction xs arbitrary: i prev still results t)
  case (Cons x xs)
  have adj: "adjusted rnd (c_PRaw (cs ! x)) (rnd (of_nat (length cs - i))) prev = max prev (capped_at rnd cs x i)"
    by (auto simp: adjusted_def capped_at_def Let_def)
  have below: "(\<forall>j\<le>Suc t. P j) \<longleftrightarrow> P 0 \<and> (\<forall>j\<le>t. P (Suc j))" for P t
    by (metis Suc_le_mono less_eq_nat.simps(1) not0_implies_Suc)
  show ?case
  proof (cases t)
    case 0
    then show ?thesis using Cons.prems(1,2) by (simp add: Let_def adj holm_loop_other not_less)
  next
    case (Suc t')
    let ?g = "\<lambda>j. capped_at rnd cs ((x # xs) ! j) (i + j)"
    have split: "insert prev (?g ` {..Suc t'}) = insert prev (insert (capped_at rnd cs x i) ((\<lambda>j. capped_at rnd cs (xs ! j) (Suc i + j)) ` {..t'}))"
      by (simp add: atMost_Suc_eq_insert_0 image_image)
    have max: "Max (insert (max a b) S) = Max (insert a (insert b S))" if "finite S" for a b :: rat and S
      using that by (cases "S = {}") (simp_all add: max.assoc)
    have results: "\<forall>k\<in>set xs. k < length (results[x := r])" for r using Cons.prems(2) by simp
    have len: "t' < length xs" using Cons.prems(3) Suc by simp
    have d: "distinct xs" using Cons.prems(1) by simp
    show ?thesis
      unfolding Suc split below holm_loop.simps Let_def adj nth_Cons_Suc Cons.IH [OF d results len]
      by (simp add: max not_less conj_assoc)
  qed
qed simp

lemma holm_at:
  fixes rnd :: "rat \<Rightarrow> rat" and alpha :: rat
  assumes "k < length cs"
  defines "R \<equiv> \<lambda>j. hr_Rank (holm rnd cs alpha ! j)"
  shows "R k = Suc (card {j. j < length cs \<and> precedes cs j k})"
    and "hr_Rejected (holm rnd cs alpha ! k) \<longleftrightarrow>
       (\<forall>j<length cs. R j \<le> R k \<longrightarrow> c_PRaw (cs ! j) \<le> rnd (alpha / rnd (of_nat (Suc (length cs) - R j))))"
    and "hr_PAdjusted (holm rnd cs alpha ! k) =
       Max (insert 0 {min 1 (rnd (c_PRaw (cs ! j) * rnd (of_nat (Suc (length cs) - R j)))) |j. j < length cs \<and> R j \<le> R k})"
proof -
  let ?o = "holm_order cs"
  have xs: "distinct ?o" "\<forall>k\<in>set ?o. k < length (replicate (length cs) zero_holm)" and len: "length ?o = length cs"
    using holm_order_perm [of cs] by (simp_all add: holm_order_def)
  have place: "\<exists>t<length cs. j = ?o ! t" if "j < length cs" for j
  proof -
    have "j \<in> set ?o" using that by (simp add: holm_order_perm(2))
    then show ?thesis by (auto simp: in_set_conv_nth len)
  qed
  note loop = holm_loop_at [OF xs, unfolded len, of _ rnd alpha cs 0 0 True, folded holm_def]
  have R: "R (?o ! t) = Suc t" if "t < length cs" for t unfolding R_def loop [OF that] by simp
  obtain i where i: "i < length cs" "k = ?o ! i" using place [OF assms(1)] by blast
  show "R k = Suc (card {j. j < length cs \<and> precedes cs j k})" unfolding i(2) R [OF i(1)] holm_order_rank(2) [OF i(1)] ..
  have upto: "{j. j < length cs \<and> R j \<le> R k} = (!) ?o ` {..i}"
  proof (intro set_eqI iffI)
    fix j assume j: "j \<in> {j. j < length cs \<and> R j \<le> R k}"
    then obtain t where "t < length cs" "j = ?o ! t" using place by blast
    with j R i show "j \<in> (!) ?o ` {..i}" by auto
  next
    fix j assume "j \<in> (!) ?o ` {..i}"
    then obtain t where t: "t \<le> i" "j = ?o ! t" by auto
    then have "t < length cs" using i(1) by simp
    moreover have "?o ! t \<in> set ?o" using \<open>t < length cs\<close> len by simp
    ultimately show "j \<in> {j. j < length cs \<and> R j \<le> R k}" using t R i holm_order_perm(2) [of cs] by auto
  qed
  have all: "(\<forall>j<length cs. R j \<le> R k \<longrightarrow> P j) \<longleftrightarrow> (\<forall>t\<le>i. P (?o ! t))" for P
  proof -
    have "(\<forall>j<length cs. R j \<le> R k \<longrightarrow> P j) \<longleftrightarrow> (\<forall>j\<in>{j. j < length cs \<and> R j \<le> R k}. P j)" by blast
    then show ?thesis unfolding upto by auto
  qed
  have Rt: "Suc (length cs) - R (?o ! t) = length cs - t" if "t \<le> i" for t using R [of t] that i(1) by simp
  show "hr_Rejected (holm rnd cs alpha ! k) \<longleftrightarrow>
       (\<forall>j<length cs. R j \<le> R k \<longrightarrow> c_PRaw (cs ! j) \<le> rnd (alpha / rnd (of_nat (Suc (length cs) - R j))))"
    unfolding all unfolding i(2) loop [OF i(1)] by (simp add: Rt)
  have "{min 1 (rnd (c_PRaw (cs ! j) * rnd (of_nat (Suc (length cs) - R j)))) |j. j < length cs \<and> R j \<le> R k}
      = (\<lambda>j. min 1 (rnd (c_PRaw (cs ! j) * rnd (of_nat (Suc (length cs) - R j))))) ` {j. j < length cs \<and> R j \<le> R k}" by blast
  also have "\<dots> = (\<lambda>t. capped_at rnd cs (?o ! t) t) ` {..i}"
    unfolding upto image_image by (rule image_cong [OF refl]) (simp add: capped_at_def Rt)
  finally have adj: "{min 1 (rnd (c_PRaw (cs ! j) * rnd (of_nat (Suc (length cs) - R j)))) |j. j < length cs \<and> R j \<le> R k}
      = (\<lambda>t. capped_at rnd cs (?o ! t) t) ` {..i}" .
  show "hr_PAdjusted (holm rnd cs alpha ! k) =
       Max (insert 0 {min 1 (rnd (c_PRaw (cs ! j) * rnd (of_nat (Suc (length cs) - R j)))) |j. j < length cs \<and> R j \<le> R k})"
    unfolding adj unfolding i(2) loop [OF i(1)] by simp
qed

lemma holm_first:
  assumes "k < length cs" and "\<forall>j<length cs. j \<noteq> k \<longrightarrow> precedes cs k j"
  shows "hr_Rejected (holm rnd cs alpha ! k) \<longleftrightarrow> c_PRaw (cs ! k) \<le> rnd (alpha / rnd (of_nat (length cs)))"
    and "hr_PAdjusted (holm rnd cs alpha ! k) = max 0 (min 1 (rnd (c_PRaw (cs ! k) * rnd (of_nat (length cs)))))"
proof -
  let ?R = "\<lambda>j. hr_Rank (holm rnd cs alpha ! j)"
  have "{j. j < length cs \<and> precedes cs j k} = {}" using assms(2) by (fastforce simp: precedes_def)
  then have k: "?R k = 1" using holm_at(1) [OF assms(1), of rnd alpha] by simp
  have "k \<in> {i. i < length cs \<and> precedes cs i j}" if "j < length cs" "j \<noteq> k" for j using that assms by simp
  then have "card {i. i < length cs \<and> precedes cs i j} \<noteq> 0" if "j < length cs" "j \<noteq> k" for j using that by (auto simp: card_eq_0_iff)
  note later = this
  have above: "\<not> ?R j \<le> ?R k" if "j < length cs" "j \<noteq> k" for j
  proof -
    have "?R j = Suc (card {i. i < length cs \<and> precedes cs i j})" by (rule holm_at(1) [OF that(1)])
    with later [OF that] k show ?thesis by linarith
  qed
  have only: "j < length cs \<and> ?R j \<le> ?R k \<longleftrightarrow> j = k" for j
  proof (cases "j = k")
    case True
    show ?thesis unfolding True using assms(1) by (simp only: order_refl simp_thms)
  next
    case False
    from above [OF _ this] show ?thesis by (simp only: False) iprover
  qed
  have all: "(\<forall>j<length cs. ?R j \<le> ?R k \<longrightarrow> P j) \<longleftrightarrow> P k" for P
    using only by iprover
  show "hr_Rejected (holm rnd cs alpha ! k) \<longleftrightarrow> c_PRaw (cs ! k) \<le> rnd (alpha / rnd (of_nat (length cs)))"
    unfolding holm_at(2) [OF assms(1), of rnd alpha] all unfolding k diff_Suc_Suc One_nat_def minus_nat.diff_0 ..
  have "{min 1 (rnd (c_PRaw (cs ! j) * rnd (of_nat (Suc (length cs) - ?R j)))) |j. j < length cs \<and> ?R j \<le> ?R k}
      = {min 1 (rnd (c_PRaw (cs ! k) * rnd (of_nat (length cs))))}" unfolding only using k by auto
  then show "hr_PAdjusted (holm rnd cs alpha ! k) = max 0 (min 1 (rnd (c_PRaw (cs ! k) * rnd (of_nat (length cs)))))"
    unfolding holm_at(3) [OF assms(1), of rnd alpha] by simp
qed


text \<open>In float64 the two reports of a comparison can disagree: of eleven comparisons at the level 0.05, the first is rejected
  although its adjusted value exceeds the level.\<close>

definition disagreeing_family :: "comparison list" where
  "disagreeing_family = \<lparr>c_Name = ''first'', c_PRaw = fl (4545454545454546 / 10 ^ 18)\<rparr> # replicate 10 \<lparr>c_Name = ''other'', c_PRaw = 1\<rparr>"

theorem holm_float64_disagrees:
  "hr_Rejected (holm fl disagreeing_family (fl (5 / 100)) ! 0) \<and> fl (5 / 100) < hr_PAdjusted (holm fl disagreeing_family (fl (5 / 100)) ! 0)"
proof -
  have v: "fl (4545454545454546 / 10 ^ 18) \<le> fl (fl (5 / 100) / fl 11)" "fl (5 / 100) < fl (fl (4545454545454546 / 10 ^ 18) * fl 11)"
    "fl (5 / 100) < 1" "fl (4545454545454546 / 10 ^ 18) < 1" by code_simp+
  have len: "length disagreeing_family = 11" by (simp add: disagreeing_family_def)
  have p: "c_PRaw (disagreeing_family ! 0) = fl (4545454545454546 / 10 ^ 18)" by (simp add: disagreeing_family_def)
  have "c_PRaw (disagreeing_family ! j) = 1" if "j < length disagreeing_family" "j \<noteq> 0" for j
    using that by (cases j) (simp_all add: disagreeing_family_def)
  then have "\<forall>j<length disagreeing_family. j \<noteq> 0 \<longrightarrow> precedes disagreeing_family 0 j"
    unfolding precedes_def p using v(4) by simp
  moreover have "0 < length disagreeing_family" by (simp add: len)
  ultimately have "hr_Rejected (holm fl disagreeing_family (fl (5 / 100)) ! 0) \<longleftrightarrow> fl (4545454545454546 / 10 ^ 18) \<le> fl (fl (5 / 100) / fl 11)"
    and "hr_PAdjusted (holm fl disagreeing_family (fl (5 / 100)) ! 0) = max 0 (min 1 (fl (fl (4545454545454546 / 10 ^ 18) * fl 11)))"
    using holm_first [of 0 disagreeing_family fl "fl (5 / 100)"] unfolding p len of_nat_numeral by blast+
  with v show ?thesis by (simp only: less_max_iff_disj min_less_iff_conj) simp
qed



section \<open>The summary\<close>

lemma fl_double:
  assumes "fl a = a"
  shows "fl (2 * a) = 2 * a"
proof (cases "a = 0")
  case False
  have a: "a = of_int (rhe (a / 2 powi quantum a)) * 2 powi quantum a" using assms False by (simp add: fl_def)
  then have "2 * a = of_int (rhe (a / 2 powi quantum a)) * 2 powi (quantum a + 1)" by (simp add: power_int_add)
  moreover have "- 1074 \<le> quantum a + 1" by (simp add: quantum_def)
  ultimately show ?thesis using fl_exact [OF rhe_quantum_bound [OF False]] by metis
qed simp

lemma midpoint_between:
  assumes "fl a = a" and "fl b = b" and "a \<le> b"
  shows "a \<le> fl (fl (a + b) / 2)" and "fl (fl (a + b) / 2) \<le> b"
proof -
  have "2 * a \<le> fl (a + b)" using fl_mono [of "2 * a" "a + b"] fl_double [OF assms(1)] assms(3) by simp
  then show "a \<le> fl (fl (a + b) / 2)" using f64.rnd_ge_self [OF assms(1)] by simp
  have "fl (a + b) \<le> 2 * b" using fl_mono [of "a + b" "2 * b"] fl_double [OF assms(2)] assms(3) by simp
  then show "fl (fl (a + b) / 2) \<le> b" using f64.rnd_le_self [OF assms(2)] by simp
qed

text \<open>The median of a sample of floats: at most half of the sample lies on either side.\<close>

lemma median_spec:
  assumes "values \<noteq> []" and "\<forall>v\<in>set values. fl v = v"
  obtains m lo hi where "median fl (sort values) = Some m" and "lo \<in> set values" and "hi \<in> set values" and "lo \<le> m" and "m \<le> hi"
    and "2 * length (filter (\<lambda>v. v < hi) values) \<le> length values" and "2 * length (filter (\<lambda>v. lo < v) values) \<le> length values"
proof (cases "odd (length values)")
  case True
  let ?k = "length values div 2"
  have k: "?k < length values" using assms(1) by simp
  have "int (length values) mod 2 = 1" using True by presburger
  moreover have "int (length values) div 2 = int ?k" by (simp add: zdiv_int)
  ultimately have "median fl (sort values) = Some (sort values ! ?k)" using k by (simp add: median_def Let_def)
  with sort_nth_ranks [OF k] that [of "sort values ! ?k" "sort values ! ?k" "sort values ! ?k"] show thesis by auto
next
  case False
  let ?k = "length values div 2"
  let ?a = "sort values ! (?k - 1)" and ?b = "sort values ! ?k"
  have n: "length values = 2 * ?k" using False by simp
  have "0 < length values" using assms(1) by simp
  with n have k: "?k < length values" "?k - 1 < length values" "0 < ?k" by linarith+
  have idx: "int (length values) mod 2 = 0" "int (length values) div 2 = int ?k" "int (length values) div 2 - 1 = int (?k - 1)"
    using False k(3) by (simp_all add: zdiv_int)
  have "go_nth (sort values) (int ?k) = Some ?b" "go_nth (sort values) (int (?k - 1)) = Some ?a" using k(1,2) by (simp_all only: go_nth_def) simp_all
  then have med: "median fl (sort values) = Some (fl (fl (?a + ?b) / 2))" unfolding median_def Let_def length_sort idx(3) unfolding idx by simp
  have mem: "?a \<in> set values" "?b \<in> set values" using sort_nth_ranks(1) k(1,2) by blast+
  have "?a \<le> ?b" using sorted_nth_mono [of "sort values" "?k - 1" ?k] k by simp
  then have "?a \<le> fl (fl (?a + ?b) / 2)" "fl (fl (?a + ?b) / 2) \<le> ?b" using midpoint_between assms(2) mem by blast+
  moreover have "2 * length (filter (\<lambda>v. v < ?b) values) \<le> length values" using sort_nth_ranks(2) [OF k(1)] n by linarith
  moreover have "2 * length (filter (\<lambda>v. ?a < v) values) \<le> length values" using sort_nth_ranks(3) [OF k(2)] n k(3) by linarith
  ultimately show thesis using that med mem by blast
qed

lemma tMultiplier_nonneg: "0 \<le> tMultiplier fl df"
  by (auto simp: tMultiplier_def studentT95_def studentTDF4_def intro!: f64.rnd_nonneg split: option.split)

lemma length_filter_mono: "(\<And>x. P x \<Longrightarrow> Q x) \<Longrightarrow> length (filter P xs) \<le> length (filter Q xs)"
  by (induction xs) auto

text \<open>In float64 the summary of a non-empty sample exists and is coherent: it keeps the values, its minimum and maximum
  bound them and the median, at most half of the values lie on either side of the median, the interval contains the mean,
  its multiplier is the one of the degrees of freedom actually left, the pinned case is exactly five values, and a
  coefficient of variation is claimed exactly for at least two values of non-zero mean.\<close>

theorem summary_is_coherent:
  assumes "values \<noteq> []" and "\<forall>v\<in>set values. fl v = v" and "\<forall>x. 0 \<le> sqrt64 x"
  shows "\<exists>s. Summarize fl sqrt64 values heavy = Some s \<and> su_Values s = values \<and> su_N s = length values
     \<and> (\<forall>v\<in>set values. su_Min s \<le> v \<and> v \<le> su_Max s) \<and> su_Min s \<in> set values \<and> su_Max s \<in> set values
     \<and> su_Min s \<le> su_Median s \<and> su_Median s \<le> su_Max s
     \<and> 2 * length (filter (\<lambda>v. v < su_Median s) values) \<le> length values \<and> 2 * length (filter (\<lambda>v. su_Median s < v) values) \<le> length values
     \<and> su_TIntervalLo s \<le> su_Mean s \<and> su_Mean s \<le> su_TIntervalHi s
     \<and> (2 \<le> length values \<longrightarrow> su_DF s = int (length values) - 1 \<and> su_TMultiplier s = tMultiplier fl (su_DF s))
     \<and> (su_AtPinnedDF s \<longleftrightarrow> length values = 5) \<and> (su_CoVDefined s \<longleftrightarrow> su_Mean s \<noteq> 0 \<and> 2 \<le> length values)"
proof -
  obtain med lo hi where med: "median fl (sort values) = Some med" and b: "lo \<in> set values" "hi \<in> set values" "lo \<le> med" "med \<le> hi"
    and half: "2 * length (filter (\<lambda>v. v < hi) values) \<le> length values" "2 * length (filter (\<lambda>v. lo < v) values) \<le> length values"
    using median_spec [OF assms(1,2)] by blast
  let ?mn = "sort values ! 0" and ?mx = "sort values ! (length values - 1)"
  have n: "0 < length values" using assms(1) by simp
  have mn: "?mn \<in> set values" "\<forall>v\<in>set values. ?mn \<le> v" using sort_nth_ranks(1,2) [OF n] by (auto simp: filter_empty_conv not_less)
  have l: "length values - 1 < length values" using n by simp
  have "length (filter (\<lambda>v. ?mx < v) values) = 0" using sort_nth_ranks(3) [OF l] n by linarith
  then have mx: "?mx \<in> set values" "\<forall>v\<in>set values. v \<le> ?mx" using sort_nth_ranks(1) [OF l] by (auto simp: filter_empty_conv not_less)
  have idx: "go_nth (sort values) 0 = Some ?mn" "go_nth (sort values) (int (length values) - 1) = Some ?mx"
    using n by (auto simp: go_nth_def nat_diff_distrib')
  define mean where "mean = fl (fsum fl values / fl (of_nat (length values)))"
  define sem where "sem = fl (sample_sd fl sqrt64 values mean / sqrt64 (fl (of_nat (length values))))"
  have "0 \<le> sem" unfolding sem_def sample_sd_def using assms(3) by (intro f64.rnd_nonneg divide_nonneg_nonneg) auto
  then have half_nn: "0 \<le> fl (tMultiplier fl df * sem)" for df using tMultiplier_nonneg by (intro f64.rnd_nonneg mult_nonneg_nonneg)
  have fm: "fl mean = mean" by (simp add: mean_def)
  have int: "fl (mean - d) \<le> mean" "mean \<le> fl (mean + d)" if "0 \<le> d" for d
    using that f64.rnd_le_self [OF fm] f64.rnd_ge_self [OF fm] by simp_all
  have "length (filter (\<lambda>v. v < med) values) \<le> length (filter (\<lambda>v. v < hi) values)"
    and "length (filter (\<lambda>v. med < v) values) \<le> length (filter (\<lambda>v. lo < v) values)"
    using b(3,4) by (intro length_filter_mono; linarith)+
  then have ranks: "2 * length (filter (\<lambda>v. v < med) values) \<le> length values" "2 * length (filter (\<lambda>v. med < v) values) \<le> length values"
    using half by linarith+
  have "?mn \<le> med" "med \<le> ?mx" using mn(2) mx(2) b by (meson order_trans)+
  with n mn mx ranks int half_nn show ?thesis
    unfolding Summarize_def Let_def idx med sem_def [symmetric] mean_def [symmetric] by (auto simp: sem_def mean_def)
qed

theorem summary_is_coherent_witness:
  "\<exists>s. Summarize fl (\<lambda>x. 1) [10, 12, 14, 16, 18] False = Some s \<and> su_AtPinnedDF s \<and> su_TMultiplier s = tMultiplier fl 4"
proof -
  have "\<forall>v\<in>set [10, 12, 14, 16, 18]. fl v = v" by code_simp
  from summary_is_coherent [OF _ this, of "\<lambda>x. 1" False] show ?thesis by auto
qed

end
