(* ===== verification/Thresholds.thy ===== *)
theory Thresholds
  imports Collector Ladder "HOL-Library.List_Lexorder" "HOL-Library.Char_ord" "HOL-Library.Word"
begin

text \<open>
  The threshold statement of \<^verbatim>\<open>internal/collect/collect.go\<close> (\<open>AnalyzeThresholds\<close>, \<open>stddevMs\<close>, \<open>modeMs\<close>,
  \<open>sdDistance\<close>) and the receive-path report of \<^verbatim>\<open>internal/collect/receivepath.go\<close>. The distances are keyed by
  their threshold in milliseconds. \<open>None\<close> is an index out of range.
\<close>

section \<open>Definitions\<close>

definition ms_of :: "(rat \<Rightarrow> rat) \<Rightarrow> int \<Rightarrow> rat" where
  "ms_of rnd us = rnd (rnd (of_int us) / 1000)"

definition sum64 :: "(rat \<Rightarrow> rat) \<Rightarrow> rat list \<Rightarrow> rat" where
  "sum64 rnd xs = foldl (\<lambda>s x. rnd (s + x)) 0 xs"

definition stddevMs :: "(rat \<Rightarrow> rat) \<Rightarrow> (rat \<Rightarrow> rat) \<Rightarrow> int list \<Rightarrow> rat" where
  "stddevMs rnd sqrt64 raw =
     (let n = length raw
      in if n < 2 then 0
         else let mean = rnd (sum64 rnd (map (ms_of rnd) raw) / rnd (of_nat n));
                  ss = sum64 rnd (map (\<lambda>v. let d = rnd (ms_of rnd v - mean) in rnd (d * d)) raw)
              in sqrt64 (rnd (ss / rnd (of_nat (n - 1)))))"

text \<open>The densest bin: the one whose count first exceeds every count before.\<close>

fun mode_loop :: "int list \<Rightarrow> int list \<Rightarrow> int \<Rightarrow> int \<Rightarrow> int" where
  "mode_loop seen [] best bestCount = best"
| "mode_loop seen (b # bs) best bestCount =
     (let c = int (count_list seen b) + 1
      in if bestCount < c then mode_loop (b # seen) bs b c else mode_loop (b # seen) bs best bestCount)"

definition bin_width :: "(rat \<Rightarrow> rat) \<Rightarrow> int \<Rightarrow> rat" where
  "bin_width rnd medianUs = (let w = rnd (ms_of rnd medianUs / 100) in if w < 1 then 1 else w)"

definition mode_bins :: "(rat \<Rightarrow> rat) \<Rightarrow> rat \<Rightarrow> int list \<Rightarrow> int list" where
  "mode_bins rnd binMs raw = map (\<lambda>v. trunc64 (rnd (ms_of rnd v / binMs))) raw"

definition modeMs :: "(rat \<Rightarrow> rat) \<Rightarrow> int list \<Rightarrow> rat option" where
  "modeMs rnd raw =
     (case go_nth (sort raw) (int (length raw) div 2) of
        None \<Rightarrow> None
      | Some med \<Rightarrow>
          let binMs = bin_width rnd med; best = mode_loop [] (mode_bins rnd binMs raw) 0 (- 1)
          in Some (rnd (rnd (rnd (of_int best) + 1 / 2) * binMs)))"

datatype sd_distance = SDFinite rat | SDPosInf | SDNegInf

text \<open>The difference of two equal floats is positive zero.\<close>

definition sdDistance :: "(rat \<Rightarrow> rat) \<Rightarrow> rat \<Rightarrow> rat \<Rightarrow> rat \<Rightarrow> sd_distance" where
  "sdDistance rnd modalMs thresholdMs sdMs =
     (let d = rnd (modalMs - thresholdMs)
      in if sdMs = 0 then (if 0 \<le> d then SDPosInf else SDNegInf) else SDFinite (rnd (d / sdMs)))"

record threshold_analysis =
  ta_BaselineTTFTSDMs :: rat
  ta_BaselineE2ESDMs :: rat
  ta_ModalFaultTTFTMs :: rat
  ta_ModalFaultE2EMs :: rat
  ta_TTFTThresholdSDs :: "(int \<times> sd_distance) list"
  ta_E2EThresholdSDs :: "(int \<times> sd_distance) list"
  ta_Valid :: bool
  ta_Note :: string

definition AnalyzeThresholds :: "(rat \<Rightarrow> rat) \<Rightarrow> (rat \<Rightarrow> rat) \<Rightarrow> collect_config \<Rightarrow> collect_stats \<Rightarrow> collect_stats
    \<Rightarrow> threshold_analysis option" where
  "AnalyzeThresholds rnd sqrt64 cfg baseline fault =
     (if length (st_RawTTFTUs baseline) < 2 \<or> st_RawTTFTUs fault = []
      then Some \<lparr>ta_BaselineTTFTSDMs = 0, ta_BaselineE2ESDMs = 0, ta_ModalFaultTTFTMs = 0, ta_ModalFaultE2EMs = 0,
             ta_TTFTThresholdSDs = [], ta_E2EThresholdSDs = [], ta_Valid = False,
             ta_Note = ''insufficient completed samples in baseline or fault window''\<rparr>
      else case (modeMs rnd (st_RawTTFTUs fault), modeMs rnd (st_RawE2EUs fault)) of
        (Some mt, Some me) \<Rightarrow>
          let st = stddevMs rnd sqrt64 (st_RawTTFTUs baseline); se = stddevMs rnd sqrt64 (st_RawE2EUs baseline)
          in Some \<lparr>ta_BaselineTTFTSDMs = st, ta_BaselineE2ESDMs = se, ta_ModalFaultTTFTMs = mt, ta_ModalFaultE2EMs = me,
               ta_TTFTThresholdSDs = map (\<lambda>t. (t, sdDistance rnd mt (rnd (of_int t)) st)) (slo_SweepTTFTMs (cc_SLO cfg)),
               ta_E2EThresholdSDs = map (\<lambda>t. (t, sdDistance rnd me (rnd (of_int t)) se)) (slo_SweepE2EMs (cc_SLO cfg)),
               ta_Valid = True, ta_Note = []\<rparr>
      | _ \<Rightarrow> None)"

section \<open>The receive path\<close>

text \<open>One server family over a window: \<^verbatim>\<open>serverstats.Reduction\<close>.\<close>

type_synonym uint64 = "64 word"

record reduction =
  red_Type :: string
  red_Samples :: int
  red_Mean :: rat
  red_Increase :: rat
  red_Count :: uint64
  red_Sum :: rat
  red_Buckets :: "(rat \<times> uint64) list"
  red_Reset :: bool

type_synonym server_side = "(string \<times> (string \<times> reduction) list) list"

record canary_summary =
  cn_Streams :: int
  cn_Completed :: int
  cn_TTFTDevP50Us :: int
  cn_TTFTDevMaxUs :: int
  cn_ITLDevP50Us :: int
  cn_ITLDevP99Us :: int
  cn_ITLDevMaxUs :: int
  cn_EventLagP99Us :: int
  cn_EventLagMaxUs :: int

record receive_path =
  rp_ClientTTFTMeanMs :: rat
  rp_ClientTTFTCount :: nat
  rp_ServerTTFTFamily :: string
  rp_ServerTTFTMeanMs :: rat
  rp_ServerTTFTCount :: uint64
  rp_DivergenceMs :: "rat option"
  rp_Canary :: "canary_summary option"
  rp_CanaryError :: string
  rp_ServerReset :: "string list"

definition sortedReplicas :: "server_side \<Rightarrow> string list" where
  "sortedReplicas server = sort (map fst server)"

text \<open>The histograms of the family over the replicas in name order, with their replicas.\<close>

definition family_hists :: "server_side \<Rightarrow> string \<Rightarrow> (string \<times> reduction) list" where
  "family_hists server fam =
     concat (map (\<lambda>rep. case map_of server rep of
         None \<Rightarrow> []
       | Some fams \<Rightarrow> (case map_of fams fam of
           Some r \<Rightarrow> if red_Type r = ''histogram'' then [(rep, r)] else []
         | None \<Rightarrow> [])) (sortedReplicas server))"

definition ReceivePathFor :: "(rat \<Rightarrow> rat) \<Rightarrow> collect_stats \<Rightarrow> server_side \<Rightarrow> string \<Rightarrow> canary_summary option \<Rightarrow> receive_path" where
  "ReceivePathFor rnd st server ttftFamily canary =
     (let n = length (st_RawTTFTUs st);
          mean = (if 0 < n then rnd (rnd (rnd (of_int (sum_list (st_RawTTFTUs st))) / rnd (of_nat n)) / 1000) else 0);
          rp = \<lparr>rp_ClientTTFTMeanMs = mean, rp_ClientTTFTCount = n, rp_ServerTTFTFamily = [], rp_ServerTTFTMeanMs = 0,
                rp_ServerTTFTCount = 0, rp_DivergenceMs = None, rp_Canary = canary, rp_CanaryError = [], rp_ServerReset = []\<rparr>
      in if ttftFamily = [] then rp
         else let hs = family_hists server ttftFamily;
                  cnt = sum_list (map (red_Count \<circ> snd) hs);
                  tot = sum64 rnd (map (red_Sum \<circ> snd) hs);
                  rp1 = rp\<lparr>rp_ServerTTFTFamily := ttftFamily, rp_ServerReset := map fst (filter (red_Reset \<circ> snd) hs)\<rparr>
              in if 0 < cnt
                 then let sm = rnd (rnd (tot / rnd (of_int (uint cnt))) * 1000)
                      in rp1\<lparr>rp_ServerTTFTCount := cnt, rp_ServerTTFTMeanMs := sm,
                             rp_DivergenceMs := (if 0 < n then Some (rnd (mean - sm)) else None)\<rparr>
                 else rp1)"

section \<open>The densest bin\<close>

lemma mode_loop_densest:
  assumes "int (count_list seen best) = bestCount" and "\<forall>b. int (count_list seen b) \<le> bestCount" and "best \<in> set seen"
  shows "mode_loop seen bs best bestCount \<in> set (seen @ bs)
     \<and> (\<forall>b. count_list (seen @ bs) b \<le> count_list (seen @ bs) (mode_loop seen bs best bestCount))"
  using assms
proof (induction bs arbitrary: seen best bestCount)
  case (Cons x xs)
  have shift: "set (seen @ x # xs) = set ((x # seen) @ xs)" "count_list (seen @ x # xs) b = count_list ((x # seen) @ xs) b" for b
    by simp_all
  have old: "int (count_list (x # seen) b) \<le> (if x = b then int (count_list seen x) + 1 else bestCount)" for b
    using Cons.prems(2) by simp
  show ?case
  proof (cases "bestCount < int (count_list seen x) + 1")
    case True
    have up: "\<forall>b. int (count_list (x # seen) b) \<le> int (count_list seen x) + 1"
    proof
      fix b
      show "int (count_list (x # seen) b) \<le> int (count_list seen x) + 1"
        using old [of b] spec [OF Cons.prems(2), of b] True by (simp split: if_splits)
    qed
    from Cons.IH [of "x # seen" x "int (count_list seen x) + 1", OF _ up] True show ?thesis unfolding shift by simp
  next
    case False
    have ne: "best \<noteq> x" using False Cons.prems(1) by auto
    have "\<forall>b. int (count_list (x # seen) b) \<le> bestCount"
    proof
      fix b
      show "int (count_list (x # seen) b) \<le> bestCount" using old [of b] False by (simp split: if_splits)
    qed
    from Cons.IH [of "x # seen" best bestCount, OF _ this] ne Cons.prems(1,3) False show ?thesis unfolding shift by simp
  qed
qed auto

lemma mode_loop_start: "bs \<noteq> [] \<Longrightarrow> mode_loop [] bs 0 (- 1) \<in> set bs
     \<and> (\<forall>b. count_list bs b \<le> count_list bs (mode_loop [] bs 0 (- 1)))"
  using mode_loop_densest [of "[hd bs]" "hd bs" 1 "tl bs"] by (cases bs) simp_all

lemma modeMs_total:
  assumes "raw \<noteq> []"
  shows "\<exists>m. modeMs rnd raw = Some m"
proof -
  have "length raw div 2 < length raw" using assms by simp
  moreover have "int (length raw) div 2 = int (length raw div 2)" by (simp add: zdiv_int)
  ultimately show ?thesis by (simp add: modeMs_def Let_def)
qed

lemma AnalyzeThresholds_total:
  assumes "length (st_RawE2EUs fault) = length (st_RawTTFTUs fault)"
  shows "\<exists>ta. AnalyzeThresholds rnd sqrt64 cfg baseline fault = Some ta"
proof (cases "length (st_RawTTFTUs baseline) < 2 \<or> st_RawTTFTUs fault = []")
  case False
  then have "st_RawTTFTUs fault \<noteq> []" "st_RawE2EUs fault \<noteq> []" using assms by auto
  then obtain mt me where "modeMs rnd (st_RawTTFTUs fault) = Some mt" "modeMs rnd (st_RawE2EUs fault) = Some me"
    using modeMs_total by metis
  with False show ?thesis by (simp add: AnalyzeThresholds_def Let_def)
qed (simp add: AnalyzeThresholds_def)

text \<open>The modal latency of a non-empty sample is the centre, in float64, of the densest of its bins: no
  bin of width 1% of the median (at least a millisecond) holds more of the sample.\<close>

theorem modal_latency_is_densest_bin:
  assumes "raw \<noteq> []"
  shows "\<exists>med best. med \<in> set raw \<and> best \<in> set (mode_bins fl (bin_width fl med) raw)
     \<and> 2 * length (filter (\<lambda>v. v < med) raw) \<le> length raw \<and> 2 * length (filter (\<lambda>v. med < v) raw) \<le> length raw
     \<and> (\<forall>b. count_list (mode_bins fl (bin_width fl med) raw) b \<le> count_list (mode_bins fl (bin_width fl med) raw) best)
     \<and> modeMs fl raw = Some (fl (fl (fl (of_int best) + 1 / 2) * bin_width fl med))"
proof -
  let ?k = "length raw div 2"
  let ?med = "sort raw ! ?k"
  let ?bins = "mode_bins fl (bin_width fl ?med) raw"
  have k: "?k < length raw" using assms by simp
  have "int (length raw) div 2 = int ?k" by (simp add: zdiv_int)
  with k have nth: "go_nth (sort raw) (int (length raw) div 2) = Some ?med" by (simp only: go_nth_def) simp
  have "?bins \<noteq> []" using assms by (simp add: mode_bins_def)
  from mode_loop_start [OF this] sort_nth_ranks [OF k] nth show ?thesis
    by (intro exI [of _ ?med] exI [of _ "mode_loop [] ?bins 0 (- 1)"]) (auto simp: modeMs_def Let_def)
qed

theorem modal_latency_is_densest_bin_witness:
  "\<exists>m. modeMs fl [12000, 52000, 52400] = Some m"
  using modal_latency_is_densest_bin [of "[12000, 52000, 52400]"] by auto

end
