(* ===== verification/RunAnalysis.thy ===== *)
theory RunAnalysis
  imports DetectRun Thresholds "HOL-Library.AList"
begin

text \<open>
  The analysis of one run in \<^verbatim>\<open>internal/run/run.go\<close> (\<open>analyze\<close>, \<open>shareGate\<close>, \<open>survivorOf\<close>, \<open>validity\<close>,
  \<open>failed\<close>, \<open>recordProbe\<close>, \<open>CheckConfig\<close>, \<open>attach\<close>) and its replay from a published record in
  \<^verbatim>\<open>internal/run/replay.go\<close>. It composes the collector, the recovery detector, the in-flight accounting, the
  threshold statement and the decomposition. Instants are nanoseconds on one clock. A map keyed by window or replica
  name is an association list in insertion order. The reasons of an invalid run are constructors; their text is not
  modelled. The model identifiers, tripwires and interruption of a result are carried by the code and not read here.
\<close>

section \<open>Configuration, inputs and artifacts\<close>

record run_config =
  rc_Profile :: string
  rc_Pilot :: bool
  rc_Body :: string
  rc_Collect :: collect_config
  rc_Detector :: detector_config
  rc_Phases :: phases
  rc_Variant :: string
  rc_TInjectOffsetS :: rat
  rc_PartitionDurationS :: int
  rc_InjectionToleranceMs :: int
  rc_EndpointStalenessMinS :: int
  rc_Hosted :: bool
  rc_Replicas :: int
  rc_TTFTHistogram :: string
  rc_ShareMinPct :: int
  rc_ShareMaxPct :: int
  rc_DataplaneMode :: string
  rc_MockSchedule :: "nat option"

abbreviation VariantCleanDelete :: string where "VariantCleanDelete \<equiv> ''clean_delete''"
abbreviation VariantBlackHole :: string where "VariantBlackHole \<equiv> ''black_hole''"
abbreviation VariantMock :: string where "VariantMock \<equiv> ''mock''"
abbreviation VariantNone :: string where "VariantNone \<equiv> ''none''"
abbreviation VariantProcessKill :: string where "VariantProcessKill \<equiv> ''process_kill''"

definition BalancesPerRequest :: "string \<Rightarrow> bool" where
  "BalancesPerRequest mode \<longleftrightarrow> mode = ''l7-envoy-cilium-ingress'' \<or> mode = ''l7-gateway-api''"

record lg_result =
  lr_EpochWall :: int
  lr_Requests :: "request list"
  lr_Gates :: gate_report
  lr_WarmupEndNs :: int
  lr_BaselineEndNs :: int
  lr_FaultEndNs :: int
  lr_RunEndNs :: int
  lr_TInjectNs :: int

text \<open>\<open>NewResult\<close> leaves the epoch, the requests and the gates to its caller.\<close>

definition NewResult :: "(rat \<Rightarrow> rat) \<Rightarrow> run_config \<Rightarrow> int \<Rightarrow> request list \<Rightarrow> gate_report \<Rightarrow> lg_result" where
  "NewResult rnd cfg epoch rs gates =
     (let p = rc_Phases cfg; w = ph_WarmupS p; b = rnd (w + ph_BaselineS p); f = rnd (b + ph_FaultWindowTimeoutS p)
      in \<lparr>lr_EpochWall = epoch, lr_Requests = rs, lr_Gates = gates, lr_WarmupEndNs = secondsNs rnd w,
          lr_BaselineEndNs = secondsNs rnd b, lr_FaultEndNs = secondsNs rnd f,
          lr_RunEndNs = secondsNs rnd (rnd (f + ph_CooldownS p)),
          lr_TInjectNs = secondsNs rnd (rnd (w + rc_TInjectOffsetS cfg))\<rparr>)"

record timestamps =
  ts_PlannedFireAt :: int
  ts_ObservedFire :: "int option"
  ts_ObservedExpiry :: "int option"

text \<open>Observed minus planned in milliseconds, \<open>None\<close> when the fault never fired.\<close>

definition FireErrorMs :: "(rat \<Rightarrow> rat) \<Rightarrow> timestamps \<Rightarrow> rat option" where
  "FireErrorMs rnd ts = map_option (\<lambda>t. rnd (rnd (of_int (go_div (t - ts_PlannedFireAt ts) 1000)) / 1000)) (ts_ObservedFire ts)"

record share_gate =
  sh_Applicable :: bool
  sh_Shares :: "(string \<times> rat) list"
  sh_BandEnforced :: bool
  sh_VictimShareAtInject :: rat
  sh_Pass :: bool

text \<open>\<open>AnalysisPanic\<close> stands for a run-time panic of the analysis.\<close>

datatype run_error = CollectFailed string collect_error | AnalysisPanic

datatype reason =
    Unattested | NeverFired | NoSource string | ClientGateFailed bool | ShareGateFailed | FaultNeverFired
  | TimingOff rat int | RunFailed run_error

record artifacts =
  a_Config :: run_config
  a_Loadgen :: lg_result
  a_Orchestration :: "timestamps option"
  a_ActualFireNs :: int
  a_VictimReplica :: string
  a_Windows :: "(string \<times> collect_stats) list"
  a_InFlight :: in_flight
  a_Detector :: "detect_result option"
  a_Decomposition :: "segment list"
  a_ShareGate :: share_gate
  a_ThresholdAnalysis :: "threshold_analysis option"
  a_ReceivePath :: "(string \<times> receive_path) list"
  a_ScheduleFired :: "int option"
  a_RunValid :: bool
  a_InvalidReasons :: "reason list"

definition no_share :: share_gate where
  "no_share = \<lparr>sh_Applicable = False, sh_Shares = [], sh_BandEnforced = False, sh_VictimShareAtInject = 0, sh_Pass = False\<rparr>"

text \<open>The artifacts a run starts from: the configuration and the load result, every other field at its zero value.\<close>

definition new_artifacts :: "run_config \<Rightarrow> lg_result \<Rightarrow> artifacts" where
  "new_artifacts cfg res =
     \<lparr>a_Config = cfg, a_Loadgen = res, a_Orchestration = None, a_ActualFireNs = 0, a_VictimReplica = [], a_Windows = [],
      a_InFlight = zero_in_flight, a_Detector = None, a_Decomposition = [], a_ShareGate = no_share,
      a_ThresholdAnalysis = None, a_ReceivePath = [], a_ScheduleFired = None, a_RunValid = False, a_InvalidReasons = []\<rparr>"

record probe_outcome =
  pr_name :: string
  pr_result :: "string + int"

record run_inputs =
  ri_orch :: "timestamps option"
  ri_victim :: string
  ri_probes :: "probe_outcome list"
  ri_scheduleFired :: "int option"

definition CheckConfig :: "run_config \<Rightarrow> string option" where
  "CheckConfig cfg =
     (if rc_Profile cfg = ''pilot'' \<or> rc_Pilot cfg then Some ''run: a pilot configuration runs under percentes-pilot only''
      else if rc_Body cfg \<noteq> [] then Some ''run: target.body needs one case text per request, which this run does not supply''
      else None)"

section \<open>The share gate\<close>

definition in_baseline :: "int \<Rightarrow> int \<Rightarrow> request \<Rightarrow> bool" where
  "in_baseline warmupEndNs guardStartNs r \<longleftrightarrow>
     \<not> (r_IntendedNs r < warmupEndNs \<or> guardStartNs \<le> r_IntendedNs r \<or> r_Replica r = [])"

definition replica_counts :: "request list \<Rightarrow> (string \<times> nat) list" where
  "replica_counts rs = foldl (\<lambda>m r. count_up (r_Replica r) m) [] rs"

definition out_of_band :: "(rat \<Rightarrow> rat) \<Rightarrow> run_config \<Rightarrow> rat \<Rightarrow> bool" where
  "out_of_band rnd cfg s \<longleftrightarrow>
     s < rnd (rnd (of_int (rc_ShareMinPct cfg)) / 100) \<or> rnd (rnd (of_int (rc_ShareMaxPct cfg)) / 100) < s"

definition shareGate :: "(rat \<Rightarrow> rat) \<Rightarrow> run_config \<Rightarrow> lg_result \<Rightarrow> int \<Rightarrow> string \<Rightarrow> share_gate" where
  "shareGate rnd cfg res guardStartNs victim =
     (if rc_Hosted cfg then no_share\<lparr>sh_Pass := True\<rparr>
      else if rc_Replicas cfg < 2 then no_share\<lparr>sh_Pass := True\<rparr>
      else
        let rs = filter (in_baseline (lr_WarmupEndNs res) guardStartNs) (lr_Requests res);
            counts = replica_counts rs; n = length rs
        in if n = 0 then no_share\<lparr>sh_Applicable := True\<rparr>
           else let enforced = BalancesPerRequest (rc_DataplaneMode cfg);
                    shares = map (\<lambda>(rep, c). (rep, rnd (rnd (of_nat c) / rnd (of_nat n)))) counts;
                    outOfBand = list_ex (\<lambda>(rep, s). out_of_band rnd cfg s) shares
                in \<lparr>sh_Applicable = True, sh_Shares = shares, sh_BandEnforced = enforced,
                    sh_VictimShareAtInject =
                      (if victim \<noteq> [] then (case map_of shares victim of None \<Rightarrow> 0 | Some s \<Rightarrow> s) else 0),
                    sh_Pass = (\<not> (outOfBand \<and> enforced) \<and> int (length counts) = rc_Replicas cfg)\<rparr>)"

text \<open>The one baseline replica beside the victim, the empty name when there is none or more than one.\<close>

definition survivorOf :: "request list \<Rightarrow> int \<Rightarrow> int \<Rightarrow> string \<Rightarrow> string" where
  "survivorOf rs warmupEndNs guardStartNs victim =
     (if victim = [] then []
      else case remdups (map r_Replica (filter (\<lambda>r. in_baseline warmupEndNs guardStartNs r \<and> r_Replica r \<noteq> victim) rs)) of
        [name] \<Rightarrow> name
      | _ \<Rightarrow> [])"

section \<open>The validity of a run\<close>

definition scheduled_mock :: "run_config \<Rightarrow> bool" where
  "scheduled_mock cfg \<longleftrightarrow> rc_Variant cfg = VariantMock \<and> (case rc_MockSchedule cfg of None \<Rightarrow> False | Some n \<Rightarrow> 0 < n)"

definition source_reasons :: "artifacts \<Rightarrow> reason list" where
  "source_reasons art =
     (let scheduled = scheduled_mock (a_Config art)
      in if rc_Variant (a_Config art) = VariantNone then []
         else if a_Orchestration art \<noteq> None then []
         else if scheduled \<and> a_ScheduleFired art = None then [Unattested]
         else if scheduled \<and> a_ScheduleFired art = Some 0 then [NeverFired]
         else if \<not> scheduled then [NoSource (rc_Variant (a_Config art))]
         else [])"

definition timing_reasons :: "(rat \<Rightarrow> rat) \<Rightarrow> artifacts \<Rightarrow> reason list" where
  "timing_reasons rnd art =
     (case a_Orchestration art of
        None \<Rightarrow> []
      | Some ts \<Rightarrow>
          let tol = rnd (of_int (rc_InjectionToleranceMs (a_Config art)))
          in case FireErrorMs rnd ts of
               None \<Rightarrow> [FaultNeverFired]
             | Some e \<Rightarrow> if tol < e \<or> e < - tol then [TimingOff e (rc_InjectionToleranceMs (a_Config art))] else [])"

definition validity :: "(rat \<Rightarrow> rat) \<Rightarrow> artifacts \<Rightarrow> bool \<times> reason list" where
  "validity rnd art =
     (let gates = lr_Gates (a_Loadgen art);
          reasons = source_reasons art
            @ (if g_Pass gates then [] else [ClientGateFailed (g_CPUMeasured gates)])
            @ (if sh_Applicable (a_ShareGate art) \<and> \<not> sh_Pass (a_ShareGate art) then [ShareGateFailed] else [])
            @ timing_reasons rnd art
      in (reasons = [], reasons))"

section \<open>The analysis\<close>

text \<open>Every window collected in order, until one fails.\<close>

fun collect_windows :: "(rat \<Rightarrow> rat) \<Rightarrow> (rat \<Rightarrow> rat) \<Rightarrow> hist \<Rightarrow> collect_config \<Rightarrow> request list \<Rightarrow> window list
    \<Rightarrow> (string \<times> collect_stats) list \<Rightarrow> (string \<times> collect_stats) list \<times> run_error option" where
  "collect_windows rnd sqrt64 h cfg rs [] ws = (ws, None)"
| "collect_windows rnd sqrt64 h cfg rs (w # rest) ws =
     (case Collect_stats rnd sqrt64 h cfg rs w of
        Inl e \<Rightarrow> (ws, Some (CollectFailed (w_Name w) e))
      | Inr st \<Rightarrow> collect_windows rnd sqrt64 h cfg rs rest (AList.update (w_Name w) st ws))"

definition failed :: "run_error \<Rightarrow> artifacts \<Rightarrow> artifacts \<times> run_error option" where
  "failed err art = (art\<lparr>a_RunValid := False, a_InvalidReasons := a_InvalidReasons art @ [RunFailed err]\<rparr>, Some err)"

definition actual_fire :: "lg_result \<Rightarrow> timestamps option \<Rightarrow> int" where
  "actual_fire res orch =
     (case orch of
        None \<Rightarrow> lr_TInjectNs res
      | Some ts \<Rightarrow> (case ts_ObservedFire ts of None \<Rightarrow> lr_TInjectNs res | Some t \<Rightarrow> t - lr_EpochWall res))"

definition phase_windows :: "lg_result \<Rightarrow> int \<Rightarrow> window list" where
  "phase_windows res guardStartNs =
     [\<lparr>w_Name = ''baseline'', w_StartNs = lr_WarmupEndNs res, w_EndNs = guardStartNs, w_Replica = []\<rparr>,
      \<lparr>w_Name = ''guard'', w_StartNs = guardStartNs, w_EndNs = lr_TInjectNs res, w_Replica = []\<rparr>,
      \<lparr>w_Name = ''fault'', w_StartNs = lr_TInjectNs res, w_EndNs = lr_FaultEndNs res, w_Replica = []\<rparr>]"

definition heal_ns :: "run_config \<Rightarrow> lg_result \<Rightarrow> timestamps option \<Rightarrow> int \<Rightarrow> int option" where
  "heal_ns cfg res orch fireAnchorNs =
     (if rc_Variant cfg \<noteq> VariantBlackHole then None
      else case orch of
        None \<Rightarrow> Some (fireAnchorNs + rc_PartitionDurationS cfg * nsPerSec)
      | Some ts \<Rightarrow> (case ts_ObservedExpiry ts of
            None \<Rightarrow> Some (fireAnchorNs + rc_PartitionDurationS cfg * nsPerSec)
          | Some t \<Rightarrow> Some (t - lr_EpochWall res)))"

definition labelled_recovery :: "detect_result \<Rightarrow> detection" where
  "labelled_recovery d = (case dr_PartitionHealRecovery d of None \<Rightarrow> dr_ToPreFault d | Some r \<Rightarrow> r)"

definition split_windows :: "lg_result \<Rightarrow> int \<Rightarrow> string \<Rightarrow> int option \<Rightarrow> window list" where
  "split_windows res guardStartNs victim recoveredAt =
     (let survivor = survivorOf (lr_Requests res) (lr_WarmupEndNs res) guardStartNs victim
      in (if survivor = [] then []
          else [\<lparr>w_Name = ''fault_survivor'', w_StartNs = lr_TInjectNs res, w_EndNs = lr_FaultEndNs res, w_Replica = survivor\<rparr>])
       @ (case recoveredAt of
            None \<Rightarrow> []
          | Some t \<Rightarrow>
              if lr_TInjectNs res < t \<and> t < lr_FaultEndNs res
              then [\<lparr>w_Name = ''fault_degraded'', w_StartNs = lr_TInjectNs res, w_EndNs = t, w_Replica = []\<rparr>,
                    \<lparr>w_Name = ''fault_recovered'', w_StartNs = t, w_EndNs = lr_FaultEndNs res, w_Replica = []\<rparr>]
              else []))"

definition recordProbe :: "int \<Rightarrow> probe_outcome \<Rightarrow> segment list \<Rightarrow> segment list" where
  "recordProbe fire p ss =
     (case pr_result p of
        Inr t \<Rightarrow> SetMeasured (pr_name p) fire t ss
      | Inl e \<Rightarrow> SetNote (pr_name p) (''unmeasured: '' @ e) ss)"

definition named :: "string \<Rightarrow> segment list \<Rightarrow> segment option" where
  "named name ss = find (\<lambda>s. sg_Name s = name) (rev ss)"

text \<open>A measured segment has an end.\<close>

definition propagate :: "segment list \<Rightarrow> segment list" where
  "propagate ss =
     (case (named ''replica_ready'' ss, named ''traffic_restored'' ss) of
        (Some ready, Some traffic) \<Rightarrow>
          if sg_Measured ready \<and> sg_Measured traffic
          then (case (sg_EndAt ready, sg_EndAt traffic) of
                  (Some a, Some b) \<Rightarrow> SetMeasured ''routing_propagation'' a b ss
                | _ \<Rightarrow> ss)
          else ss
      | _ \<Rightarrow> ss)"

definition decompose :: "string \<Rightarrow> int \<Rightarrow> int \<Rightarrow> probe_outcome list \<Rightarrow> int option \<Rightarrow> segment list" where
  "decompose variant epoch actualFireNs probes recoveredAt =
     (let fireWall = epoch + actualFireNs;
          ss = foldl (\<lambda>ss p. recordProbe fireWall p ss) (NewDecomposition variant) probes;
          ss1 = (case recoveredAt of None \<Rightarrow> ss | Some t \<Rightarrow> SetMeasured ''goodput_restored'' fireWall (epoch + t) ss)
      in propagate ss1)"

definition analyze :: "(rat \<Rightarrow> rat) \<Rightarrow> (rat \<Rightarrow> rat) \<Rightarrow> hist \<Rightarrow> artifacts \<Rightarrow> run_inputs \<Rightarrow> artifacts \<times> run_error option" where
  "analyze rnd sqrt64 h art0 inp =
     (let cfg = a_Config art0; res = a_Loadgen art0; orch = ri_orch inp; cc = rc_Collect cfg; rs = lr_Requests res;
          fire = actual_fire res orch;
          art1 = art0\<lparr>a_Orchestration := orch, a_ActualFireNs := fire\<rparr>;
          anchor = FireAnchorNs (lr_TInjectNs res) fire;
          guardNs = GuardStartNs cc anchor (lr_WarmupEndNs res)
      in case collect_windows rnd sqrt64 h cc rs (phase_windows res guardNs) (a_Windows art1) of
           (ws, Some e) \<Rightarrow> failed e (art1\<lparr>a_Windows := ws\<rparr>)
         | (ws, None) \<Rightarrow>
             (case (BuildSeries (cc_SLO cc) rs (lr_WarmupEndNs res) (lr_RunEndNs res), map_of ws ''baseline'', map_of ws ''fault'') of
                (Some bs, Some b, Some f) \<Rightarrow>
                  let det = RunWith rnd cc (rc_Detector cfg)
                        \<lparr>in_Buckets = bs, in_WarmupEndNs = lr_WarmupEndNs res, in_FireAnchorNs = anchor,
                         in_TimeoutNs = lr_FaultEndNs res,
                         in_PreFaultBaseline = (if 0 < st_Scheduled b then Some (st_GoodputFrac b) else None),
                         in_HealNs = heal_ns cfg res orch anchor\<rparr>;
                      recovered = d_RecoveredAtNs (labelled_recovery det);
                      art2 = art1\<lparr>a_Windows := ws, a_Detector := Some det\<rparr>
                  in (case collect_windows rnd sqrt64 h cc rs (split_windows res guardNs (ri_victim inp) recovered) ws of
                        (ws2, Some e) \<Rightarrow> failed e (art2\<lparr>a_Windows := ws2\<rparr>)
                      | (ws2, None) \<Rightarrow>
                          (case AnalyzeThresholds rnd sqrt64 cc b f of
                             None \<Rightarrow> failed AnalysisPanic (art2\<lparr>a_Windows := ws2\<rparr>)
                           | Some ta \<Rightarrow>
                               let art3 = art2\<lparr>a_Windows := ws2, a_VictimReplica := ri_victim inp,
                                     a_InFlight := AccountInFlight rs fire (ri_victim inp),
                                     a_ShareGate := shareGate rnd cfg res guardNs (ri_victim inp),
                                     a_ThresholdAnalysis := Some ta,
                                     a_Decomposition := decompose (rc_Variant cfg) (lr_EpochWall res) fire (ri_probes inp) recovered,
                                     a_ScheduleFired := ri_scheduleFired inp\<rparr>;
                                   v = validity rnd art3
                               in (art3\<lparr>a_RunValid := fst v, a_InvalidReasons := snd v\<rparr>, None)))
              | _ \<Rightarrow> failed AnalysisPanic (art1\<lparr>a_Windows := ws\<rparr>)))"

section \<open>What an analysis collects\<close>

lemma BuildSeries_total: "\<exists>bs. BuildSeries slo rs t0 t1 = Some bs"
proof (cases "t0 < t1")
  case True
  then show ?thesis using BuildSeries_spec by metis
next
  case False
  have "go_div (t1 - t0 + nsPerSec - 1) nsPerSec \<le> 0"
  proof (cases "0 \<le> t1 - t0 + nsPerSec - 1")
    case True
    with False show ?thesis by (simp add: go_div_nonneg)
  next
    case neg: False
    then show ?thesis by (simp add: go_div_neg pos_imp_zdiv_nonneg_iff)
  qed
  then show ?thesis by (simp add: BuildSeries_def Let_def)
qed

lemma update_fresh: "k \<notin> fst ` set al \<Longrightarrow> AList.update k v al = al @ [(k, v)]"
  by (induction al) auto

text \<open>The collected windows are appended in order with their statistics.\<close>

lemma collect_windows_Some:
  assumes "collect_windows rnd sqrt64 h cfg rs ws acc = (acc', None)" and "distinct (map w_Name ws)"
    and "w_Name ` set ws \<inter> fst ` set acc = {}"
  shows "acc' = acc @ map (\<lambda>w. (w_Name w, projr (Collect_stats rnd sqrt64 h cfg rs w))) ws
     \<and> (\<forall>w\<in>set ws. is_ok (Collect_stats rnd sqrt64 h cfg rs w))"
  using assms
proof (induction ws arbitrary: acc)
  case (Cons w ws)
  obtain st where st: "Collect_stats rnd sqrt64 h cfg rs w = Inr st" using Cons.prems(1) by (auto split: sum.splits)
  have fresh: "AList.update (w_Name w) st acc = acc @ [(w_Name w, st)]" by (rule update_fresh) (use Cons.prems(3) in auto)
  have "collect_windows rnd sqrt64 h cfg rs ws (acc @ [(w_Name w, st)]) = (acc', None)" using Cons.prems(1) by (simp add: st fresh)
  from Cons.IH [OF this] Cons.prems(2,3) show ?case by (auto simp: st)
qed simp

lemma collect_windows_err:
  "snd (collect_windows rnd sqrt64 h cfg rs ws acc) = None \<longleftrightarrow> (\<forall>w\<in>set ws. is_ok (Collect_stats rnd sqrt64 h cfg rs w))"
  "snd (collect_windows rnd sqrt64 h cfg rs ws acc) \<noteq> Some AnalysisPanic"
  by (induction ws arbitrary: acc) (auto split: sum.splits)

lemma collect_windows_cause:
  "snd (collect_windows rnd sqrt64 h cfg rs ws acc) = Some e \<Longrightarrow>
     \<exists>w\<in>set ws. \<exists>c. Collect_stats rnd sqrt64 h cfg rs w = Inl c \<and> e = CollectFailed (w_Name w) c"
  by (induction ws arbitrary: acc) (auto split: sum.splits)

text \<open>What a collection error says of the request it comes from.\<close>

fun explains :: "hist \<Rightarrow> request \<Rightarrow> collect_error \<Rightarrow> bool" where
  "explains h r (ETTFT us) \<longleftrightarrow> r_Outcome r = OutcomeCompleted \<and> us = go_div (TTFTNs r) 1000 \<and> \<not> hist_ok h us"
| "explains h r (EE2E us) \<longleftrightarrow> r_Outcome r = OutcomeCompleted \<and> us = go_div (E2ENs r) 1000 \<and> \<not> hist_ok h us"
| "explains h r (EITL us) \<longleftrightarrow> r_Outcome r = OutcomeCompleted \<and> us \<in> max 1 ` set (r_ITLsUs r) \<and> \<not> hist_ok h us"
| "explains h r (ENoOutcome i s) \<longleftrightarrow> r_Outcome r = OutcomeOther s \<and> i = r_Index r"
| "explains h r EPanic \<longleftrightarrow> False"

lemma add_request_error:
  assumes "add_request h cfg r a = Inl e"
  shows "explains h r e"
proof -
  have gap: "(\<lambda>g. if g < 1 then 1 else g) = max (1::int)" by (auto simp: max_def)
  have bad: "hd (filter (\<lambda>g. \<not> P g) xs) \<in> set xs \<and> \<not> P (hd (filter (\<lambda>g. \<not> P g) xs))" if "\<not> list_all P xs" for P and xs :: "int list"
  proof -
    have "filter (\<lambda>g. \<not> P g) xs \<noteq> []" using that by (auto simp: list_all_iff filter_empty_conv)
    from hd_in_set [OF this] show ?thesis by simp
  qed
  show ?thesis using assms bad [of "hist_ok h" "map (max 1) (r_ITLsUs r)"]
    by (auto simp: add_request_def add_completed_def Let_def gap split: outcome.splits if_splits)
qed

lemma collect_loop_error: "collect_loop h cfg w rs a = Inl e \<Longrightarrow> \<exists>r\<in>set rs. in_window w r \<and> explains h r e"
  by (induction rs arbitrary: a) (auto split: if_splits sum.splits dest: add_request_error)

lemma Collect_error:
  assumes "\<forall>x. 0 \<le> sqrt64 x" and "Collect_stats fl sqrt64 h cfg rs w = Inl e"
  shows "\<exists>r\<in>set rs. in_window w r \<and> explains h r e"
proof (cases "collect_loop h cfg w rs (zero_acc cfg)")
  case (Inl e')
  then have "e' = e" using assms(2) by (simp add: Collect_stats_def)
  with collect_loop_error [OF Inl] show ?thesis by simp
next
  case (Inr a)
  then have "is_ok (Collect_stats fl sqrt64 h cfg rs w)"
    using f64.Collect_ok [OF assms(1)] collect_loop_ok [of h cfg w rs "zero_acc cfg"] by simp
  then show ?thesis using assms(2) by simp
qed

lemma phase_windows_distinct [simp]: "distinct (map w_Name (phase_windows res g))"
  by (simp add: phase_windows_def)

lemma split_windows_distinct: "distinct (map w_Name (split_windows res g v t))"
  "w_Name ` set (split_windows res g v t) \<inter> {''baseline'', ''guard'', ''fault''} = {}"
  by (auto simp: split_windows_def Let_def split: option.split)

text \<open>The guard boundary and the recovery of a run, as the analysis computes them.\<close>

definition guard_of :: "artifacts \<Rightarrow> int" where
  "guard_of art =
     (let res = a_Loadgen art
      in GuardStartNs (rc_Collect (a_Config art)) (FireAnchorNs (lr_TInjectNs res) (a_ActualFireNs art)) (lr_WarmupEndNs res))"

definition recovery_at :: "artifacts \<Rightarrow> int option" where
  "recovery_at art = (case a_Detector art of None \<Rightarrow> None | Some d \<Rightarrow> d_RecoveredAtNs (labelled_recovery d))"

definition all_windows :: "artifacts \<Rightarrow> window list" where
  "all_windows art = phase_windows (a_Loadgen art) (guard_of art)
     @ split_windows (a_Loadgen art) (guard_of art) (a_VictimReplica art) (recovery_at art)"



text \<open>The steps of an analysis that completes, for the run's fire \<open>fire\<close>, its anchor and its guard boundary.\<close>

definition detector_run :: "(rat \<Rightarrow> rat) \<Rightarrow> run_config \<Rightarrow> lg_result \<Rightarrow> timestamps option \<Rightarrow> int \<Rightarrow> bucket list \<Rightarrow> collect_stats \<Rightarrow> detect_result" where
  "detector_run rnd cfg res orch anchor bs b =
     RunWith rnd (rc_Collect cfg) (rc_Detector cfg)
       \<lparr>in_Buckets = bs, in_WarmupEndNs = lr_WarmupEndNs res, in_FireAnchorNs = anchor, in_TimeoutNs = lr_FaultEndNs res,
        in_PreFaultBaseline = (if 0 < st_Scheduled b then Some (st_GoodputFrac b) else None), in_HealNs = heal_ns cfg res orch anchor\<rparr>"

definition analyzed :: "(rat \<Rightarrow> rat) \<Rightarrow> run_config \<Rightarrow> lg_result \<Rightarrow> run_inputs \<Rightarrow> int \<Rightarrow> int \<Rightarrow> detect_result
    \<Rightarrow> (string \<times> collect_stats) list \<Rightarrow> threshold_analysis \<Rightarrow> artifacts" where
  "analyzed rnd cfg res inp fire g det ws ta =
     (new_artifacts cfg res)\<lparr>a_Orchestration := ri_orch inp, a_ActualFireNs := fire, a_Windows := ws,
       a_Detector := Some det, a_VictimReplica := ri_victim inp, a_InFlight := AccountInFlight (lr_Requests res) fire (ri_victim inp),
       a_ShareGate := shareGate rnd cfg res g (ri_victim inp), a_ThresholdAnalysis := Some ta,
       a_Decomposition := decompose (rc_Variant cfg) (lr_EpochWall res) fire (ri_probes inp) (d_RecoveredAtNs (labelled_recovery det)),
       a_ScheduleFired := ri_scheduleFired inp\<rparr>"

lemma analyze_okE:
  assumes "analyze rnd sqrt64 h (new_artifacts cfg res) inp = (art, None)"
  defines "fire \<equiv> actual_fire res (ri_orch inp)"
  defines "anchor \<equiv> FireAnchorNs (lr_TInjectNs res) fire"
  defines "g \<equiv> GuardStartNs (rc_Collect cfg) anchor (lr_WarmupEndNs res)"
  obtains ws bs b f det ws2 ta art3 where
      "collect_windows rnd sqrt64 h (rc_Collect cfg) (lr_Requests res) (phase_windows res g) [] = (ws, None)"
    and "collect_windows rnd sqrt64 h (rc_Collect cfg) (lr_Requests res)
           (split_windows res g (ri_victim inp) (d_RecoveredAtNs (labelled_recovery det))) ws = (ws2, None)"
    and "BuildSeries (cc_SLO (rc_Collect cfg)) (lr_Requests res) (lr_WarmupEndNs res) (lr_RunEndNs res) = Some bs"
    and "map_of ws ''baseline'' = Some b" and "map_of ws ''fault'' = Some f"
    and "det = detector_run rnd cfg res (ri_orch inp) anchor bs b"
    and "AnalyzeThresholds rnd sqrt64 (rc_Collect cfg) b f = Some ta"
    and "art3 = analyzed rnd cfg res inp fire g det ws2 ta"
    and "art = art3\<lparr>a_RunValid := fst (validity rnd art3), a_InvalidReasons := snd (validity rnd art3)\<rparr>"
proof -
  obtain ws e where ws: "collect_windows rnd sqrt64 h (rc_Collect cfg) (lr_Requests res) (phase_windows res g) [] = (ws, e)" by fastforce
  have e: "e = None" using assms(1) ws by (cases e) (auto simp: analyze_def new_artifacts_def failed_def Let_def fire_def anchor_def g_def)
  obtain bs b f where bs: "BuildSeries (cc_SLO (rc_Collect cfg)) (lr_Requests res) (lr_WarmupEndNs res) (lr_RunEndNs res) = Some bs"
    and bf: "map_of ws ''baseline'' = Some b" "map_of ws ''fault'' = Some f"
    using assms(1) ws unfolding e by (auto simp: analyze_def new_artifacts_def failed_def Let_def fire_def anchor_def g_def split: option.splits)
  define det where "det = detector_run rnd cfg res (ri_orch inp) anchor bs b"
  note step = assms(1) [unfolded analyze_def Let_def, simplified new_artifacts_def artifacts.simps, folded fire_def, folded anchor_def, folded g_def,
      unfolded ws e prod.case option.case bs bf, folded detector_run_def, folded det_def]
  obtain ws2 e2 where ws2: "collect_windows rnd sqrt64 h (rc_Collect cfg) (lr_Requests res)
       (split_windows res g (ri_victim inp) (d_RecoveredAtNs (labelled_recovery det))) ws = (ws2, e2)" by fastforce
  have e2: "e2 = None" using step ws2 by (cases e2) (auto simp: failed_def)
  obtain ta where ta: "AnalyzeThresholds rnd sqrt64 (rc_Collect cfg) b f = Some ta"
    using step unfolding ws2 e2 by (cases "AnalyzeThresholds rnd sqrt64 (rc_Collect cfg) b f") (auto simp: failed_def)
  show thesis
    by (rule that [OF ws [unfolded e] ws2 [unfolded e2] bs bf det_def ta refl]) (use step in \<open>simp add: ws2 e2 ta new_artifacts_def analyzed_def\<close>)
qed

lemma analyze_okI:
  fixes rnd sqrt64 :: "rat \<Rightarrow> rat" and h :: hist and cfg :: run_config and res :: lg_result and inp :: run_inputs
  defines "fire \<equiv> actual_fire res (ri_orch inp)"
  defines "anchor \<equiv> FireAnchorNs (lr_TInjectNs res) fire"
  defines "g \<equiv> GuardStartNs (rc_Collect cfg) anchor (lr_WarmupEndNs res)"
  assumes "collect_windows rnd sqrt64 h (rc_Collect cfg) (lr_Requests res) (phase_windows res g) [] = (ws, None)"
    and "collect_windows rnd sqrt64 h (rc_Collect cfg) (lr_Requests res)
           (split_windows res g (ri_victim inp) (d_RecoveredAtNs (labelled_recovery det))) ws = (wt, None)"
    and "BuildSeries (cc_SLO (rc_Collect cfg)) (lr_Requests res) (lr_WarmupEndNs res) (lr_RunEndNs res) = Some bs"
    and "map_of ws ''baseline'' = Some b" and "map_of ws ''fault'' = Some f"
    and "det = detector_run rnd cfg res (ri_orch inp) anchor bs b"
    and "AnalyzeThresholds rnd sqrt64 (rc_Collect cfg) b f = Some ta"
    and "final = analyzed rnd cfg res inp fire g det wt ta"
  shows "analyze rnd sqrt64 h (new_artifacts cfg res) inp
     = (final\<lparr>a_RunValid := fst (validity rnd final), a_InvalidReasons := snd (validity rnd final)\<rparr>, None)"
  using assms(4-8,10) unfolding assms(9,11)
  by (simp add: analyze_def Let_def new_artifacts_def fire_def anchor_def g_def detector_run_def analyzed_def)

lemma validity_ignores_verdict: "validity rnd (art\<lparr>a_RunValid := v, a_InvalidReasons := rs\<rparr>) = validity rnd art"
proof -
  have "source_reasons (art\<lparr>a_RunValid := v, a_InvalidReasons := rs\<rparr>) = source_reasons art"
    unfolding source_reasons_def Let_def by simp
  moreover have "timing_reasons rnd (art\<lparr>a_RunValid := v, a_InvalidReasons := rs\<rparr>) = timing_reasons rnd art"
    unfolding timing_reasons_def Let_def by (simp split: option.split)
  ultimately show ?thesis unfolding validity_def Let_def by simp
qed

text \<open>What a completed analysis holds.\<close>

lemma analyze_fields:
  assumes "analyze rnd sqrt64 h (new_artifacts cfg res) inp = (art, None)"
  shows "a_Config art = cfg" and "a_Loadgen art = res" and "a_Orchestration art = ri_orch inp" and "a_VictimReplica art = ri_victim inp"
    and "a_ActualFireNs art = actual_fire res (ri_orch inp)"
    and "a_Windows art = map (\<lambda>w. (w_Name w, projr (Collect_stats rnd sqrt64 h (rc_Collect cfg) (lr_Requests res) w))) (all_windows art)"
    and "\<forall>w\<in>set (all_windows art). is_ok (Collect_stats rnd sqrt64 h (rc_Collect cfg) (lr_Requests res) w)"
    and "(a_RunValid art, a_InvalidReasons art) = validity rnd art"
    and "a_ShareGate art = shareGate rnd cfg res (guard_of art) (ri_victim inp)"
    and "a_InFlight art = AccountInFlight (lr_Requests res) (a_ActualFireNs art) (ri_victim inp)"
    and "a_ScheduleFired art = ri_scheduleFired inp"
    and "a_Decomposition art = decompose (rc_Variant cfg) (lr_EpochWall res) (a_ActualFireNs art) (ri_probes inp) (recovery_at art)"
proof -
  let ?fire = "actual_fire res (ri_orch inp)"
  let ?g = "GuardStartNs (rc_Collect cfg) (FireAnchorNs (lr_TInjectNs res) ?fire) (lr_WarmupEndNs res)"
  obtain ws bs b f det ws2 ta art3 where ws: "collect_windows rnd sqrt64 h (rc_Collect cfg) (lr_Requests res) (phase_windows res ?g) [] = (ws, None)"
    and ws2: "collect_windows rnd sqrt64 h (rc_Collect cfg) (lr_Requests res)
           (split_windows res ?g (ri_victim inp) (d_RecoveredAtNs (labelled_recovery det))) ws = (ws2, None)"
    and art3: "art3 = analyzed rnd cfg res inp ?fire ?g det ws2 ta"
    and art: "art = art3\<lparr>a_RunValid := fst (validity rnd art3), a_InvalidReasons := snd (validity rnd art3)\<rparr>"
    by (rule analyze_okE [OF assms]) blast
  let ?split = "split_windows res ?g (ri_victim inp) (d_RecoveredAtNs (labelled_recovery det))"
  show "(a_RunValid art, a_InvalidReasons art) = validity rnd art" unfolding art validity_ignores_verdict by simp
  show flds: "a_Config art = cfg" "a_Loadgen art = res" "a_Orchestration art = ri_orch inp" "a_VictimReplica art = ri_victim inp"
    "a_ActualFireNs art = ?fire" "a_ScheduleFired art = ri_scheduleFired inp"
    "a_InFlight art = AccountInFlight (lr_Requests res) (a_ActualFireNs art) (ri_victim inp)"
    unfolding art art3 analyzed_def by (simp_all add: new_artifacts_def)
  have g: "guard_of art = ?g" unfolding guard_of_def flds by (simp add: Let_def)
  have rec: "recovery_at art = d_RecoveredAtNs (labelled_recovery det)" unfolding recovery_at_def art art3 analyzed_def by simp
  show "a_ShareGate art = shareGate rnd cfg res (guard_of art) (ri_victim inp)" unfolding g unfolding art art3 analyzed_def by simp
  show "a_Decomposition art = decompose (rc_Variant cfg) (lr_EpochWall res) (a_ActualFireNs art) (ri_probes inp) (recovery_at art)"
    unfolding rec flds(5) unfolding art art3 analyzed_def by simp
  have all: "all_windows art = phase_windows res ?g @ ?split" unfolding all_windows_def g rec flds ..
  let ?C = "\<lambda>w. (w_Name w, projr (Collect_stats rnd sqrt64 h (rc_Collect cfg) (lr_Requests res) w))"
  have 1: "ws = map ?C (phase_windows res ?g)" "\<forall>w\<in>set (phase_windows res ?g). is_ok (Collect_stats rnd sqrt64 h (rc_Collect cfg) (lr_Requests res) w)"
    using collect_windows_Some [OF ws] by simp_all
  have "fst ` set ws = {''baseline'', ''guard'', ''fault''}" unfolding 1(1) by (simp add: phase_windows_def)
  then have 2: "ws2 = ws @ map ?C ?split" "\<forall>w\<in>set ?split. is_ok (Collect_stats rnd sqrt64 h (rc_Collect cfg) (lr_Requests res) w)"
    using collect_windows_Some [OF ws2 split_windows_distinct(1)] split_windows_distinct(2) by simp_all
  show "a_Windows art = map ?C (all_windows art)" unfolding all map_append 1(1) [symmetric] 2(1) [symmetric] unfolding art art3 analyzed_def by simp
  show "\<forall>w\<in>set (all_windows art). is_ok (Collect_stats rnd sqrt64 h (rc_Collect cfg) (lr_Requests res) w)"
    unfolding all using 1(2) 2(2) by auto
qed

lemma all_windows_distinct: "distinct (map w_Name (all_windows art))"
  using split_windows_distinct [of "a_Loadgen art" "guard_of art" "a_VictimReplica art" "recovery_at art"]
  by (auto simp: all_windows_def phase_windows_def)

lemma window_stats:
  assumes "analyze rnd sqrt64 h (new_artifacts cfg res) inp = (art, None)" and "w \<in> set (all_windows art)"
  obtains st where "map_of (a_Windows art) (w_Name w) = Some st"
    and "Collect_stats rnd sqrt64 h (rc_Collect cfg) (lr_Requests res) w = Inr st"
proof -
  let ?C = "Collect_stats rnd sqrt64 h (rc_Collect cfg) (lr_Requests res)"
  obtain st where st: "?C w = Inr st" using analyze_fields(7) [OF assms(1)] assms(2) unfolding is_ok_iff by blast
  have "map_of (map (\<lambda>w. (w_Name w, projr (?C w))) (all_windows art)) (w_Name w) = Some (projr (?C w))"
    by (rule map_of_is_SomeI) (use assms(2) all_windows_distinct [of art] in \<open>auto simp: comp_def\<close>)
  with st that show thesis unfolding analyze_fields(6) [OF assms(1)] by simp
qed

section \<open>Windows\<close>

lemma Collect_window: "Collect_stats rnd sqrt64 h cfg rs w = Inr st \<Longrightarrow> st_Window st = w"
  by (auto simp: Collect_stats_def Let_def split: sum.splits option.splits)

lemma Collect_raw_lengths:
  assumes "Collect_stats rnd sqrt64 h cfg rs w = Inr st"
  shows "length (st_RawE2EUs st) = length (st_RawTTFTUs st)"
proof -
  obtain a where a: "collect_loop h cfg w rs (zero_acc cfg) = Inr a" and s: "st_RawTTFTUs st = k_ttft a" "st_RawE2EUs st = k_e2e a"
    using assms by (rule Collect_statsD)
  show ?thesis using collect_loop_fields [OF a] unfolding s by (simp add: zero_acc_def)
qed

lemma guard_between:
  assumes "lr_WarmupEndNs res \<le> lr_TInjectNs res" and "0 \<le> cc_HTTPTimeoutS cc"
  shows "lr_WarmupEndNs res \<le> GuardStartNs cc (FireAnchorNs (lr_TInjectNs res) fire) (lr_WarmupEndNs res)"
    and "GuardStartNs cc (FireAnchorNs (lr_TInjectNs res) fire) (lr_WarmupEndNs res) \<le> lr_TInjectNs res"
  using assms by (auto simp: GuardStartNs_def FireAnchorNs_def Let_def)

lemma intended_split:
  assumes "a \<le> b" and "b \<le> c"
  shows "length (filter (\<lambda>r. a \<le> r_IntendedNs r \<and> r_IntendedNs r < b) rs) + length (filter (\<lambda>r. b \<le> r_IntendedNs r \<and> r_IntendedNs r < c) rs)
     = length (filter (\<lambda>r. a \<le> r_IntendedNs r \<and> r_IntendedNs r < c) rs)"
  using assms by (induction rs) auto

lemma unfiltered_count:
  assumes "Collect_stats rnd sqrt64 h cfg rs w = Inr st" and "w_Replica w = []"
  shows "st_Scheduled st = length (filter (\<lambda>r. w_StartNs w \<le> r_IntendedNs r \<and> r_IntendedNs r < w_EndNs w) rs)"
  using Collect_counts(1) [OF assms(1)] assms(2) by (simp add: in_window_def cong: filter_cong)

lemma analyzed_count:
  assumes "analyze rnd sqrt64 h (new_artifacts cfg res) inp = (art, None)" and "w \<in> set (all_windows art)"
    and "map_of (a_Windows art) (w_Name w) = Some st" and "w_Replica w = []"
  shows "st_Scheduled st = length (filter (\<lambda>r. w_StartNs w \<le> r_IntendedNs r \<and> r_IntendedNs r < w_EndNs w) (lr_Requests res))"
  using window_stats [OF assms(1,2)] assms(3) unfiltered_count [OF _ assms(4)] by (metis option.inject)

lemma all_windows_bounds:
  assumes "w \<in> set (all_windows art)"
  shows "(w_StartNs w = lr_WarmupEndNs (a_Loadgen art) \<and> w_EndNs w = guard_of art)
     \<or> (w_StartNs w = guard_of art \<and> w_EndNs w = lr_TInjectNs (a_Loadgen art))
     \<or> (lr_TInjectNs (a_Loadgen art) \<le> w_StartNs w \<and> w_EndNs w \<le> lr_FaultEndNs (a_Loadgen art))"
  using assms by (auto simp: all_windows_def phase_windows_def split_windows_def Let_def split: option.splits if_splits)

lemma split_bounds:
  assumes "w \<in> set (all_windows art)" and "w_Name w = ''fault_degraded'' \<or> w_Name w = ''fault_recovered''"
  shows "case recovery_at art of None \<Rightarrow> False
     | Some t \<Rightarrow> lr_TInjectNs (a_Loadgen art) < t \<and> t < lr_FaultEndNs (a_Loadgen art) \<and> w_Replica w = []
         \<and> (if w_Name w = ''fault_degraded'' then w_StartNs w = lr_TInjectNs (a_Loadgen art) \<and> w_EndNs w = t
            else w_StartNs w = t \<and> w_EndNs w = lr_FaultEndNs (a_Loadgen art))"
  using assms by (cases "recovery_at art") (auto simp: all_windows_def phase_windows_def split_windows_def Let_def split: if_splits)

lemma named_window:
  assumes "analyze rnd sqrt64 h (new_artifacts cfg res) inp = (art, None)" and "map_of (a_Windows art) name = Some st"
  obtains w where "w \<in> set (all_windows art)" and "w_Name w = name" and "st_Window st = w"
    and "Collect_stats rnd sqrt64 h (rc_Collect cfg) (lr_Requests res) w = Inr st"
proof -
  from map_of_SomeD [OF assms(2)] obtain w where w: "w \<in> set (all_windows art)" "w_Name w = name"
    unfolding analyze_fields(6) [OF assms(1)] by auto
  from window_stats [OF assms(1) w(1)] w(2) assms(2) have "Collect_stats rnd sqrt64 h (rc_Collect cfg) (lr_Requests res) w = Inr st"
    by (metis option.inject)
  with w that Collect_window show thesis by blast
qed

definition demo_gates :: gate_report where
  "demo_gates = \<lparr>g_SendSkewP99Us = 0, g_SendSkewMaxUs = 0, g_SendSkewPass = True, g_Undispatched = 0, g_UndispatchedPass = True,
     g_CPUMeasured = True, g_CPUPeakPct = 0, g_CPUWorstWindowPct = 0, g_CPUPass = True, g_GCPauseP99LoMs = 0, g_GCPauseP99Ms = 0,
     g_GCPauseOpen = False, g_GCPass = True, g_Pass = True\<rparr>"

definition demo_run :: run_config where
  "demo_run = \<lparr>rc_Profile = [], rc_Pilot = False, rc_Body = [], rc_Collect = demo_collect, rc_Detector = demo_detector,
     rc_Phases = \<lparr>ph_WarmupS = 0, ph_BaselineS = 1, ph_FaultWindowTimeoutS = 1, ph_CooldownS = 0\<rparr>, rc_Variant = VariantNone,
     rc_TInjectOffsetS = 1, rc_PartitionDurationS = 0, rc_InjectionToleranceMs = 500, rc_EndpointStalenessMinS = 20,
     rc_Hosted = True, rc_Replicas = 1, rc_TTFTHistogram = [], rc_ShareMinPct = 45, rc_ShareMaxPct = 55, rc_DataplaneMode = [],
     rc_MockSchedule = None\<rparr>"

definition demo_result :: lg_result where
  "demo_result = NewResult fl demo_run 0 demo_requests demo_gates"

lemma demo_result_bounds: "lr_WarmupEndNs demo_result = 0 \<and> lr_TInjectNs demo_result = 1000000000 \<and> lr_FaultEndNs demo_result = 2000000000
    \<and> lr_Requests demo_result = demo_requests"
  by code_simp

text \<open>Claim C8. The windows of an analysed run tile it: baseline, guard and fault follow each other from the end of the
  warm-up to the end of the fault window, so that their scheduled counts add up to the requests intended in between; no
  window straddles the injection; and when the run recovered inside the fault window, the degraded and the recovered
  part add up to the fault window.\<close>

theorem run_windows_tile_the_run:
  assumes "analyze rnd sqrt64 h (new_artifacts cfg res) inp = (art, None)"
    and "lr_WarmupEndNs res \<le> lr_TInjectNs res" and "lr_TInjectNs res \<le> lr_FaultEndNs res" and "0 \<le> cc_HTTPTimeoutS (rc_Collect cfg)"
  shows "\<exists>b g f. map_of (a_Windows art) ''baseline'' = Some b \<and> map_of (a_Windows art) ''guard'' = Some g \<and> map_of (a_Windows art) ''fault'' = Some f
     \<and> st_Scheduled b + st_Scheduled g + st_Scheduled f
         = length (filter (\<lambda>r. lr_WarmupEndNs res \<le> r_IntendedNs r \<and> r_IntendedNs r < lr_FaultEndNs res) (lr_Requests res))
     \<and> (\<forall>name st. map_of (a_Windows art) name = Some st \<longrightarrow>
          w_EndNs (st_Window st) \<le> lr_TInjectNs res \<or> lr_TInjectNs res \<le> w_StartNs (st_Window st))
     \<and> (\<forall>d r. map_of (a_Windows art) ''fault_degraded'' = Some d \<longrightarrow> map_of (a_Windows art) ''fault_recovered'' = Some r \<longrightarrow>
          st_Scheduled d + st_Scheduled r = st_Scheduled f)"
proof -
  note lg = analyze_fields(2) [OF assms(1)]
  let ?b = "\<lparr>w_Name = ''baseline'', w_StartNs = lr_WarmupEndNs res, w_EndNs = guard_of art, w_Replica = []\<rparr>"
  let ?g = "\<lparr>w_Name = ''guard'', w_StartNs = guard_of art, w_EndNs = lr_TInjectNs res, w_Replica = []\<rparr>"
  let ?f = "\<lparr>w_Name = ''fault'', w_StartNs = lr_TInjectNs res, w_EndNs = lr_FaultEndNs res, w_Replica = []\<rparr>"
  have mem: "?b \<in> set (all_windows art)" "?g \<in> set (all_windows art)" "?f \<in> set (all_windows art)"
    by (simp_all add: all_windows_def phase_windows_def lg)
  obtain b g f where st: "map_of (a_Windows art) ''baseline'' = Some b" "map_of (a_Windows art) ''guard'' = Some g" "map_of (a_Windows art) ''fault'' = Some f"
    using window_stats [OF assms(1) mem(1)] window_stats [OF assms(1) mem(2)] window_stats [OF assms(1) mem(3)]
    unfolding window.simps by metis
  have gd: "lr_WarmupEndNs res \<le> guard_of art" "guard_of art \<le> lr_TInjectNs res"
    using guard_between [OF assms(2,4)] by (simp_all add: guard_of_def Let_def lg analyze_fields(1) [OF assms(1)])
  note cnt = analyzed_count [OF assms(1)]
  have b: "st_Scheduled b = length (filter (\<lambda>r. lr_WarmupEndNs res \<le> r_IntendedNs r \<and> r_IntendedNs r < guard_of art) (lr_Requests res))"
    and g: "st_Scheduled g = length (filter (\<lambda>r. guard_of art \<le> r_IntendedNs r \<and> r_IntendedNs r < lr_TInjectNs res) (lr_Requests res))"
    and f: "st_Scheduled f = length (filter (\<lambda>r. lr_TInjectNs res \<le> r_IntendedNs r \<and> r_IntendedNs r < lr_FaultEndNs res) (lr_Requests res))"
    using cnt [OF mem(1)] cnt [OF mem(2)] cnt [OF mem(3)] st by simp_all
  have "st_Scheduled b + st_Scheduled g + st_Scheduled f
      = length (filter (\<lambda>r. lr_WarmupEndNs res \<le> r_IntendedNs r \<and> r_IntendedNs r < lr_FaultEndNs res) (lr_Requests res))"
    unfolding b g f using gd assms(3) by (simp add: intended_split)
  moreover have "w_EndNs (st_Window s) \<le> lr_TInjectNs res \<or> lr_TInjectNs res \<le> w_StartNs (st_Window s)"
    if s: "map_of (a_Windows art) name = Some s" for name s
  proof (rule named_window [OF assms(1) s])
    fix w assume "w \<in> set (all_windows art)" and "st_Window s = w"
    then show ?thesis using all_windows_bounds [of w art] gd by (auto simp: lg)
  qed
  moreover have "st_Scheduled d + st_Scheduled r = st_Scheduled f"
    if d: "map_of (a_Windows art) ''fault_degraded'' = Some d" and r: "map_of (a_Windows art) ''fault_recovered'' = Some r" for d r
  proof -
    obtain w where w: "w \<in> set (all_windows art)" "w_Name w = ''fault_degraded''" using named_window [OF assms(1) d] by blast
    obtain w' where w': "w' \<in> set (all_windows art)" "w_Name w' = ''fault_recovered''" using named_window [OF assms(1) r] by blast
    from split_bounds [OF w(1)] w(2) obtain t where t: "recovery_at art = Some t" "lr_TInjectNs res < t" "t < lr_FaultEndNs res"
        "w_StartNs w = lr_TInjectNs res" "w_EndNs w = t" "w_Replica w = []"
      by (simp add: lg split: option.splits)
    from split_bounds [OF w'(1)] w'(2) t(1) have t': "w_StartNs w' = t" "w_EndNs w' = lr_FaultEndNs res" "w_Replica w' = []"
      by (simp_all add: lg)
    show ?thesis
      using cnt [OF w(1), of d] cnt [OF w'(1), of r] d r w(2) w'(2) t t' intended_split [of "lr_TInjectNs res" t "lr_FaultEndNs res" "lr_Requests res"]
      by (simp add: f)
  qed
  ultimately show ?thesis using st by blast
qed

section \<open>Failures\<close>

lemma collect_ok_within:
  assumes "\<forall>x. 0 \<le> sqrt64 x" and "\<forall>r\<in>set rs. a \<le> r_IntendedNs r \<and> r_IntendedNs r < c \<longrightarrow> recordable h r"
    and "a \<le> w_StartNs w" and "w_EndNs w \<le> c"
  shows "is_ok (Collect_stats fl sqrt64 h cfg rs w)"
  using assms(2-4) unfolding f64.Collect_ok [OF assms(1)] by (auto simp: in_window_def)

lemma split_windows_bounds: "w \<in> set (split_windows res g v t) \<Longrightarrow> lr_TInjectNs res \<le> w_StartNs w \<and> w_EndNs w \<le> lr_FaultEndNs res"
  by (auto simp: split_windows_def Let_def split: option.splits if_splits)

text \<open>An analysis that fails returns the error of a window with everything before it, marked invalid.\<close>

lemma failed_marks: "failed e art = (art', err) \<Longrightarrow> err = Some e \<and> \<not> a_RunValid art' \<and> a_InvalidReasons art' = a_InvalidReasons art @ [RunFailed e]"
  by (auto simp: failed_def)

lemma analyze_Some:
  assumes "analyze rnd sqrt64 h (new_artifacts cfg res) inp = (art, Some e)"
  shows "\<not> a_RunValid art \<and> a_InvalidReasons art = [RunFailed e]
     \<and> (\<exists>w c. (w \<in> set (phase_windows res (GuardStartNs (rc_Collect cfg) (FireAnchorNs (lr_TInjectNs res) (actual_fire res (ri_orch inp))) (lr_WarmupEndNs res)))
           \<or> lr_TInjectNs res \<le> w_StartNs w \<and> w_EndNs w \<le> lr_FaultEndNs res)
        \<and> Collect_stats rnd sqrt64 h (rc_Collect cfg) (lr_Requests res) w = Inl c \<and> e = CollectFailed (w_Name w) c)"
proof -
  define fire where "fire = actual_fire res (ri_orch inp)"
  define anchor where "anchor = FireAnchorNs (lr_TInjectNs res) fire"
  define g where "g = GuardStartNs (rc_Collect cfg) anchor (lr_WarmupEndNs res)"
  let ?C = "Collect_stats rnd sqrt64 h (rc_Collect cfg) (lr_Requests res)"
  let ?art1 = "(new_artifacts cfg res)\<lparr>a_Orchestration := ri_orch inp, a_ActualFireNs := fire\<rparr>"
  have [simp]: "a_InvalidReasons (new_artifacts cfg res) = []" by (simp add: new_artifacts_def)
  obtain ws e1 where ws: "collect_windows rnd sqrt64 h (rc_Collect cfg) (lr_Requests res) (phase_windows res g) [] = (ws, e1)" by fastforce
  note start = assms [unfolded analyze_def Let_def, simplified new_artifacts_def artifacts.simps, folded fire_def, folded anchor_def, folded g_def]
  show ?thesis
  proof (cases e1)
    case (Some x)
    then have e: "e = x" and marks: "\<not> a_RunValid art \<and> a_InvalidReasons art = [RunFailed e]"
      using start by (auto simp: ws failed_def)
    have "\<exists>w\<in>set (phase_windows res g). \<exists>c. ?C w = Inl c \<and> x = CollectFailed (w_Name w) c"
      by (rule collect_windows_cause [where acc = "[]" and rnd = rnd and h = h]) (simp add: ws Some)
    with e marks show ?thesis unfolding g_def anchor_def fire_def by blast
  next
    case None
    obtain bs where bs: "BuildSeries (cc_SLO (rc_Collect cfg)) (lr_Requests res) (lr_WarmupEndNs res) (lr_RunEndNs res) = Some bs"
      using BuildSeries_total by blast
    have wsn: "ws = map (\<lambda>w. (w_Name w, projr (?C w))) (phase_windows res g)" and ok: "\<forall>w\<in>set (phase_windows res g). is_ok (?C w)"
      using collect_windows_Some [OF ws [unfolded None]] by simp_all
    define b where "b = projr (?C (phase_windows res g ! 0))"
    define f where "f = projr (?C (phase_windows res g ! 2))"
    have bf: "map_of ws ''baseline'' = Some b" "map_of ws ''fault'' = Some f" unfolding wsn b_def f_def by (simp_all add: phase_windows_def)
    have "is_ok (?C (phase_windows res g ! 2))" using ok by (simp add: phase_windows_def)
    then have "length (st_RawE2EUs f) = length (st_RawTTFTUs f)" unfolding f_def is_ok_iff using Collect_raw_lengths by fastforce
    then obtain ta where ta: "AnalyzeThresholds rnd sqrt64 (rc_Collect cfg) b f = Some ta" using AnalyzeThresholds_total by blast
    define det where "det = RunWith rnd (rc_Collect cfg) (rc_Detector cfg)
       \<lparr>in_Buckets = bs, in_WarmupEndNs = lr_WarmupEndNs res, in_FireAnchorNs = anchor, in_TimeoutNs = lr_FaultEndNs res,
        in_PreFaultBaseline = (if 0 < st_Scheduled b then Some (st_GoodputFrac b) else None), in_HealNs = heal_ns cfg res (ri_orch inp) anchor\<rparr>"
    let ?split = "split_windows res g (ri_victim inp) (d_RecoveredAtNs (labelled_recovery det))"
    obtain ws2 e2 where ws2: "collect_windows rnd sqrt64 h (rc_Collect cfg) (lr_Requests res) ?split ws = (ws2, e2)" by fastforce
    note step = start [unfolded ws None prod.case option.case bs bf, folded det_def, unfolded ws2 prod.case]
    obtain x where x: "e2 = Some x" using step by (cases e2) (simp_all add: ta)
    have e: "e = x" and marks: "\<not> a_RunValid art \<and> a_InvalidReasons art = [RunFailed e]"
      using step by (auto simp: x failed_def)
    have "\<exists>w\<in>set ?split. \<exists>c. ?C w = Inl c \<and> x = CollectFailed (w_Name w) c"
      by (rule collect_windows_cause [where acc = ws and rnd = rnd and h = h]) (simp add: ws2 x)
    with e marks show ?thesis using split_windows_bounds by blast
  qed
qed

text \<open>Claim C22. An analysis of a run fails exactly when a request intended between the end of the warm-up and the end of
  the fault window did not end in one of the three outcomes with recordable latencies. It never panics, in the analysis or
  in a window's statistics: every failure is a window's error that names what is wrong with such a request, its latency or
  its outcome. A failed run is returned as invalid with the failure as its one reason.\<close>

theorem analysis_fails_only_on_unrecordable:
  assumes "\<forall>x. 0 \<le> sqrt64 x" and "lr_WarmupEndNs res \<le> lr_TInjectNs res" and "lr_TInjectNs res \<le> lr_FaultEndNs res"
    and "0 \<le> cc_HTTPTimeoutS (rc_Collect cfg)" and "analyze fl sqrt64 h (new_artifacts cfg res) inp = (art, err)"
  shows "(err = None \<longleftrightarrow> (\<forall>r\<in>set (lr_Requests res). lr_WarmupEndNs res \<le> r_IntendedNs r \<and> r_IntendedNs r < lr_FaultEndNs res \<longrightarrow> recordable h r))
     \<and> (\<forall>e. err = Some e \<longrightarrow> \<not> a_RunValid art \<and> a_InvalidReasons art = [RunFailed e]
          \<and> (\<exists>w c. e = CollectFailed w c \<and> c \<noteq> EPanic
               \<and> (\<exists>r\<in>set (lr_Requests res). lr_WarmupEndNs res \<le> r_IntendedNs r \<and> r_IntendedNs r < lr_FaultEndNs res \<and> explains h r c)))"
proof (cases err)
  case None
  let ?g = "guard_of art"
  note ok = assms(5) [unfolded None]
  note lg = analyze_fields(2) [OF ok]
  let ?C = "Collect_stats fl sqrt64 h (rc_Collect cfg) (lr_Requests res)"
  have gd: "lr_WarmupEndNs res \<le> ?g" "?g \<le> lr_TInjectNs res"
    using guard_between [OF assms(2,4)] by (simp_all add: guard_of_def Let_def lg analyze_fields(1) [OF ok])
  have each: "\<forall>r\<in>set (lr_Requests res). in_window w r \<longrightarrow> recordable h r" if "w \<in> set (phase_windows res ?g)" for w
  proof -
    have "w \<in> set (all_windows art)" using that by (simp add: all_windows_def lg)
    with analyze_fields(7) [OF ok] have "is_ok (?C w)" by blast
    then show ?thesis unfolding f64.Collect_ok [OF assms(1)] .
  qed
  have "recordable h r" if "r \<in> set (lr_Requests res)" "lr_WarmupEndNs res \<le> r_IntendedNs r" "r_IntendedNs r < lr_FaultEndNs res" for r
  proof -
    have "\<exists>w\<in>set (phase_windows res ?g). in_window w r"
      using that gd assms(3) by (auto simp: phase_windows_def in_window_def)
    with each that(1) show ?thesis by blast
  qed
  with None show ?thesis by blast
next
  case (Some e)
  let ?g = "GuardStartNs (rc_Collect cfg) (FireAnchorNs (lr_TInjectNs res) (actual_fire res (ri_orch inp))) (lr_WarmupEndNs res)"
  note an = analyze_Some [OF assms(5) [unfolded Some]]
  then obtain w c where w: "w \<in> set (phase_windows res ?g) \<or> lr_TInjectNs res \<le> w_StartNs w \<and> w_EndNs w \<le> lr_FaultEndNs res"
    and inl: "Collect_stats fl sqrt64 h (rc_Collect cfg) (lr_Requests res) w = Inl c" and e: "e = CollectFailed (w_Name w) c" by blast
  have bad: "\<not> is_ok (Collect_stats fl sqrt64 h (rc_Collect cfg) (lr_Requests res) w)" by (simp add: inl)
  have "lr_WarmupEndNs res \<le> w_StartNs w \<and> w_EndNs w \<le> lr_FaultEndNs res"
    using w guard_between [OF assms(2,4), of "actual_fire res (ri_orch inp)"] assms(2,3) by (auto simp: phase_windows_def)
  note within = this
  then have "\<not> (\<forall>r\<in>set (lr_Requests res). lr_WarmupEndNs res \<le> r_IntendedNs r \<and> r_IntendedNs r < lr_FaultEndNs res \<longrightarrow> recordable h r)"
    using collect_ok_within [OF assms(1)] bad by blast
  moreover obtain r where r: "r \<in> set (lr_Requests res)" "in_window w r" "explains h r c" using Collect_error [OF assms(1) inl] by blast
  then have "lr_WarmupEndNs res \<le> r_IntendedNs r \<and> r_IntendedNs r < lr_FaultEndNs res" using within by (auto simp: in_window_def)
  moreover have "c \<noteq> EPanic" using r(3) by auto
  ultimately show ?thesis using an Some e r by blast
qed

definition demo_inputs :: run_inputs where
  "demo_inputs = \<lparr>ri_orch = None, ri_victim = [], ri_probes = [], ri_scheduleFired = None\<rparr>"

lemma demo_recordable: "\<forall>r\<in>set demo_requests. recordable demo_hist r"
  by code_simp

theorem analysis_fails_only_on_unrecordable_witness:
  "snd (analyze fl (\<lambda>x. 1) demo_hist (new_artifacts demo_run demo_result) demo_inputs) = None
   \<and> snd (analyze fl (\<lambda>x. 1) demo_hist (new_artifacts demo_run (demo_result\<lparr>lr_Requests := [zero_request]\<rparr>)) demo_inputs) \<noteq> None
   \<and> \<not> a_RunValid (fst (analyze fl (\<lambda>x. 1) demo_hist (new_artifacts demo_run (demo_result\<lparr>lr_Requests := [zero_request]\<rparr>)) demo_inputs))"
proof -
  have t: "0 \<le> cc_HTTPTimeoutS (rc_Collect demo_run)" by code_simp
  have "\<not> recordable demo_hist zero_request" by code_simp
  then show ?thesis
    using analysis_fails_only_on_unrecordable [of "\<lambda>x. 1" demo_result demo_run demo_hist demo_inputs
        "fst (analyze fl (\<lambda>x. 1) demo_hist (new_artifacts demo_run demo_result) demo_inputs)"
        "snd (analyze fl (\<lambda>x. 1) demo_hist (new_artifacts demo_run demo_result) demo_inputs)"]
      analysis_fails_only_on_unrecordable [of "\<lambda>x. 1" "demo_result\<lparr>lr_Requests := [zero_request]\<rparr>" demo_run demo_hist demo_inputs
        "fst (analyze fl (\<lambda>x. 1) demo_hist (new_artifacts demo_run (demo_result\<lparr>lr_Requests := [zero_request]\<rparr>)) demo_inputs)"
        "snd (analyze fl (\<lambda>x. 1) demo_hist (new_artifacts demo_run (demo_result\<lparr>lr_Requests := [zero_request]\<rparr>)) demo_inputs)"]
      demo_recordable t by (auto simp: demo_result_bounds zero_request_def)
qed

lemma demo_analyzes:
  obtains art where "analyze fl (\<lambda>x. 1) demo_hist (new_artifacts demo_run demo_result) demo_inputs = (art, None)"
proof -
  obtain art err where an: "analyze fl (\<lambda>x. 1) demo_hist (new_artifacts demo_run demo_result) demo_inputs = (art, err)" by fastforce
  have "is_ok (Collect_stats fl (\<lambda>x. 1) demo_hist (rc_Collect demo_run) (lr_Requests demo_result) w)" for w
    using demo_recordable by (simp add: f64.Collect_ok demo_result_bounds)
  then have ok: "Collect_stats fl (\<lambda>x. 1) demo_hist (rc_Collect demo_run) (lr_Requests demo_result) w \<noteq> Inl c" for w c
    by (metis is_ok.simps(1))
  have "err = None" using analyze_Some an ok by (cases err) blast+
  with an that show thesis by blast
qed

theorem run_windows_tile_the_run_witness:
  "\<exists>art b g f. analyze fl (\<lambda>x. 1) demo_hist (new_artifacts demo_run demo_result) demo_inputs = (art, None)
     \<and> map_of (a_Windows art) ''baseline'' = Some b \<and> map_of (a_Windows art) ''guard'' = Some g \<and> map_of (a_Windows art) ''fault'' = Some f
     \<and> st_Scheduled b + st_Scheduled g + st_Scheduled f = 2"
proof -
  have t: "0 \<le> cc_HTTPTimeoutS (rc_Collect demo_run)" by code_simp
  have n: "length (filter (\<lambda>r. 0 \<le> r_IntendedNs r \<and> r_IntendedNs r < 2000000000) demo_requests) = 2" by code_simp
  obtain art where an: "analyze fl (\<lambda>x. 1) demo_hist (new_artifacts demo_run demo_result) demo_inputs = (art, None)" by (rule demo_analyzes)
  from run_windows_tile_the_run [OF an] t show ?thesis using an by (auto simp: demo_result_bounds n)
qed

section \<open>The share gate\<close>

lemma replica_counts_fold:
  "map_of (foldl (\<lambda>m r. count_up (r_Replica r) m) m rs) rep =
     (let c = length (filter (\<lambda>r. r_Replica r = rep) rs) in if c = 0 then map_of m rep else Some (c + (case map_of m rep of None \<Rightarrow> 0 | Some n \<Rightarrow> n)))"
  "set (map fst (foldl (\<lambda>m r. count_up (r_Replica r) m) m rs)) = set (map fst m) \<union> r_Replica ` set rs"
  "distinct (map fst m) \<Longrightarrow> distinct (map fst (foldl (\<lambda>m r. count_up (r_Replica r) m) m rs))"
proof (induction rs arbitrary: m)
  case (Cons r rs)
  { case 1 show ?case by (simp add: Cons.IH(1) count_up_lookup Let_def split: option.splits) }
  { case 2 show ?case using Cons.IH(2) [of "count_up (r_Replica r) m"] count_up_keys(1) [of "r_Replica r" m] by simp }
  { case 3 then show ?case using Cons.IH(3) [OF count_up_keys(2)] by simp }
qed simp_all

lemma replica_counts_spec:
  shows "(rep, c) \<in> set (replica_counts rs) \<longleftrightarrow> rep \<in> r_Replica ` set rs \<and> c = length (filter (\<lambda>r. r_Replica r = rep) rs)"
    and "length (replica_counts rs) = card (r_Replica ` set rs)"
    and "distinct (map fst (replica_counts rs))"
proof -
  let ?m = "replica_counts rs"
  show d: "distinct (map fst ?m)" unfolding replica_counts_def by (rule replica_counts_fold(3)) simp
  have keys: "set (map fst ?m) = r_Replica ` set rs" unfolding replica_counts_def using replica_counts_fold(2) [of "[]" rs] by simp
  have "length ?m = card (set (map fst ?m))" using distinct_card [OF d] by simp
  then show "length ?m = card (r_Replica ` set rs)" unfolding keys .
  have "(rep, c) \<in> set ?m \<longleftrightarrow> map_of ?m rep = Some c" using map_of_eq_Some_iff [OF d] by blast
  also have "\<dots> \<longleftrightarrow> rep \<in> r_Replica ` set rs \<and> c = length (filter (\<lambda>r. r_Replica r = rep) rs)"
    unfolding replica_counts_def replica_counts_fold(1) by (auto simp: Let_def filter_empty_conv)
  finally show "(rep, c) \<in> set ?m \<longleftrightarrow> rep \<in> r_Replica ` set rs \<and> c = length (filter (\<lambda>r. r_Replica r = rep) rs)" .
qed

text \<open>Claim C23. On a self-hosted target of several replicas the share gate passes exactly when the baseline requests that name
  their replica, those intended from the end of the warm-up up to the guard, name as many replicas as the target has and,
  where the dataplane balances per request, every replica's share of them, in float64, lies between the configured
  percentages, both included. On another dataplane no share fails the gate. With no such request it fails, and the victim's
  share is reported with the rest. On a hosted or single-replica target the gate does not apply and passes.\<close>

theorem share_gate_passes_iff:
  fixes cfg :: run_config and res :: lg_result and guardNs :: int and victim :: string
  defines "rs \<equiv> filter (\<lambda>r. lr_WarmupEndNs res \<le> r_IntendedNs r \<and> r_IntendedNs r < guardNs \<and> r_Replica r \<noteq> []) (lr_Requests res)"
  defines "shr \<equiv> \<lambda>rep. fl (fl (of_nat (length (filter (\<lambda>r. r_Replica r = rep) rs))) / fl (of_nat (length rs)))"
  defines "gate \<equiv> shareGate fl cfg res guardNs victim"
  shows "(sh_Applicable gate \<longleftrightarrow> \<not> rc_Hosted cfg \<and> 2 \<le> rc_Replicas cfg) \<and> (\<not> sh_Applicable gate \<longrightarrow> sh_Pass gate)
     \<and> (sh_Applicable gate \<longrightarrow>
         (sh_Pass gate \<longleftrightarrow> rs \<noteq> [] \<and> int (card (r_Replica ` set rs)) = rc_Replicas cfg
            \<and> (rc_DataplaneMode cfg \<in> {''l7-envoy-cilium-ingress'', ''l7-gateway-api''} \<longrightarrow>
                (\<forall>rep\<in>r_Replica ` set rs. fl (fl (of_int (rc_ShareMinPct cfg)) / 100) \<le> shr rep
                   \<and> shr rep \<le> fl (fl (of_int (rc_ShareMaxPct cfg)) / 100)))))
     \<and> (sh_Applicable gate \<longrightarrow> sh_VictimShareAtInject gate = (if victim \<in> r_Replica ` set rs then shr victim else 0))"
proof -
  have rs: "filter (in_baseline (lr_WarmupEndNs res) guardNs) (lr_Requests res) = rs"
    unfolding rs_def by (rule filter_cong) (auto simp: in_baseline_def)
  let ?shares = "map (\<lambda>(rep, c). (rep, fl (fl (of_nat c) / fl (of_nat (length rs))))) (replica_counts rs)"
  have mem: "(rep, x) \<in> set ?shares \<longleftrightarrow> rep \<in> r_Replica ` set rs \<and> x = shr rep" for rep x
  proof -
    have "(rep, x) \<in> set ?shares \<longleftrightarrow> (\<exists>c. (rep, c) \<in> set (replica_counts rs) \<and> x = fl (fl (of_nat c) / fl (of_nat (length rs))))" by auto
    then show ?thesis unfolding replica_counts_spec(1) by (auto simp: shr_def)
  qed
  have "list_ex (\<lambda>(rep, s). out_of_band fl cfg s) ?shares \<longleftrightarrow> (\<exists>rep x. (rep, x) \<in> set ?shares \<and> out_of_band fl cfg x)"
    unfolding list_ex_iff by fast
  then have band: "\<not> list_ex (\<lambda>(rep, s). out_of_band fl cfg s) ?shares \<longleftrightarrow>
      (\<forall>rep\<in>r_Replica ` set rs. fl (fl (of_int (rc_ShareMinPct cfg)) / 100) \<le> shr rep \<and> shr rep \<le> fl (fl (of_int (rc_ShareMaxPct cfg)) / 100))"
    unfolding mem by (auto simp: out_of_band_def not_less)
  have "distinct (map fst ?shares)" using replica_counts_spec(3) [of rs] by (simp add: comp_def split_beta)
  then have look: "map_of ?shares v = (if v \<in> r_Replica ` set rs then Some (shr v) else None)" for v
    using mem [of v] map_of_eq_Some_iff [of ?shares v] by (cases "map_of ?shares v") auto
  have named: "[] \<notin> r_Replica ` set rs" by (auto simp: rs_def)
  have per: "BalancesPerRequest (rc_DataplaneMode cfg) \<longleftrightarrow> rc_DataplaneMode cfg \<in> {''l7-envoy-cilium-ingress'', ''l7-gateway-api''}"
    by (simp add: BalancesPerRequest_def)
  have gate: "gate = (if rc_Hosted cfg then no_share\<lparr>sh_Pass := True\<rparr> else if rc_Replicas cfg < 2 then no_share\<lparr>sh_Pass := True\<rparr>
      else if length rs = 0 then no_share\<lparr>sh_Applicable := True\<rparr>
      else \<lparr>sh_Applicable = True, sh_Shares = ?shares, sh_BandEnforced = BalancesPerRequest (rc_DataplaneMode cfg),
             sh_VictimShareAtInject = (if victim \<noteq> [] then (case map_of ?shares victim of None \<Rightarrow> 0 | Some s \<Rightarrow> s) else 0),
             sh_Pass = (\<not> (list_ex (\<lambda>(rep, s). out_of_band fl cfg s) ?shares \<and> BalancesPerRequest (rc_DataplaneMode cfg))
                        \<and> int (length (replica_counts rs)) = rc_Replicas cfg)\<rparr>)"
    unfolding gate_def shareGate_def Let_def rs ..
  show ?thesis
    unfolding gate look replica_counts_spec(2) de_Morgan_conj band per [symmetric] using named by (auto simp: no_share_def)
qed

definition demo_shares :: "string list \<Rightarrow> lg_result" where
  "demo_shares names = demo_result\<lparr>lr_Requests := map (\<lambda>name. zero_request\<lparr>r_Replica := name\<rparr>) names\<rparr>"

definition demo_pair :: "string \<Rightarrow> run_config" where
  "demo_pair mode = demo_run\<lparr>rc_Hosted := False, rc_Replicas := 2, rc_DataplaneMode := mode\<rparr>"

theorem share_gate_passes_iff_witness:
  "sh_Pass (shareGate fl (demo_pair ''l7-gateway-api'') (demo_shares [''a'', ''b'', []]) 1 ''b'')
   \<and> sh_VictimShareAtInject (shareGate fl (demo_pair ''l7-gateway-api'') (demo_shares [''a'', ''b'', []]) 1 ''b'') = 1 / 2
   \<and> \<not> sh_Pass (shareGate fl (demo_pair ''l7-gateway-api'') (demo_shares [''a'', ''a'', ''b'']) 1 ''b'')
   \<and> sh_Pass (shareGate fl (demo_pair ''l4'') (demo_shares [''a'', ''a'', ''b'']) 1 ''b'')
   \<and> \<not> sh_Pass (shareGate fl (demo_pair ''l4'') (demo_shares [''a'', ''a'']) 1 ''b'')"
proof -
  have rs: "filter (\<lambda>r. lr_WarmupEndNs (demo_shares names) \<le> r_IntendedNs r \<and> r_IntendedNs r < 1 \<and> r_Replica r \<noteq> []) (lr_Requests (demo_shares names))
      = map (\<lambda>name. zero_request\<lparr>r_Replica := name\<rparr>) (filter (\<lambda>n. n \<noteq> []) names)" for names
    using demo_result_bounds by (simp add: demo_shares_def filter_map comp_def zero_request_def)
  have cfg: "rc_Hosted (demo_pair m) = False" "rc_Replicas (demo_pair m) = 2" "rc_ShareMinPct (demo_pair m) = 45"
    "rc_ShareMaxPct (demo_pair m) = 55" "rc_DataplaneMode (demo_pair m) = m" for m by (simp_all add: demo_pair_def demo_run_def)
  have f: "fl (fl 1 / fl 2) = 1 / 2" "fl (fl 45 / 100) \<le> 1 / 2" "1 / 2 \<le> fl (fl 55 / 100)" "fl (fl 55 / 100) < fl (fl 2 / fl 3)"
    "fl 2 = 2" "fl 3 = 3" by code_simp+
  note iff = share_gate_passes_iff [of "demo_pair m" "demo_shares names" 1 "''b''" for m names, unfolded rs cfg]
  show ?thesis
    using iff [of "''l7-gateway-api''" "[''a'', ''b'', []]"] iff [of "''l7-gateway-api''" "[''a'', ''a'', ''b'']"]
      iff [of "''l4''" "[''a'', ''a'', ''b'']"] iff [of "''l4''" "[''a'', ''a'']"] f
    by (auto simp: numeral_2_eq_2 [symmetric] numeral_3_eq_3 [symmetric])
qed

end
