(* ===== verification/Replay.thy ===== *)
theory Replay
  imports RunAnalysis
begin

text \<open>
  The loopback canary's summary (\<^verbatim>\<open>internal/loadgen/canary.go\<close>), the observations attached to a run
  (\<open>AttachObservations\<close>, \<open>attach\<close> of \<^verbatim>\<open>internal/run/run.go\<close>) and the replay of a hosted run from its published
  record (\<^verbatim>\<open>internal/run/replay.go\<close>). \<open>server\<close> gives the reductions of the kept metric families over a window,
  empty when no sample has a family. \<open>strip\<close> is a request as the record publishes it: without its inter-token gaps.
\<close>

section \<open>The canary\<close>

record canary_stream =
  cy_StartNs :: int
  cy_Outcome :: outcome
  cy_TTFTUs :: int
  cy_ITLsUs :: "int list"

definition orderStat :: "int list \<Rightarrow> int \<Rightarrow> int option" where
  "orderStat sorted_xs pct =
     (let i = (int (length sorted_xs) * pct + 99) div 100 in go_nth sorted_xs ((if i < 1 then 1 else i) - 1))"

text \<open>The lag of each event behind its nominal time: the first token, then every gap.\<close>

fun event_lags :: "int \<Rightarrow> int \<Rightarrow> int list \<Rightarrow> int list" where
  "event_lags t i [] = []"
| "event_lags t i (g # gs) = (t + g - (20 + (i + 1) * 10) * 1000) # event_lags (t + g) (i + 1) gs"

definition tail_of :: "int list \<Rightarrow> int \<Rightarrow> (int \<times> int) option" where
  "tail_of xs pct =
     (if xs = [] then Some (0, 0)
      else case (orderStat (sort xs) pct, go_nth (sort xs) (int (length xs) - 1)) of
        (Some p, Some m) \<Rightarrow> Some (p, m) | _ \<Rightarrow> None)"

definition SummarizeCanary :: "canary_stream list \<Rightarrow> int \<Rightarrow> int \<Rightarrow> canary_summary option" where
  "SummarizeCanary streams startNs endNs =
     (let win = filter (\<lambda>s. startNs \<le> cy_StartNs s \<and> cy_StartNs s < endNs) streams;
          ok = filter (\<lambda>s. cy_Outcome s = OutcomeCompleted) win;
          ttft = map (\<lambda>s. cy_TTFTUs s - 20 * 1000) ok;
          itl = concat (map (\<lambda>s. map (\<lambda>g. g - 10 * 1000) (cy_ITLsUs s)) ok);
          lag = concat (map (\<lambda>s. (cy_TTFTUs s - 20 * 1000) # event_lags (cy_TTFTUs s) 0 (cy_ITLsUs s)) ok)
      in case (tail_of ttft 50, tail_of itl 50, tail_of itl 99, tail_of lag 99) of
           (Some (t50, tmax), Some (i50, imax), Some (i99, _), Some (l99, lmax)) \<Rightarrow>
             Some \<lparr>cn_Streams = int (length win), cn_Completed = int (length ok), cn_TTFTDevP50Us = t50, cn_TTFTDevMaxUs = tmax,
               cn_ITLDevP50Us = i50, cn_ITLDevP99Us = i99, cn_ITLDevMaxUs = imax, cn_EventLagP99Us = l99, cn_EventLagMaxUs = lmax\<rparr>
         | _ \<Rightarrow> None)"

section \<open>Attached observations\<close>

definition attach :: "(rat \<Rightarrow> rat) \<Rightarrow> (window \<Rightarrow> server_side) \<Rightarrow> string \<Rightarrow> string \<Rightarrow> (window \<Rightarrow> canary_summary option)
    \<Rightarrow> artifacts \<Rightarrow> artifacts" where
  "attach rnd server ttftFamily canaryError canary art =
     art\<lparr>a_ReceivePath :=
       map (\<lambda>(name, st). (name, (ReceivePathFor rnd st (server (st_Window st)) ttftFamily (canary (st_Window st)))\<lparr>rp_CanaryError := canaryError\<rparr>))
         (filter (\<lambda>(name, st). w_Replica (st_Window st) = []) (a_Windows art))\<rparr>"

text \<open>No streams is the absent canary.\<close>

definition AttachObservations :: "(rat \<Rightarrow> rat) \<Rightarrow> (window \<Rightarrow> server_side) \<Rightarrow> string \<Rightarrow> string \<Rightarrow> canary_stream list option
    \<Rightarrow> artifacts \<Rightarrow> artifacts" where
  "AttachObservations rnd server ttftFamily canaryErr streams art =
     attach rnd server ttftFamily canaryErr
       (\<lambda>w. case streams of None \<Rightarrow> None | Some ss \<Rightarrow> SummarizeCanary ss (w_StartNs w) (w_EndNs w)) art"

section \<open>The record and its replay\<close>

record window_record =
  wr_Window :: window
  wr_ITLPooled :: hist_summary
  wr_Canary :: "canary_summary option"

record run_record =
  rr_ClientGates :: gate_report
  rr_Windows :: "window_record list"
  rr_CanaryError :: string

definition window_record_of :: "artifacts \<Rightarrow> string \<Rightarrow> window_record list" where
  "window_record_of art name =
     (case map_of (a_Windows art) name of
        None \<Rightarrow> []
      | Some st \<Rightarrow> [\<lparr>wr_Window = st_Window st, wr_ITLPooled = st_ITLPooled st,
          wr_Canary = (case map_of (a_ReceivePath art) name of None \<Rightarrow> None | Some rp \<Rightarrow> rp_Canary rp)\<rparr>])"

definition Record :: "artifacts \<Rightarrow> run_record" where
  "Record art =
     (let names = sort (map fst (a_Windows art))
      in \<lparr>rr_ClientGates = lr_Gates (a_Loadgen art),
          rr_Windows = concat (map (window_record_of art) names),
          rr_CanaryError = foldl (\<lambda>e name. case map_of (a_ReceivePath art) name of
              None \<Rightarrow> e
            | Some rp \<Rightarrow> if rp_CanaryError rp \<noteq> [] then rp_CanaryError rp else e) [] names\<rparr>)"

definition gapCount :: "request list \<Rightarrow> window \<Rightarrow> int" where
  "gapCount rs w =
     sum_list (map (\<lambda>r. if r_Outcome r = OutcomeCompleted \<and> 1 < r_Tokens r then r_Tokens r - 1 else 0) (filter (in_window w) rs))"

datatype replay_error = NotHosted | AnalyzeFailed run_error | WindowCount nat nat | NotAWindow window | GapMismatch string int int

fun replay_windows :: "request list \<Rightarrow> window_record list \<Rightarrow> (string \<times> window_record) list \<Rightarrow> (string \<times> collect_stats) list
    \<Rightarrow> replay_error + (string \<times> window_record) list \<times> (string \<times> collect_stats) list" where
  "replay_windows rs [] byName ws = Inr (byName, ws)"
| "replay_windows rs (w # rest) byName ws =
     (let win = wr_Window w; name = w_Name win
      in case map_of ws name of
           None \<Rightarrow> Inl (NotAWindow win)
         | Some st \<Rightarrow>
             if st_Window st \<noteq> win \<or> map_of byName name \<noteq> None then Inl (NotAWindow win)
             else if h_Count (wr_ITLPooled w) \<noteq> gapCount rs win then Inl (GapMismatch name (h_Count (wr_ITLPooled w)) (gapCount rs win))
             else replay_windows rs rest ((name, w) # byName) (AList.update name (st\<lparr>st_ITLPooled := wr_ITLPooled w\<rparr>) ws))"

definition no_inputs :: run_inputs where
  "no_inputs = \<lparr>ri_orch = None, ri_victim = [], ri_probes = [], ri_scheduleFired = None\<rparr>"

definition Replay :: "(rat \<Rightarrow> rat) \<Rightarrow> (rat \<Rightarrow> rat) \<Rightarrow> hist \<Rightarrow> run_config \<Rightarrow> int \<Rightarrow> request list \<Rightarrow> run_record
    \<Rightarrow> replay_error + artifacts" where
  "Replay rnd sqrt64 h cfg epoch rs rec =
     (if \<not> rc_Hosted cfg then Inl NotHosted
      else case analyze rnd sqrt64 h (new_artifacts cfg (NewResult rnd cfg epoch rs (rr_ClientGates rec))) no_inputs of
        (art, Some e) \<Rightarrow> Inl (AnalyzeFailed e)
      | (art, None) \<Rightarrow>
          if length (rr_Windows rec) \<noteq> length (a_Windows art)
          then Inl (WindowCount (length (rr_Windows rec)) (length (a_Windows art)))
          else case replay_windows rs (rr_Windows rec) [] (a_Windows art) of
            Inl e \<Rightarrow> Inl e
          | Inr (byName, ws) \<Rightarrow>
              Inr (attach rnd (\<lambda>w. []) (rc_TTFTHistogram cfg) (rr_CanaryError rec)
                     (\<lambda>w. case map_of byName (w_Name w) of None \<Rightarrow> None | Some wr \<Rightarrow> wr_Canary wr)
                     (art\<lparr>a_Windows := ws\<rparr>)))"

section \<open>A request without its gaps\<close>

definition strip :: "request \<Rightarrow> request" where
  "strip r = r\<lparr>r_ITLsUs := []\<rparr>"

lemma strip_fields [simp]:
  "r_IntendedNs (strip r) = r_IntendedNs r" "r_DispatchNs (strip r) = r_DispatchNs r" "r_DoneNs (strip r) = r_DoneNs r"
  "r_Outcome (strip r) = r_Outcome r" "r_ErrClass (strip r) = r_ErrClass r" "r_Tokens (strip r) = r_Tokens r" "r_Index (strip r) = r_Index r"
  "r_CompletionTokens (strip r) = r_CompletionTokens r" "r_UsageSeen (strip r) = r_UsageSeen r" "r_Replica (strip r) = r_Replica r"
  "r_ITLsUs (strip r) = []" "TTFTNs (strip r) = TTFTNs r" "E2ENs (strip r) = E2ENs r"
  "in_window w (strip r) = in_window w r" "meets_cell (strip r) te = meets_cell r te" "meetsSLO cc (strip r) = meetsSLO cc r"
  "in_flight_at t (strip r) = in_flight_at t r" "in_baseline a b (strip r) = in_baseline a b r"
  by (simp_all add: strip_def TTFTNs_def E2ENs_def in_window_def meets_cell_def meetsSLO_def in_flight_at_def in_baseline_def)

lemma add_request_strip:
  assumes "add_request h cfg r a = Inr a'"
  shows "add_request h cfg (strip r) (a\<lparr>k_itl := x\<rparr>) = Inr (a'\<lparr>k_itl := x\<rparr>)"
  using assms by (auto simp: add_request_def add_completed_def Let_def split: outcome.splits if_splits)

lemma collect_loop_strip:
  "collect_loop h cfg w rs a = Inr a' \<Longrightarrow> collect_loop h cfg w (map strip rs) (a\<lparr>k_itl := x\<rparr>) = Inr (a'\<lparr>k_itl := x\<rparr>)"
proof (induction rs arbitrary: a)
  case (Cons r rs)
  show ?case
  proof (cases "in_window w r")
    case True
    with Cons.prems obtain a1 where a1: "add_request h cfg r a = Inr a1" "collect_loop h cfg w rs a1 = Inr a'"
      by (auto split: sum.splits)
    from add_request_strip [OF a1(1)] Cons.IH [OF a1(2)] True show ?thesis by simp
  next
    case False
    with Cons show ?thesis by simp
  qed
qed simp

abbreviation no_gaps :: "hist \<Rightarrow> collect_stats \<Rightarrow> collect_stats" where
  "no_gaps h st \<equiv> st\<lparr>st_ITLPooled := hist_summarize h []\<rparr>"

lemma Collect_strip:
  assumes "Collect_stats rnd sqrt64 h cfg rs w = Inr st"
  shows "Collect_stats rnd sqrt64 h cfg (map strip rs) w = Inr (no_gaps h st)"
proof -
  obtain a where a: "collect_loop h cfg w rs (zero_acc cfg) = Inr a" using assms by (rule Collect_statsD)
  have z: "(zero_acc cfg)\<lparr>k_itl := []\<rparr> = zero_acc cfg" by (simp add: zero_acc_def)
  from collect_loop_strip [OF a, of "[]"] have "collect_loop h cfg w (map strip rs) (zero_acc cfg) = Inr (a\<lparr>k_itl := []\<rparr>)" unfolding z .
  with assms a show ?thesis by (auto simp: Collect_stats_def Let_def split: option.splits)
qed

lemma add_request_gaps:
  assumes "add_request h cfg r a = Inr a'"
  shows "length (k_itl a') = length (k_itl a) + (if completed r then length (r_ITLsUs r) else 0)"
  using assms by (auto simp: add_request_def add_completed_def Let_def split: outcome.splits if_splits)

lemma collect_loop_gaps:
  "collect_loop h cfg w rs a = Inr a' \<Longrightarrow> (\<forall>r\<in>set rs. completed r \<longrightarrow> int (length (r_ITLsUs r)) = (if 1 < r_Tokens r then r_Tokens r - 1 else 0)) \<Longrightarrow>
     int (length (k_itl a')) = int (length (k_itl a)) + gapCount rs w"
proof (induction rs arbitrary: a)
  case (Cons r rs)
  show ?case
  proof (cases "in_window w r")
    case True
    with Cons.prems obtain a1 where a1: "add_request h cfg r a = Inr a1" "collect_loop h cfg w rs a1 = Inr a'"
      by (auto split: sum.splits)
    from Cons.IH [OF a1(2)] Cons.prems(2) add_request_gaps [OF a1(1)] True show ?thesis by (auto simp: gapCount_def)
  next
    case False
    with Cons show ?thesis by (simp add: gapCount_def)
  qed
qed (simp add: gapCount_def)

lemma Collect_gaps:
  assumes "Collect_stats rnd sqrt64 h cfg rs w = Inr st" and "\<And>xs. h_Count (hist_summarize h xs) = int (length xs)"
    and "\<forall>r\<in>set rs. completed r \<longrightarrow> int (length (r_ITLsUs r)) = (if 1 < r_Tokens r then r_Tokens r - 1 else 0)"
  shows "h_Count (st_ITLPooled st) = gapCount rs w"
proof -
  obtain a where a: "collect_loop h cfg w rs (zero_acc cfg) = Inr a" using assms(1) by (rule Collect_statsD)
  then have "st_ITLPooled st = hist_summarize h (k_itl a)" using assms(1) by (auto simp: Collect_stats_def Let_def split: option.splits)
  with collect_loop_gaps [OF a assms(3)] assms(2) show ?thesis by (simp add: zero_acc_def)
qed

lemma gapCount_strip: "gapCount (map strip rs) w = gapCount rs w"
  by (induction rs) (simp_all add: gapCount_def)

lemma add_outcome_strip: "add_outcome (strip r) = add_outcome r"
  unfolding add_outcome_def strip_fields ..

lemma account_one_strip: "account_one v acc (strip r) = account_one v acc r"
  unfolding account_one_def add_outcome_strip strip_fields ..

lemma AccountInFlight_strip: "AccountInFlight (map strip rs) t v = AccountInFlight rs t v"
  unfolding AccountInFlight_def foldl_map account_one_strip strip_fields ..

lemma add_to_bucket_strip: "add_to_bucket slo (strip r) b = add_to_bucket slo r b"
  unfolding add_to_bucket_def strip_fields ..

lemma fill_buckets_strip: "fill_buckets slo t0 t1 (map strip rs) bs = fill_buckets slo t0 t1 rs bs"
  by (induction rs arbitrary: bs) (simp_all add: add_to_bucket_strip Let_def split: option.split)

lemma BuildSeries_strip: "BuildSeries slo (map strip rs) t0 t1 = BuildSeries slo rs t0 t1"
  unfolding BuildSeries_def fill_buckets_strip ..

lemma survivorOf_strip: "survivorOf (map strip rs) a b v = survivorOf rs a b v"
  unfolding survivorOf_def by (simp add: filter_map comp_def)

abbreviation strip_result :: "lg_result \<Rightarrow> lg_result" where
  "strip_result res \<equiv> res\<lparr>lr_Requests := map strip (lr_Requests res)\<rparr>"

lemma strip_result_fields:
  "lr_Requests (strip_result res) = map strip (lr_Requests res)" "lr_WarmupEndNs (strip_result res) = lr_WarmupEndNs res"
  "lr_TInjectNs (strip_result res) = lr_TInjectNs res" "lr_FaultEndNs (strip_result res) = lr_FaultEndNs res"
  by simp_all

lemma replica_counts_strip: "replica_counts (map strip rs) = replica_counts rs"
  by (simp add: replica_counts_def foldl_map)

lemma shareGate_strip: "shareGate rnd cfg (strip_result res) g v = shareGate rnd cfg res g v"
proof -
  have "filter (in_baseline a b) (map strip rs) = map strip (filter (in_baseline a b) rs)" for a b rs by (simp add: filter_map comp_def)
  then show ?thesis unfolding shareGate_def Let_def by (simp add: replica_counts_strip)
qed

lemma split_windows_strip: "split_windows (strip_result res) g v t = split_windows res g v t"
  unfolding split_windows_def strip_result_fields survivorOf_strip ..

lemma update_map: "AList.update k (f v) (map (\<lambda>(k, v). (k, f v)) al) = map (\<lambda>(k, v). (k, f v)) (AList.update k v al)"
  by (induction al) auto

lemma collect_windows_strip:
  "collect_windows rnd sqrt64 h cfg rs ws acc = (acc', None) \<Longrightarrow>
     collect_windows rnd sqrt64 h cfg (map strip rs) ws (map (\<lambda>(k, v). (k, no_gaps h v)) acc) = (map (\<lambda>(k, v). (k, no_gaps h v)) acc', None)"
proof (induction ws arbitrary: acc)
  case (Cons w ws)
  obtain st where st: "Collect_stats rnd sqrt64 h cfg rs w = Inr st" using Cons.prems by (auto split: sum.splits)
  with Cons.prems have "collect_windows rnd sqrt64 h cfg rs ws (AList.update (w_Name w) st acc) = (acc', None)" by simp
  from Cons.IH [OF this] show ?case by (simp add: Collect_strip [OF st] update_map [where f = "no_gaps h"])
qed simp

lemma map_of_values: "map_of (map (\<lambda>(k, v). (k, f v)) al) k = map_option f (map_of al k)"
  by (induction al) auto

lemma no_gaps_raw: "st_RawTTFTUs (no_gaps h st) = st_RawTTFTUs st" "st_RawE2EUs (no_gaps h st) = st_RawE2EUs st"
  by simp_all

lemma AnalyzeThresholds_no_gaps: "AnalyzeThresholds rnd sqrt64 cfg (no_gaps h b) (no_gaps h f) = AnalyzeThresholds rnd sqrt64 cfg b f"
  unfolding AnalyzeThresholds_def no_gaps_raw ..

text \<open>Without the gaps the analysis differs only in the pooled gaps of its windows.\<close>

lemma analyze_strip:
  assumes "analyze rnd sqrt64 h (new_artifacts cfg res) inp = (art, None)"
  shows "analyze rnd sqrt64 h (new_artifacts cfg (strip_result res)) inp =
     (art\<lparr>a_Loadgen := strip_result res, a_Windows := map (\<lambda>(k, v). (k, no_gaps h v)) (a_Windows art)\<rparr>, None)"
proof -
  let ?res = "strip_result res"
  let ?fire = "actual_fire res (ri_orch inp)"
  let ?anchor = "FireAnchorNs (lr_TInjectNs res) ?fire"
  let ?g = "GuardStartNs (rc_Collect cfg) ?anchor (lr_WarmupEndNs res)"
  let ?Z = "map (\<lambda>(k, v). (k, no_gaps h v))"
  obtain ws bs b f det ws2 ta art3 where
      ws: "collect_windows rnd sqrt64 h (rc_Collect cfg) (lr_Requests res) (phase_windows res ?g) [] = (ws, None)"
    and ws2: "collect_windows rnd sqrt64 h (rc_Collect cfg) (lr_Requests res)
           (split_windows res ?g (ri_victim inp) (d_RecoveredAtNs (labelled_recovery det))) ws = (ws2, None)"
    and bs: "BuildSeries (cc_SLO (rc_Collect cfg)) (lr_Requests res) (lr_WarmupEndNs res) (lr_RunEndNs res) = Some bs"
    and bf: "map_of ws ''baseline'' = Some b" "map_of ws ''fault'' = Some f"
    and det: "det = detector_run rnd cfg res (ri_orch inp) ?anchor bs b"
    and ta: "AnalyzeThresholds rnd sqrt64 (rc_Collect cfg) b f = Some ta"
    and art3: "art3 = analyzed rnd cfg res inp ?fire ?g det ws2 ta"
    and art: "art = art3\<lparr>a_RunValid := fst (validity rnd art3), a_InvalidReasons := snd (validity rnd art3)\<rparr>"
    using assms by (rule analyze_okE)
  define art4 where "art4 = analyzed rnd cfg ?res inp ?fire ?g det (?Z ws2) ta"
  have fire: "actual_fire ?res (ri_orch inp) = ?fire" by (simp add: actual_fire_def split: option.split)
  have heal: "heal_ns cfg ?res orch anchor = heal_ns cfg res orch anchor" for orch anchor
    by (simp add: heal_ns_def split: option.split)
  have "analyze rnd sqrt64 h (new_artifacts cfg ?res) inp
      = (art4\<lparr>a_RunValid := fst (validity rnd art4), a_InvalidReasons := snd (validity rnd art4)\<rparr>, None)"
  proof (rule analyze_okI [where ws = "?Z ws" and wt = "?Z ws2" and bs = bs and b = "no_gaps h b" and f = "no_gaps h f" and det = det and ta = ta])
    show "map_of (?Z ws) ''baseline'' = Some (no_gaps h b)" "map_of (?Z ws) ''fault'' = Some (no_gaps h f)"
      by (simp_all add: map_of_values bf)
    show "BuildSeries (cc_SLO (rc_Collect cfg)) (lr_Requests ?res) (lr_WarmupEndNs ?res) (lr_RunEndNs ?res) = Some bs"
      using bs by (simp add: BuildSeries_strip)
    show "AnalyzeThresholds rnd sqrt64 (rc_Collect cfg) (no_gaps h b) (no_gaps h f) = Some ta" using ta unfolding AnalyzeThresholds_no_gaps .
    show "collect_windows rnd sqrt64 h (rc_Collect cfg) (lr_Requests ?res)
        (phase_windows ?res (GuardStartNs (rc_Collect cfg) (FireAnchorNs (lr_TInjectNs ?res) (actual_fire ?res (ri_orch inp))) (lr_WarmupEndNs ?res))) [] = (?Z ws, None)"
      unfolding fire using collect_windows_strip [OF ws] by (simp add: phase_windows_def)
    show "collect_windows rnd sqrt64 h (rc_Collect cfg) (lr_Requests ?res)
        (split_windows ?res (GuardStartNs (rc_Collect cfg) (FireAnchorNs (lr_TInjectNs ?res) (actual_fire ?res (ri_orch inp))) (lr_WarmupEndNs ?res))
          (ri_victim inp) (d_RecoveredAtNs (labelled_recovery det))) (?Z ws) = (?Z ws2, None)"
      unfolding fire split_windows_strip using collect_windows_strip [OF ws2] by simp
    show "det = detector_run rnd cfg ?res (ri_orch inp) (FireAnchorNs (lr_TInjectNs ?res) (actual_fire ?res (ri_orch inp))) bs (no_gaps h b)"
      unfolding fire det detector_run_def by (simp add: heal)
    show "art4 = analyzed rnd cfg ?res inp (actual_fire ?res (ri_orch inp))
        (GuardStartNs (rc_Collect cfg) (FireAnchorNs (lr_TInjectNs ?res) (actual_fire ?res (ri_orch inp))) (lr_WarmupEndNs ?res)) det (?Z ws2) ta"
      unfolding art4_def fire by simp
  qed
  moreover have art43: "art4 = art3\<lparr>a_Loadgen := ?res, a_Windows := ?Z ws2\<rparr>"
    unfolding art4_def art3 analyzed_def by (simp add: new_artifacts_def AccountInFlight_strip shareGate_strip)
  moreover have "validity rnd art4 = validity rnd art3"
  proof -
    have "source_reasons art4 = source_reasons art3" unfolding art43 source_reasons_def Let_def by simp
    moreover have "timing_reasons rnd art4 = timing_reasons rnd art3" unfolding art43 timing_reasons_def Let_def by (simp split: option.split)
    moreover have "lr_Gates (a_Loadgen art4) = lr_Gates (a_Loadgen art3)" "a_ShareGate art4 = a_ShareGate art3"
      unfolding art43 unfolding art3 analyzed_def by (simp_all add: new_artifacts_def)
    ultimately show ?thesis unfolding validity_def by simp
  qed
  moreover have "a_Windows art = ws2" unfolding art art3 analyzed_def by simp
  ultimately show ?thesis unfolding art by simp
qed

section \<open>The replay of a record\<close>

lemma update_in_place:
  assumes "distinct (map fst ws)" and "n \<in> fst ` set ws"
  shows "AList.update n v (map (\<lambda>(k, s). (k, F k s)) ws) = map (\<lambda>(k, s). (k, if k = n then v else F k s)) ws"
  using assms by (induction ws) (auto simp: image_iff)

definition restored :: "(string \<times> collect_stats) list \<Rightarrow> (string \<Rightarrow> canary_summary option) \<Rightarrow> string \<Rightarrow> window_record" where
  "restored ws c n = \<lparr>wr_Window = st_Window (the (map_of ws n)), wr_ITLPooled = st_ITLPooled (the (map_of ws n)), wr_Canary = c n\<rparr>"

definition partly_restored :: "hist \<Rightarrow> string set \<Rightarrow> (string \<times> collect_stats) list \<Rightarrow> (string \<times> collect_stats) list" where
  "partly_restored h D ws = map (\<lambda>(k, s). (k, if k \<in> D then s else no_gaps h s)) ws"

lemma partly_restored_lookup: "map_of (partly_restored h D ws) n = map_option (\<lambda>s. if n \<in> D then s else no_gaps h s) (map_of ws n)"
  by (induction ws) (auto simp: partly_restored_def)

lemma partly_restored_update:
  assumes "distinct (map fst ws)" and "map_of ws n = Some st"
  shows "AList.update n st (partly_restored h D ws) = partly_restored h (insert n D) ws"
proof -
  have "n \<in> fst ` set ws" using assms(2) by (force dest: map_of_SomeD)
  then have "AList.update n st (partly_restored h D ws) = map (\<lambda>(k, s). (k, if k = n then st else if k \<in> D then s else no_gaps h s)) ws"
    unfolding partly_restored_def by (rule update_in_place [OF assms(1)])
  also have "\<dots> = partly_restored h (insert n D) ws"
    unfolding partly_restored_def using assms by (auto simp: map_of_eq_Some_iff [OF assms(1)] dest: eq_key_imp_eq_value)
  finally show ?thesis .
qed

lemma replay_windows_restore:
  assumes "distinct (map fst ws)"
    and "\<forall>n st. map_of ws n = Some st \<longrightarrow> w_Name (st_Window st) = n \<and> h_Count (st_ITLPooled st) = gapCount rs (st_Window st)"
    and "distinct names" and "set names \<subseteq> fst ` set ws" and "fst ` set byName = D" and "set names \<inter> D = {}"
  shows "replay_windows rs (map (restored ws c) names) byName (partly_restored h D ws)
     = Inr (rev (map (\<lambda>n. (n, restored ws c n)) names) @ byName, partly_restored h (D \<union> set names) ws)"
  using assms(3-6)
proof (induction names arbitrary: byName D)
  case (Cons n names)
  obtain st where st: "map_of ws n = Some st" using Cons.prems(2) by (auto simp: map_of_eq_None_iff [symmetric] image_iff dest: weak_map_of_SomeI)
  have name: "w_Name (st_Window st) = n" and cnt: "h_Count (st_ITLPooled st) = gapCount rs (st_Window st)" using assms(2) st by blast+
  have nD: "n \<notin> D" and fresh: "map_of byName n = None" using Cons.prems(3,4) by (auto simp: map_of_eq_None_iff)
  have r: "wr_Window (restored ws c n) = st_Window st" "wr_ITLPooled (restored ws c n) = st_ITLPooled st" by (simp_all add: restored_def st)
  have undone: "(no_gaps h st)\<lparr>st_ITLPooled := st_ITLPooled st\<rparr> = st" by simp
  have "replay_windows rs (map (restored ws c) (n # names)) byName (partly_restored h D ws)
      = replay_windows rs (map (restored ws c) names) ((n, restored ws c n) # byName) (partly_restored h (insert n D) ws)"
    using partly_restored_update [OF assms(1) st, of h D] by (simp add: Let_def r name partly_restored_lookup st nD fresh cnt undone)
  also have "\<dots> = Inr (rev (map (\<lambda>n. (n, restored ws c n)) names) @ (n, restored ws c n) # byName, partly_restored h (insert n D \<union> set names) ws)"
    by (rule Cons.IH) (use Cons.prems in auto)
  finally show ?case by simp
qed simp

lemma NewResult_strip: "NewResult rnd cfg epoch (map strip rs) gates = strip_result (NewResult rnd cfg epoch rs gates)"
  by (simp add: NewResult_def Let_def)

text \<open>A window of a run with no victim covers every replica.\<close>

lemma hosted_windows:
  assumes "analyze rnd sqrt64 h (new_artifacts cfg res) no_inputs = (art, None)" and "map_of (a_Windows art) n = Some st"
  shows "w_Name (st_Window st) = n" and "w_Replica (st_Window st) = []"
    and "Collect_stats rnd sqrt64 h (rc_Collect cfg) (lr_Requests res) (st_Window st) = Inr st"
proof -
  obtain w where w: "w \<in> set (all_windows art)" "w_Name w = n" "st_Window st = w"
    and st: "Collect_stats rnd sqrt64 h (rc_Collect cfg) (lr_Requests res) w = Inr st" by (rule named_window [OF assms])
  have "a_VictimReplica art = []" using analyze_fields(4) [OF assms(1)] by (simp add: no_inputs_def)
  with w show "w_Replica (st_Window st) = []"
    by (auto simp: all_windows_def phase_windows_def split_windows_def survivorOf_def Let_def split: option.splits if_splits)
  show "w_Name (st_Window st) = n" using w by simp
  show "Collect_stats rnd sqrt64 h (rc_Collect cfg) (lr_Requests res) (st_Window st) = Inr st" using st w(3) by simp
qed

lemma canary_error_fold:
  assumes "\<forall>n\<in>set names. \<exists>rp. m n = Some rp \<and> rp_CanaryError rp = e" and "names \<noteq> [] \<or> e0 = e"
    and "e = [] \<Longrightarrow> e0 = []"
  shows "foldl (\<lambda>e name. case m name of None \<Rightarrow> e | Some rp \<Rightarrow> if rp_CanaryError rp \<noteq> [] then rp_CanaryError rp else e) e0 names = e"
  using assms by (induction names arbitrary: e0) (fastforce split: option.splits)+

lemma ReceivePathFor_canary: "rp_Canary (ReceivePathFor rnd st server fam c) = c"
  by (simp add: ReceivePathFor_def Let_def)

lemma attach_cong:
  assumes "\<And>n st. (n, st) \<in> set (a_Windows art) \<Longrightarrow> c1 (st_Window st) = c2 (st_Window st)"
  shows "attach rnd server fam e c1 art = attach rnd server fam e c2 art"
proof -
  let ?F = "\<lambda>c :: window \<Rightarrow> canary_summary option. \<lambda>(name, st). (name, (ReceivePathFor rnd st (server (st_Window st)) fam (c (st_Window st)))\<lparr>rp_CanaryError := e\<rparr>)"
  have "map (?F c1) (filter (\<lambda>(name, st). w_Replica (st_Window st) = []) (a_Windows art)) = map (?F c2) (filter (\<lambda>(name, st). w_Replica (st_Window st) = []) (a_Windows art))"
    by (rule map_cong [OF refl]) (use assms in auto)
  then show ?thesis unfolding attach_def by simp
qed

text \<open>The record of a run whose windows \<open>ws\<close> all have a receive-path report.\<close>

lemma attached_record:
  assumes "a_Windows art = ws" and "a_ReceivePath art = map (\<lambda>(n, st). (n, rp st)) ws"
    and "\<And>st. rp_Canary (rp st) = cn (st_Window st)" and "\<And>st. rp_CanaryError (rp st) = e" and "ws \<noteq> []"
  shows "rr_Windows (Record art) = map (restored ws (\<lambda>n. cn (st_Window (the (map_of ws n))))) (sort (map fst ws))"
    and "rr_CanaryError (Record art) = e"
proof -
  let ?names = "sort (map fst ws)" and ?c = "\<lambda>n. cn (st_Window (the (map_of ws n)))"
  have lookup: "\<exists>st. map_of ws n = Some st" if "n \<in> set ?names" for n
  proof -
    have "n \<in> fst ` set ws" using that by simp
    then show ?thesis using map_of_eq_None_iff [of ws n] by blast
  qed
  have one: "window_record_of art n = [restored ws ?c n]" if "n \<in> set ?names" for n
  proof -
    from lookup [OF that] obtain st where "map_of ws n = Some st" by blast
    then show ?thesis by (simp add: window_record_of_def assms(1-3) map_of_values restored_def)
  qed
  have all: "map (window_record_of art) ?names = map (\<lambda>n. [restored ws ?c n]) ?names" by (rule map_cong [OF refl one])
  show "rr_Windows (Record art) = map (restored ws ?c) ?names"
    unfolding Record_def Let_def run_record.simps assms(1) all concat_map_singleton ..
  have names: "?names \<noteq> []" using assms(5) by (metis length_0_conv length_map length_sort)
  have "\<exists>r. map_of (a_ReceivePath art) n = Some r \<and> rp_CanaryError r = e" if "n \<in> set ?names" for n
    using lookup [OF that] by (auto simp: assms(2,4) map_of_values)
  then show "rr_CanaryError (Record art) = e" unfolding Record_def Let_def run_record.simps assms(1)
    by (intro canary_error_fold) (use names in auto)
qed

text \<open>Claim C7. The replay of a hosted run from its record gives the run back: analysing the published requests, which
  carry no inter-token gaps, and taking the pooled gaps and canary summaries from the record restores every window, the
  receive-path reports, the detector's result, the accounting and the verdict exactly.\<close>

theorem replay_restores_the_run:
  assumes "rc_Hosted cfg" and run: "analyze rnd sqrt64 h (new_artifacts cfg (NewResult rnd cfg epoch rs gates)) no_inputs = (art, None)"
    and "\<And>xs. h_Count (hist_summarize h xs) = int (length xs)"
    and "\<forall>r\<in>set rs. completed r \<longrightarrow> int (length (r_ITLsUs r)) = (if 1 < r_Tokens r then r_Tokens r - 1 else 0)"
    and obs: "art' = AttachObservations rnd (\<lambda>w. []) (rc_TTFTHistogram cfg) canaryErr streams art"
  shows "Replay rnd sqrt64 h cfg epoch (map strip rs) (Record art')
     = Inr (art'\<lparr>a_Loadgen := NewResult rnd cfg epoch (map strip rs) gates\<rparr>)"
proof -
  let ?res = "NewResult rnd cfg epoch rs gates"
  define ws where "ws = a_Windows art"
  define cn where "cn = (\<lambda>w :: window. case streams of None \<Rightarrow> None | Some ss \<Rightarrow> SummarizeCanary ss (w_StartNs w) (w_EndNs w))"
  define rp where "rp = (\<lambda>st. (ReceivePathFor rnd st [] (rc_TTFTHistogram cfg) (cn (st_Window st)))\<lparr>rp_CanaryError := canaryErr\<rparr>)"
  define c where "c = (\<lambda>n. cn (st_Window (the (map_of ws n))))"
  have res: "a_Loadgen art = ?res" by (rule analyze_fields(2) [OF run])
  have dist: "distinct (map fst ws)" unfolding ws_def analyze_fields(6) [OF run] using all_windows_distinct [of art] by (simp add: comp_def)
  have ne: "ws \<noteq> []" unfolding ws_def analyze_fields(6) [OF run] by (simp add: all_windows_def phase_windows_def)
  note win = hosted_windows [OF run, folded ws_def]
  have rs: "lr_Requests ?res = rs" "lr_Gates ?res = gates" by (simp_all add: NewResult_def Let_def)
  have each: "w_Name (st_Window st) = n \<and> h_Count (st_ITLPooled st) = gapCount (map strip rs) (st_Window st)" if "map_of ws n = Some st" for n st
    using win [OF that] Collect_gaps [OF _ assms(3,4)] by (simp add: gapCount_strip rs)
  have "filter (\<lambda>(n, st). w_Replica (st_Window st) = []) ws = ws"
    using win(2) dist by (auto simp: filter_id_conv map_of_eq_Some_iff)
  then have paths: "a_ReceivePath art' = map (\<lambda>(n, st). (n, rp st)) ws" and wins: "a_Windows art' = ws"
    unfolding obs AttachObservations_def attach_def by (simp_all add: ws_def [symmetric] rp_def cn_def)
  have gates: "lr_Gates (a_Loadgen art') = gates" unfolding obs AttachObservations_def attach_def by (simp add: res rs)
  let ?names = "sort (map fst ws)"
  have recs: "rr_Windows (Record art') = map (restored ws c) ?names" and err: "rr_CanaryError (Record art') = canaryErr"
    unfolding c_def by (rule attached_record [OF wins paths _ _ ne]; simp add: rp_def ReceivePathFor_canary)+
  have full: "partly_restored h {} ws = map (\<lambda>(k, v). (k, no_gaps h v)) ws" "partly_restored h ({} \<union> set ?names) ws = ws"
    unfolding partly_restored_def by (auto intro!: map_idI) (metis fst_conv image_eqI)
  define byName where "byName = rev (map (\<lambda>n. (n, restored ws c n)) ?names)"
  have restore: "replay_windows (map strip rs) (rr_Windows (Record art')) [] (map (\<lambda>(k, v). (k, no_gaps h v)) ws) = Inr (byName, ws)"
    using replay_windows_restore [OF dist, of "map strip rs" ?names "[]" "{}" c h] each dist
    unfolding full(1) full(2) recs byName_def by simp
  have look: "(case map_of byName n of None \<Rightarrow> None | Some wr \<Rightarrow> wr_Canary wr) = c n" if "n \<in> set ?names" for n
  proof -
    have "distinct (map fst byName)" using dist by (simp add: byName_def rev_map [symmetric] comp_def)
    moreover have "(n, restored ws c n) \<in> set byName" using that by (auto simp: byName_def)
    ultimately have "map_of byName n = Some (restored ws c n)" by simp
    then show ?thesis by (simp add: restored_def)
  qed
  have an: "analyze rnd sqrt64 h (new_artifacts cfg (NewResult rnd cfg epoch (map strip rs) gates)) no_inputs
      = (art\<lparr>a_Loadgen := NewResult rnd cfg epoch (map strip rs) gates, a_Windows := map (\<lambda>(k, v). (k, no_gaps h v)) ws\<rparr>, None)"
    using analyze_strip [OF run] unfolding NewResult_strip ws_def .
  have rg: "rr_ClientGates (Record art') = gates" by (simp add: Record_def Let_def gates)
  have "Replay rnd sqrt64 h cfg epoch (map strip rs) (Record art') =
      Inr (attach rnd (\<lambda>w. []) (rc_TTFTHistogram cfg) canaryErr (\<lambda>w. case map_of byName (w_Name w) of None \<Rightarrow> None | Some wr \<Rightarrow> wr_Canary wr)
             (art\<lparr>a_Loadgen := NewResult rnd cfg epoch (map strip rs) gates, a_Windows := ws\<rparr>))"
    unfolding Replay_def rg an using assms(1) restore by (simp add: recs err)
  moreover have "(case map_of byName (w_Name (st_Window st)) of None \<Rightarrow> None | Some wr \<Rightarrow> wr_Canary wr) = cn (st_Window st)"
    if "(n, st) \<in> set ws" for n st
  proof -
    have st: "map_of ws n = Some st" using that dist by simp
    then show ?thesis using look [of n] each [OF st] that by (force simp: c_def)
  qed
  ultimately have "Replay rnd sqrt64 h cfg epoch (map strip rs) (Record art') =
      Inr (attach rnd (\<lambda>w. []) (rc_TTFTHistogram cfg) canaryErr cn (art\<lparr>a_Loadgen := NewResult rnd cfg epoch (map strip rs) gates, a_Windows := ws\<rparr>))"
    by (simp cong: attach_cong) (rule attach_cong, simp)
  then show ?thesis unfolding obs AttachObservations_def cn_def [symmetric] by (simp add: attach_def ws_def)
qed

theorem replay_restores_the_run_witness:
  "\<exists>art. analyze fl (\<lambda>x. 1) demo_hist (new_artifacts demo_run (NewResult fl demo_run 0 demo_requests demo_gates)) no_inputs = (art, None)
     \<and> Replay fl (\<lambda>x. 1) demo_hist demo_run 0 (map strip demo_requests) (Record (AttachObservations fl (\<lambda>w. []) [] ''no loopback'' None art))
         = Inr ((AttachObservations fl (\<lambda>w. []) [] ''no loopback'' None art)\<lparr>a_Loadgen := NewResult fl demo_run 0 (map strip demo_requests) demo_gates\<rparr>)"
proof -
  have inp: "demo_inputs = no_inputs" by (simp add: demo_inputs_def no_inputs_def)
  have cfg: "rc_Hosted demo_run" "rc_TTFTHistogram demo_run = []" by (simp_all add: demo_run_def)
  have tok: "\<forall>r\<in>set demo_requests. completed r \<longrightarrow> int (length (r_ITLsUs r)) = (if 1 < r_Tokens r then r_Tokens r - 1 else 0)" by code_simp
  have cnt: "h_Count (hist_summarize demo_hist xs) = int (length xs)" for xs by (simp add: demo_hist_def)
  obtain art where an: "analyze fl (\<lambda>x. 1) demo_hist (new_artifacts demo_run demo_result) no_inputs = (art, None)"
    using demo_analyzes unfolding inp by blast
  from replay_restores_the_run [OF cfg(1) an [unfolded demo_result_def] cnt tok refl, of "''no loopback''" None] an
  show ?thesis unfolding cfg(2) demo_result_def by blast
qed

end
