(* ===== verification/Validity.thy ===== *)
theory Validity
  imports RunAnalysis
begin

text \<open>
  The run-validity gates G1 to G7 of \<^verbatim>\<open>internal/validity/validity.go\<close>: one definition per gate, \<open>Evaluate\<close>,
  \<open>FailReasons\<close> and the release step's G6. The observations of the infrastructure are the code's structures. The name
  and detail texts of a gate are not modelled; a fail reason is its gate's identifier.
\<close>

section \<open>Gates and observations\<close>

record gate =
  gt_ID :: string
  gt_Applicable :: bool
  gt_Observed :: bool
  gt_Pass :: bool
  gt_Step :: int
  gt_LabelDetermining :: bool
  gt_ReportedOnly :: bool

definition new_gate :: "string \<Rightarrow> gate" where
  "new_gate ident = \<lparr>gt_ID = ident, gt_Applicable = False, gt_Observed = False, gt_Pass = False, gt_Step = 0,
     gt_LabelDetermining = False, gt_ReportedOnly = False\<rparr>"

record staleness_result =
  sl_Observed :: bool
  sl_StalenessWindowS :: rat
  sl_VictimTrafficObserved :: bool

record fingerprint =
  fp_Replica :: string
  fp_Run :: int
  fp_Fingerprint :: string

record queue_mean =
  qm_Value :: rat
  qm_Samples :: int

record queue_observation =
  q_IntervalS :: rat
  q_Means :: "(string \<times> queue_mean) list"

record observations =
  ob_EndpointStaleness :: "staleness_result option"
  ob_GPUFingerprints :: "fingerprint list"
  ob_Queue :: "queue_observation option"

record validity_report =
  vr_Gates :: "gate list"
  vr_AllPass :: bool
  vr_Variant :: string
  vr_NodeLossRepresentative :: bool

definition PinnedBaselineGoodputMin :: "(rat \<Rightarrow> rat) \<Rightarrow> rat" where "PinnedBaselineGoodputMin rnd = rnd (99 / 100)"
definition PinnedQueueCoverageMin :: "(rat \<Rightarrow> rat) \<Rightarrow> rat" where "PinnedQueueCoverageMin rnd = rnd (9 / 10)"
definition PinnedQueueGaugeMax :: rat where "PinnedQueueGaugeMax = 1"

section \<open>The seven gates\<close>

definition gateG1 :: "artifacts \<Rightarrow> gate" where
  "gateG1 art =
     (if \<not> sh_Applicable (a_ShareGate art) then (new_gate ''G1'')\<lparr>gt_Observed := True, gt_Pass := True\<rparr>
      else (new_gate ''G1'')\<lparr>gt_Applicable := True, gt_Observed := True, gt_Pass := sh_Pass (a_ShareGate art)\<rparr>)"

text \<open>No report is a step the run left before its drain ended.\<close>

definition G2 :: "int \<Rightarrow> gate_report option \<Rightarrow> gate" where
  "G2 step cg =
     (let g = (new_gate ''G2'')\<lparr>gt_Step := step, gt_Applicable := True\<rparr>
      in case cg of None \<Rightarrow> g | Some r \<Rightarrow> g\<lparr>gt_Observed := True, gt_Pass := g_Pass r\<rparr>)"

definition gateG2 :: "artifacts \<Rightarrow> gate" where
  "gateG2 art = G2 0 (Some (lr_Gates (a_Loadgen art)))"

definition gateG3 :: "artifacts \<Rightarrow> bool \<Rightarrow> gate" where
  "gateG3 art isBlackHole =
     (let g = (new_gate ''G3'')\<lparr>gt_Applicable := isBlackHole, gt_LabelDetermining := True\<rparr>
      in if \<not> isBlackHole then g\<lparr>gt_Observed := True, gt_Pass := True\<rparr>
         else if a_VictimReplica art = [] then g\<lparr>gt_Observed := False, gt_Pass := False\<rparr>
         else if f_OnVictim (a_InFlight art) = 0 then g\<lparr>gt_Observed := False, gt_Pass := False\<rparr>
         else g\<lparr>gt_Observed := True, gt_Pass := (f_OnVictimErrored (a_InFlight art) = 0)\<rparr>)"

definition gateG4 :: "(rat \<Rightarrow> rat) \<Rightarrow> artifacts \<Rightarrow> observations \<Rightarrow> bool \<Rightarrow> gate" where
  "gateG4 rnd art obs isBlackHole =
     (let g = (new_gate ''G4'')\<lparr>gt_Applicable := isBlackHole, gt_LabelDetermining := True\<rparr>;
          minS = rnd (of_int (rc_EndpointStalenessMinS (a_Config art)))
      in if \<not> isBlackHole then g\<lparr>gt_Observed := True, gt_Pass := True\<rparr>
         else case ob_EndpointStaleness obs of
           None \<Rightarrow> g\<lparr>gt_Observed := False, gt_Pass := False\<rparr>
         | Some st \<Rightarrow>
             if \<not> sl_Observed st then g\<lparr>gt_Observed := False, gt_Pass := False\<rparr>
             else g\<lparr>gt_Observed := True, gt_Pass := (minS \<le> sl_StalenessWindowS st \<and> sl_VictimTrafficObserved st)\<rparr>)"

definition gateG5 :: "artifacts \<Rightarrow> observations \<Rightarrow> gate" where
  "gateG5 art obs =
     (let g = (new_gate ''G5'')\<lparr>gt_Applicable := True\<rparr>
      in case ob_GPUFingerprints obs of
           [] \<Rightarrow> g\<lparr>gt_Applicable := False, gt_Observed := False, gt_Pass := False\<rparr>
         | fp # fps \<Rightarrow>
             if int (length (remdups (map fp_Replica (fp # fps)))) < rc_Replicas (a_Config art)
             then g\<lparr>gt_Observed := False, gt_Pass := False\<rparr>
             else g\<lparr>gt_Observed := True, gt_Pass := list_all (\<lambda>x. fp_Fingerprint x = fp_Fingerprint fp) (fp # fps)\<rparr>)"

definition gateG6 :: "(rat \<Rightarrow> rat) \<Rightarrow> artifacts \<Rightarrow> gate" where
  "gateG6 rnd art =
     (let g = (new_gate ''G6'')\<lparr>gt_Applicable := True\<rparr>
      in case map_of (a_Windows art) ''baseline'' of
           None \<Rightarrow> g
         | Some w \<Rightarrow> if st_Scheduled w = 0 then g
                     else g\<lparr>gt_Observed := True, gt_Pass := (PinnedBaselineGoodputMin rnd \<le> st_GoodputFrac w)\<rparr>)"

definition hosted_counts :: "artifacts \<Rightarrow> nat \<times> nat" where
  "hosted_counts art =
     foldl (\<lambda>(c, s) name. case map_of (a_Windows art) name of
         None \<Rightarrow> (c, s)
       | Some w \<Rightarrow> (c + st_Completed w, s + (st_Completed w + st_Errored w + st_Censored w)))
       (0, 0) [''baseline'', ''guard'', ''fault'']"

definition gateG6Hosted :: "(rat \<Rightarrow> rat) \<Rightarrow> artifacts \<Rightarrow> gate" where
  "gateG6Hosted rnd art =
     (let g = (new_gate ''G6'')\<lparr>gt_Applicable := True, gt_Observed := True, gt_ReportedOnly := True\<rparr>
      in case hosted_counts art of (compl, sched) \<Rightarrow>
           if sched = 0 then g\<lparr>gt_Observed := False\<rparr>
           else g\<lparr>gt_Pass := (PinnedBaselineGoodputMin rnd \<le> rnd (rnd (of_nat compl) / rnd (of_nat sched)))\<rparr>)"

text \<open>A quotient by zero is an infinity or not a number.\<close>

definition ReleaseG6 :: "(rat \<Rightarrow> rat) \<Rightarrow> int \<Rightarrow> int \<Rightarrow> int \<Rightarrow> gate" where
  "ReleaseG6 rnd step inTime scheduled =
     (new_gate ''G6'')\<lparr>gt_Step := step, gt_Applicable := True, gt_Observed := True, gt_ReportedOnly := True,
       gt_Pass := (if scheduled = 0 then 0 < inTime
                   else PinnedBaselineGoodputMin rnd \<le> rnd (rnd (of_int inTime) / rnd (of_int scheduled)))\<rparr>"

definition queue_expected :: "(rat \<Rightarrow> rat) \<Rightarrow> window \<Rightarrow> rat \<Rightarrow> int" where
  "queue_expected rnd w intervalS = trunc64 (rnd (rnd (rnd (of_int (w_EndNs w - w_StartNs w)) / 1000000000) / intervalS))"

definition gateG7 :: "(rat \<Rightarrow> rat) \<Rightarrow> artifacts \<Rightarrow> observations \<Rightarrow> gate" where
  "gateG7 rnd art obs =
     (let g = (new_gate ''G7'')\<lparr>gt_Applicable := True\<rparr>
      in case ob_Queue obs of
           None \<Rightarrow> g\<lparr>gt_Applicable := False, gt_Observed := False, gt_Pass := False\<rparr>
         | Some q \<Rightarrow>
             if int (length (q_Means q)) < rc_Replicas (a_Config art) then g\<lparr>gt_Observed := False, gt_Pass := False\<rparr>
             else if q_IntervalS q \<le> 0 then g\<lparr>gt_Observed := False, gt_Pass := False\<rparr>
             else case map_of (a_Windows art) ''baseline'' of
               None \<Rightarrow> g\<lparr>gt_Observed := False, gt_Pass := False\<rparr>
             | Some b \<Rightarrow>
                 let expected = rnd (of_int (queue_expected rnd (st_Window b) (q_IntervalS q)))
                 in if list_ex (\<lambda>(r, m). rnd (of_int (qm_Samples m)) < rnd (PinnedQueueCoverageMin rnd * expected)) (q_Means q)
                    then g\<lparr>gt_Observed := False, gt_Pass := False\<rparr>
                    else g\<lparr>gt_Observed := True, gt_Pass := list_all (\<lambda>(r, m). qm_Value m \<le> PinnedQueueGaugeMax) (q_Means q)\<rparr>)"

section \<open>Evaluation\<close>

definition run_gates :: "(rat \<Rightarrow> rat) \<Rightarrow> artifacts \<Rightarrow> observations \<Rightarrow> gate list" where
  "run_gates rnd art obs =
     (let isBlackHole = (rc_Variant (a_Config art) = VariantBlackHole)
      in if rc_Hosted (a_Config art)
         then [new_gate ''G1'', gateG2 art, new_gate ''G3'', new_gate ''G4'', new_gate ''G5'', gateG6Hosted rnd art, new_gate ''G7'']
         else [gateG1 art, gateG2 art, gateG3 art isBlackHole, gateG4 rnd art obs isBlackHole, gateG5 art obs, gateG6 rnd art, gateG7 rnd art obs])"

text \<open>The loop over the gates: the run's validity and its label.\<close>

fun gate_verdict :: "gate list \<Rightarrow> bool \<Rightarrow> bool \<Rightarrow> bool \<times> bool" where
  "gate_verdict [] allPass label = (allPass, label)"
| "gate_verdict (g # gs) allPass label =
     (if \<not> gt_Applicable g \<or> gt_Pass g \<or> gt_ReportedOnly g then gate_verdict gs allPass label
      else if gt_LabelDetermining g then gate_verdict gs allPass False
      else gate_verdict gs False label)"

definition Evaluate :: "(rat \<Rightarrow> rat) \<Rightarrow> artifacts \<Rightarrow> observations \<Rightarrow> validity_report" where
  "Evaluate rnd art obs =
     (let gs = run_gates rnd art obs;
          v = gate_verdict gs True (rc_Variant (a_Config art) = VariantBlackHole \<and> \<not> rc_Hosted (a_Config art))
      in \<lparr>vr_Gates = gs, vr_AllPass = fst v, vr_Variant = rc_Variant (a_Config art), vr_NodeLossRepresentative = snd v\<rparr>)"

definition FailReasons :: "validity_report \<Rightarrow> string list \<Rightarrow> string list" where
  "FailReasons r skip =
     map gt_ID (filter (\<lambda>g. \<not> (gt_ID g \<in> set skip \<or> \<not> gt_Applicable g \<or> gt_Pass g \<or> gt_LabelDetermining g \<or> gt_ReportedOnly g)) (vr_Gates r))"

section \<open>Properties\<close>

lemma verdict_iff:
  "fst (gate_verdict gs a l) \<longleftrightarrow> a \<and> (\<forall>g\<in>set gs. gt_Applicable g \<longrightarrow> gt_Pass g \<or> gt_ReportedOnly g \<or> gt_LabelDetermining g)"
  "snd (gate_verdict gs a l) \<longleftrightarrow> l \<and> (\<forall>g\<in>set gs. gt_Applicable g \<and> gt_LabelDetermining g \<longrightarrow> gt_Pass g \<or> gt_ReportedOnly g)"
  by (induction gs arbitrary: a l) auto

lemmas gate_defs = gateG1_def gateG2_def G2_def gateG3_def gateG4_def gateG5_def gateG6_def gateG6Hosted_def gateG7_def new_gate_def Let_def

text \<open>What every gate has, whatever its verdict.\<close>

definition gate_shape :: "string \<Rightarrow> bool \<Rightarrow> bool \<Rightarrow> gate \<Rightarrow> bool" where
  "gate_shape ident label reported g \<longleftrightarrow> gt_ID g = ident \<and> gt_Step g = 0 \<and> gt_LabelDetermining g = label \<and> gt_ReportedOnly g = reported
     \<and> (gt_Applicable g \<and> gt_Pass g \<longrightarrow> gt_Observed g)"

lemma gate_shapes:
  "gate_shape ''G1'' False False (gateG1 art)" "gate_shape ''G2'' False False (gateG2 art)" "gate_shape ''G3'' True False (gateG3 art b)"
  "gate_shape ''G4'' True False (gateG4 rnd art obs b)" "gate_shape ''G5'' False False (gateG5 art obs)"
  "gate_shape ''G6'' False False (gateG6 rnd art)" "gate_shape ''G6'' False True (gateG6Hosted rnd art)"
  "gate_shape ''G7'' False False (gateG7 rnd art obs)" "gate_shape i False False (new_gate i)"
  by (simp_all add: gate_shape_def gate_defs split: option.split list.split prod.split)

text \<open>Claim C25. Every report has the seven gates in order and well-formed: only G3 and G4 decide the label, only a hosted G6 is
  reported without deciding, a gate that applies and passes was observed, and against a hosted target only G2 and G6
  apply.\<close>

theorem report_is_well_formed:
  "map gt_ID (vr_Gates (Evaluate rnd art obs)) = [''G1'', ''G2'', ''G3'', ''G4'', ''G5'', ''G6'', ''G7'']
   \<and> (\<forall>g\<in>set (vr_Gates (Evaluate rnd art obs)).
        (gt_LabelDetermining g \<longrightarrow> gt_ID g = ''G3'' \<or> gt_ID g = ''G4'')
      \<and> (gt_ReportedOnly g \<longrightarrow> gt_ID g = ''G6'' \<and> rc_Hosted (a_Config art))
      \<and> (gt_Applicable g \<and> gt_Pass g \<longrightarrow> gt_Observed g)
      \<and> (rc_Hosted (a_Config art) \<and> gt_Applicable g \<longrightarrow> gt_ID g = ''G2'' \<or> gt_ID g = ''G6''))"
proof -
  have app: "\<not> gt_Applicable (new_gate i)" for i by (simp add: new_gate_def)
  note shapes = gate_shapes [unfolded gate_shape_def]
  show ?thesis
    by (cases "rc_Hosted (a_Config art)") (simp_all add: Evaluate_def run_gates_def Let_def shapes app)
qed

theorem report_is_well_formed_witness:
  "length (vr_Gates (Evaluate fl (new_artifacts demo_run demo_result) \<lparr>ob_EndpointStaleness = None, ob_GPUFingerprints = [], ob_Queue = None\<rparr>)) = 7"
  using arg_cong [OF conjunct1 [OF report_is_well_formed [of fl "new_artifacts demo_run demo_result" "\<lparr>ob_EndpointStaleness = None, ob_GPUFingerprints = [], ob_Queue = None\<rparr>"]], of length]
  by simp

text \<open>A run passes its evaluation exactly when the report lists no fail reason, and skipping gates removes
  precisely their reasons from the list.\<close>

theorem all_pass_iff_no_fail_reasons:
  "vr_AllPass (Evaluate rnd art obs) = (FailReasons (Evaluate rnd art obs) [] = [])
   \<and> FailReasons (Evaluate rnd art obs) skip = filter (\<lambda>i. i \<notin> set skip) (FailReasons (Evaluate rnd art obs) [])"
proof
  show "vr_AllPass (Evaluate rnd art obs) = (FailReasons (Evaluate rnd art obs) [] = [])"
    by (auto simp: Evaluate_def FailReasons_def Let_def verdict_iff filter_empty_conv)
  show "FailReasons (Evaluate rnd art obs) skip = filter (\<lambda>i. i \<notin> set skip) (FailReasons (Evaluate rnd art obs) [])"
    by (simp add: FailReasons_def filter_map comp_def conj_ac)
qed

lemma in_flight_victim:
  assumes "v \<noteq> []"
  shows "f_OnVictim (AccountInFlight rs t v) = length (filter (\<lambda>r. in_flight_at t r \<and> r_Replica r = v) rs)"
    and "f_OnVictimErrored (AccountInFlight rs t v) = length (filter (\<lambda>r. in_flight_at t r \<and> r_Replica r = v \<and> r_Outcome r = OutcomeErrored) rs)"
  using assms unfolding AccountInFlight_def account_fold by (simp_all add: zero_in_flight_def conj_ac)

text \<open>Claim C14. An analysed run is labelled representative of a node loss exactly when it is a black-hole run of a self-hosted
  target with a known victim, at least one request was in flight on the victim at the fire and none of those errored, and the
  dead endpoint was seen stale for the pinned minimum with traffic still routed to it.\<close>

theorem node_loss_label_attested:
  assumes "analyze rnd sqrt64 h (new_artifacts cfg res) inp = (art, None)"
  shows "vr_NodeLossRepresentative (Evaluate rnd art obs) \<longleftrightarrow>
     rc_Variant cfg = VariantBlackHole \<and> \<not> rc_Hosted cfg \<and> ri_victim inp \<noteq> []
     \<and> (\<exists>r\<in>set (lr_Requests res). in_flight_at (a_ActualFireNs art) r \<and> r_Replica r = ri_victim inp)
     \<and> (\<forall>r\<in>set (lr_Requests res). in_flight_at (a_ActualFireNs art) r \<and> r_Replica r = ri_victim inp \<longrightarrow> r_Outcome r \<noteq> OutcomeErrored)
     \<and> (\<exists>st. ob_EndpointStaleness obs = Some st \<and> sl_Observed st \<and> rnd (of_int (rc_EndpointStalenessMinS cfg)) \<le> sl_StalenessWindowS st
           \<and> sl_VictimTrafficObserved st)"
proof (cases "rc_Variant cfg = VariantBlackHole \<and> \<not> rc_Hosted cfg")
  case False
  then show ?thesis using analyze_fields(1) [OF assms] by (auto simp: Evaluate_def Let_def verdict_iff)
next
  case True
  note f = analyze_fields [OF assms]
  note shapes = gate_shapes [unfolded gate_shape_def]
  have "vr_NodeLossRepresentative (Evaluate rnd art obs) \<longleftrightarrow> gt_Pass (gateG3 art True) \<and> gt_Pass (gateG4 rnd art obs True)"
    using True by (simp add: Evaluate_def run_gates_def Let_def verdict_iff f(1) shapes) (simp add: gate_defs split: option.split)
  moreover have "gt_Pass (gateG3 art True) \<longleftrightarrow> ri_victim inp \<noteq> []
     \<and> (\<exists>r\<in>set (lr_Requests res). in_flight_at (a_ActualFireNs art) r \<and> r_Replica r = ri_victim inp)
     \<and> (\<forall>r\<in>set (lr_Requests res). in_flight_at (a_ActualFireNs art) r \<and> r_Replica r = ri_victim inp \<longrightarrow> r_Outcome r \<noteq> OutcomeErrored)"
    by (cases "ri_victim inp = []") (auto simp: gateG3_def new_gate_def Let_def f(4,10) in_flight_victim filter_empty_conv)
  moreover have "gt_Pass (gateG4 rnd art obs True) \<longleftrightarrow>
     (\<exists>st. ob_EndpointStaleness obs = Some st \<and> sl_Observed st \<and> rnd (of_int (rc_EndpointStalenessMinS cfg)) \<le> sl_StalenessWindowS st
           \<and> sl_VictimTrafficObserved st)"
    by (auto simp: gateG4_def new_gate_def Let_def f(1) split: option.split)
  ultimately show ?thesis using True by blast
qed

theorem node_loss_label_attested_witness:
  "\<exists>art. analyze fl (\<lambda>x. 1) demo_hist (new_artifacts demo_run demo_result) demo_inputs = (art, None)
     \<and> \<not> vr_NodeLossRepresentative (Evaluate fl art \<lparr>ob_EndpointStaleness = None, ob_GPUFingerprints = [], ob_Queue = None\<rparr>)"
proof (rule demo_analyzes)
  fix art assume an: "analyze fl (\<lambda>x. 1) demo_hist (new_artifacts demo_run demo_result) demo_inputs = (art, None)"
  have "rc_Hosted demo_run" by (simp add: demo_run_def)
  with an node_loss_label_attested [OF an] show ?thesis by blast
qed

lemma validity_iff:
  "fst (validity rnd art) \<longleftrightarrow> source_reasons art = [] \<and> g_Pass (lr_Gates (a_Loadgen art))
     \<and> (sh_Applicable (a_ShareGate art) \<longrightarrow> sh_Pass (a_ShareGate art)) \<and> timing_reasons rnd art = []"
  by (simp add: validity_def Let_def)

text \<open>Claim C9. The analysis and the gates agree. An analysed run is valid exactly when its fault had a source (no fault asked
  for, an armed injector, or a mock schedule read back as fired), the client gate is clean, the share gate passes where it
  applies, and an armed fault fired within the tolerance; and then neither G1 nor G2 is a fail reason of its evaluation, so
  that a valid run of a hosted target always passes its evaluation.\<close>

theorem run_verdict_agrees_with_gates:
  assumes "analyze rnd sqrt64 h (new_artifacts cfg res) inp = (art, None)"
  shows "(a_RunValid art \<longleftrightarrow>
        (rc_Variant cfg = VariantNone \<or> ri_orch inp \<noteq> None \<or> scheduled_mock cfg \<and> (\<exists>n. ri_scheduleFired inp = Some n \<and> n \<noteq> 0))
      \<and> g_Pass (lr_Gates res) \<and> (sh_Applicable (a_ShareGate art) \<longrightarrow> sh_Pass (a_ShareGate art))
      \<and> (\<forall>ts. ri_orch inp = Some ts \<longrightarrow> (\<exists>e. FireErrorMs rnd ts = Some e \<and> \<bar>e\<bar> \<le> rnd (of_int (rc_InjectionToleranceMs cfg)))))
   \<and> (a_RunValid art \<longrightarrow> set (FailReasons (Evaluate rnd art obs) []) \<subseteq> {''G5'', ''G6'', ''G7''}
        \<and> (rc_Hosted cfg \<longrightarrow> vr_AllPass (Evaluate rnd art obs)))"
proof -
  note f = analyze_fields [OF assms]
  note shapes = gate_shapes [unfolded gate_shape_def]
  have valid: "a_RunValid art = fst (validity rnd art)" using f(8) by (metis fst_conv)
  have src: "source_reasons art = [] \<longleftrightarrow> rc_Variant cfg = VariantNone \<or> ri_orch inp \<noteq> None
      \<or> scheduled_mock cfg \<and> (\<exists>n. ri_scheduleFired inp = Some n \<and> n \<noteq> 0)"
    by (cases "ri_scheduleFired inp") (auto simp: source_reasons_def Let_def f(1,3,11))
  have tim: "timing_reasons rnd art = [] \<longleftrightarrow>
      (\<forall>ts. ri_orch inp = Some ts \<longrightarrow> (\<exists>e. FireErrorMs rnd ts = Some e \<and> \<bar>e\<bar> \<le> rnd (of_int (rc_InjectionToleranceMs cfg))))"
    by (auto simp: timing_reasons_def Let_def f(1,3) abs_le_iff split: option.splits)
  have g1: "gt_Applicable (gateG1 art) \<Longrightarrow> gt_Pass (gateG1 art)" and g2: "gt_Pass (gateG2 art)" if "a_RunValid art"
    using that unfolding valid validity_iff by (auto simp: gateG1_def gateG2_def G2_def new_gate_def Let_def)
  have "set (FailReasons (Evaluate rnd art obs) []) \<subseteq> {''G5'', ''G6'', ''G7''} \<and> (rc_Hosted cfg \<longrightarrow> vr_AllPass (Evaluate rnd art obs))"
    if v: "a_RunValid art"
  proof (cases "rc_Hosted cfg")
    case True
    have app: "\<not> gt_Applicable (new_gate i)" for i by (simp add: new_gate_def)
    show ?thesis using True g2 [OF v] app
      by (simp add: FailReasons_def Evaluate_def run_gates_def Let_def verdict_iff f(1) shapes)
  next
    case False
    then show ?thesis using g1 [OF v] g2 [OF v]
      by (auto simp: FailReasons_def Evaluate_def run_gates_def Let_def f(1) shapes split: if_splits)
  qed
  then show ?thesis unfolding valid validity_iff src tim f(2) by blast
qed

theorem run_verdict_agrees_with_gates_witness:
  "\<exists>art. analyze fl (\<lambda>x. 1) demo_hist (new_artifacts demo_run demo_result) demo_inputs = (art, None) \<and> a_RunValid art
     \<and> vr_AllPass (Evaluate fl art \<lparr>ob_EndpointStaleness = None, ob_GPUFingerprints = [], ob_Queue = None\<rparr>)"
proof (rule demo_analyzes)
  fix art assume an: "analyze fl (\<lambda>x. 1) demo_hist (new_artifacts demo_run demo_result) demo_inputs = (art, None)"
  have c: "rc_Hosted demo_run" "rc_Variant demo_run = VariantNone" "ri_orch demo_inputs = None" "g_Pass (lr_Gates demo_result)"
    by (simp_all add: demo_run_def demo_inputs_def demo_result_def NewResult_def demo_gates_def Let_def)
  have "\<not> sh_Applicable (a_ShareGate art)" unfolding analyze_fields(9) [OF an] using c(1) by (simp add: shareGate_def no_share_def)
  with run_verdict_agrees_with_gates [OF an, of "\<lparr>ob_EndpointStaleness = None, ob_GPUFingerprints = [], ob_Queue = None\<rparr>"] c
  have "a_RunValid art \<and> vr_AllPass (Evaluate fl art \<lparr>ob_EndpointStaleness = None, ob_GPUFingerprints = [], ob_Queue = None\<rparr>)" by simp
  with an show ?thesis by blast
qed

end
