(* ===== verification/ServerStats.thy ===== *)
theory ServerStats
  imports Thresholds "HOL-Library.AList"
begin

text \<open>
  The reductions of \<^verbatim>\<open>internal/serverstats/serverstats.go\<close>: the per-replica mean of the gauge over a window
  (\<open>BaselineMeans\<close>) and the change of every kept metric family over a window (\<open>accumulator\<close>, \<open>ReduceWindow\<close>). Counts are
  64-bit words that wrap. A bucket's bound is a rational or \<open>None\<close> for +Inf; wall times are nanoseconds. \<open>None\<close> as the result
  of an operation is an index out of range. The sampling goroutines and the parsing of the text pages, which belongs to the
  Prometheus packages, are not modelled: the samples are an input.
\<close>

section \<open>Samples\<close>

record series =
  sr_labels :: string
  sr_value :: rat
  sr_count :: uint64
  sr_sum :: rat
  sr_buckets :: "uint64 list"

record family =
  fa_Type :: string
  fa_Value :: rat
  fa_Count :: uint64
  fa_Sum :: rat
  fa_bounds :: "rat option list"
  fa_buckets :: "uint64 list"
  fa_series :: "series list"

record sample =
  sm_Replica :: string
  sm_At :: int
  sm_Value :: rat
  sm_Families :: "(string \<times> family) list"

record mean =
  mn_Value :: rat
  mn_Samples :: int

section \<open>The mean of the gauge\<close>

definition BaselineMeans :: "(rat \<Rightarrow> rat) \<Rightarrow> sample list \<Rightarrow> int \<Rightarrow> int \<Rightarrow> int \<Rightarrow> (string \<times> mean) list" where
  "BaselineMeans rnd samples epoch warmupEndNs baselineEndNs =
     (let start = epoch + warmupEndNs; endT = epoch + baselineEndNs;
          inside = filter (\<lambda>s. \<not> (sm_At s < start \<or> \<not> sm_At s < endT)) samples
      in map (\<lambda>r. let vs = map sm_Value (filter (\<lambda>s. sm_Replica s = r) inside)
                  in (r, \<lparr>mn_Value = rnd (sum64 rnd vs / rnd (of_nat (length vs))), mn_Samples = int (length vs)\<rparr>))
             (remdups (map sm_Replica inside)))"

section \<open>The accumulator\<close>

record accumulator =
  ac_typ :: string
  ac_started :: bool
  ac_prev :: "string \<rightharpoonup> series"
  ac_n :: int
  ac_sum :: rat
  ac_inc :: rat
  ac_count :: uint64
  ac_hsum :: rat
  ac_bounds :: "rat option list"
  ac_buckets :: "uint64 list"
  ac_reset :: bool
  ac_relaid :: bool

definition new_accumulator :: "string \<Rightarrow> accumulator" where
  "new_accumulator typ = \<lparr>ac_typ = typ, ac_started = False, ac_prev = Map.empty, ac_n = 0, ac_sum = 0, ac_inc = 0, ac_count = 0,
     ac_hsum = 0, ac_bounds = [], ac_buckets = [], ac_reset = False, ac_relaid = False\<rparr>"

definition seriesOf :: "family \<Rightarrow> series list" where
  "seriesOf f =
     (if fa_series f \<noteq> [] then fa_series f
      else [\<lparr>sr_labels = [], sr_value = fa_Value f, sr_count = fa_Count f, sr_sum = fa_Sum f, sr_buckets = fa_buckets f\<rparr>])"

text \<open>Two layouts are the same when they have the same bounds.\<close>

fun sameBounds :: "rat option list \<Rightarrow> rat option list \<Rightarrow> bool" where
  "sameBounds [] [] = True"
| "sameBounds (a # as) (b # bs) = (a = b \<and> sameBounds as bs)"
| "sameBounds _ _ = False"

fun bucketsFell :: "uint64 list \<Rightarrow> uint64 list \<Rightarrow> bool option" where
  "bucketsFell [] prev = Some False"
| "bucketsFell (c # cs) [] = None"
| "bucketsFell (c # cs) (p # ps) = (if c < p then Some True else bucketsFell cs ps)"

definition remember :: "series list \<Rightarrow> (string \<rightharpoonup> series) \<Rightarrow> (string \<rightharpoonup> series)" where
  "remember ss prev = foldl (\<lambda>m s. m(sr_labels s \<mapsto> s)) prev ss"

definition acc_start :: "family \<Rightarrow> accumulator \<Rightarrow> accumulator" where
  "acc_start f a =
     (let a1 = (if \<not> ac_started a \<or> \<not> sameBounds (ac_bounds a) (fa_bounds f)
                then a\<lparr>ac_prev := Map.empty, ac_bounds := fa_bounds f, ac_buckets := replicate (length (fa_buckets f)) 0\<rparr>
                else a)
      in a1\<lparr>ac_started := True, ac_prev := remember (seriesOf f) (ac_prev a1)\<rparr>)"

text \<open>One label set of a counter.\<close>

definition counter_series :: "(rat \<Rightarrow> rat) \<Rightarrow> accumulator \<Rightarrow> series \<Rightarrow> accumulator" where
  "counter_series rnd a s =
     (let a1 = (case ac_prev a (sr_labels s) of
          Some p \<Rightarrow> if sr_value s < sr_value p then a\<lparr>ac_reset := True, ac_inc := rnd (ac_inc a + sr_value s)\<rparr>
                    else a\<lparr>ac_inc := rnd (ac_inc a + rnd (sr_value s - sr_value p))\<rparr>
        | None \<Rightarrow> a\<lparr>ac_inc := rnd (ac_inc a + sr_value s)\<rparr>)
      in a1\<lparr>ac_prev := (ac_prev a1)(sr_labels s \<mapsto> s)\<rparr>)"

text \<open>The increase of the buckets, index by index over the later sample.\<close>

fun add_buckets :: "uint64 list \<Rightarrow> uint64 list \<Rightarrow> uint64 list option" where
  "add_buckets acc [] = Some acc"
| "add_buckets [] (x # xs) = None"
| "add_buckets (c # acc) (x # xs) = map_option ((#) (c + x)) (add_buckets acc xs)"

fun sub_buckets :: "uint64 list \<Rightarrow> uint64 list \<Rightarrow> uint64 list option" where
  "sub_buckets [] prev = Some []"
| "sub_buckets (x # xs) [] = None"
| "sub_buckets (x # xs) (p # ps) = map_option ((#) (x - p)) (sub_buckets xs ps)"

definition series_fell :: "series \<Rightarrow> series \<Rightarrow> bool option" where
  "series_fell s p =
     (if sr_count s < sr_count p \<or> sr_sum s < sr_sum p then Some True else bucketsFell (sr_buckets s) (sr_buckets p))"

text \<open>One label set of a histogram, against the sets remembered before the sample.\<close>

definition histogram_series :: "(rat \<Rightarrow> rat) \<Rightarrow> bool \<Rightarrow> accumulator \<Rightarrow> series \<Rightarrow> accumulator option" where
  "histogram_series rnd sameLayout a s =
     (let p = ac_prev a (sr_labels s)
      in Option.bind (case p of Some q \<Rightarrow> if sameLayout then series_fell s q else Some False | None \<Rightarrow> Some False) (\<lambda>fell.
         let a1 = (if fell then a\<lparr>ac_reset := True\<rparr> else a)
         in case p of
              Some q \<Rightarrow>
                if \<not> sameLayout \<or> fell
                then let a2 = a1\<lparr>ac_count := ac_count a1 + sr_count s, ac_hsum := rnd (ac_hsum a1 + sr_sum s)\<rparr>
                     in if sameLayout then map_option (\<lambda>bk. a2\<lparr>ac_buckets := bk\<rparr>) (add_buckets (ac_buckets a2) (sr_buckets s))
                        else Some a2
                else Option.bind (sub_buckets (sr_buckets s) (sr_buckets q)) (\<lambda>d.
                     map_option (\<lambda>bk. a1\<lparr>ac_count := ac_count a1 + (sr_count s - sr_count q),
                        ac_hsum := rnd (ac_hsum a1 + rnd (sr_sum s - sr_sum q)), ac_buckets := bk\<rparr>) (add_buckets (ac_buckets a1) d))
            | None \<Rightarrow>
                let a2 = a1\<lparr>ac_count := ac_count a1 + sr_count s, ac_hsum := rnd (ac_hsum a1 + sr_sum s)\<rparr>
                in if sameLayout then map_option (\<lambda>bk. a2\<lparr>ac_buckets := bk\<rparr>) (add_buckets (ac_buckets a2) (sr_buckets s))
                   else Some a2))"

fun histogram_loop :: "(rat \<Rightarrow> rat) \<Rightarrow> bool \<Rightarrow> series list \<Rightarrow> accumulator \<Rightarrow> accumulator option" where
  "histogram_loop rnd sameLayout [] a = Some a"
| "histogram_loop rnd sameLayout (s # ss) a = Option.bind (histogram_series rnd sameLayout a s) (histogram_loop rnd sameLayout ss)"

definition acc_step :: "(rat \<Rightarrow> rat) \<Rightarrow> family \<Rightarrow> accumulator \<Rightarrow> accumulator option" where
  "acc_step rnd cur a =
     (if \<not> ac_started a then Some (acc_start cur a)
      else if fa_Type cur = ''counter'' then Some (foldl (counter_series rnd) a (seriesOf cur))
      else if fa_Type cur = ''histogram'' then
        let sameLayout = sameBounds (fa_bounds cur) (ac_bounds a);
            a1 = (if sameLayout then a else a\<lparr>ac_relaid := True, ac_reset := True\<rparr>)
        in map_option (\<lambda>a2. if sameLayout then a2\<lparr>ac_prev := remember (seriesOf cur) (ac_prev a2)\<rparr> else acc_start cur a2)
             (histogram_loop rnd sameLayout (seriesOf cur) a1)
      else Some a)"

section \<open>The reduction over a window\<close>

type_synonym accs = "((string \<times> string) \<times> accumulator) list"

definition acc_of :: "accs \<Rightarrow> string \<Rightarrow> string \<Rightarrow> family \<Rightarrow> accumulator" where
  "acc_of accs replica name f =
     (case map_of accs (replica, name) of Some a \<Rightarrow> a | None \<Rightarrow> new_accumulator (fa_Type f))"

text \<open>One family of one sample: its accumulator starts from a sample before the window and steps by one inside it.\<close>

definition observe :: "(rat \<Rightarrow> rat) \<Rightarrow> bool \<Rightarrow> family \<Rightarrow> accumulator \<Rightarrow> accumulator option" where
  "observe rnd before f a =
     (if before then Some (acc_start f a)
      else map_option (\<lambda>a1. a1\<lparr>ac_sum := rnd (ac_sum a1 + fa_Value f), ac_n := ac_n a1 + 1\<rparr>) (acc_step rnd f a))"

fun families_loop :: "(rat \<Rightarrow> rat) \<Rightarrow> bool \<Rightarrow> string \<Rightarrow> (string \<times> family) list \<Rightarrow> accs \<Rightarrow> accs option" where
  "families_loop rnd before replica [] accs = Some accs"
| "families_loop rnd before replica ((name, f) # fams) accs =
     Option.bind (observe rnd before f (acc_of accs replica name f)) (\<lambda>a.
       families_loop rnd before replica fams (AList.update (replica, name) a accs))"

fun samples_loop :: "(rat \<Rightarrow> rat) \<Rightarrow> int \<Rightarrow> int \<Rightarrow> sample list \<Rightarrow> accs \<Rightarrow> string list \<Rightarrow> (accs \<times> string list) option" where
  "samples_loop rnd start endT [] accs inWindow = Some (accs, inWindow)"
| "samples_loop rnd start endT (smp # rest) accs inWindow =
     (if \<not> sm_At smp < endT then Some (accs, inWindow)
      else Option.bind (families_loop rnd (sm_At smp < start) (sm_Replica smp) (sm_Families smp) accs) (\<lambda>accs'.
        samples_loop rnd start endT rest accs'
          (if \<not> sm_At smp < start \<and> sm_Families smp \<noteq> [] then List.insert (sm_Replica smp) inWindow else inWindow)))"

definition reduction_of :: "(rat \<Rightarrow> rat) \<Rightarrow> accumulator \<Rightarrow> reduction" where
  "reduction_of rnd a =
     (let r = \<lparr>red_Type = ac_typ a, red_Samples = ac_n a, red_Mean = 0, red_Increase = 0, red_Count = 0, red_Sum = 0,
               red_Buckets = [], red_Reset = ac_reset a\<rparr>
      in if ac_typ a = ''gauge'' \<or> ac_typ a = ''untyped'' then r\<lparr>red_Mean := rnd (ac_sum a / rnd (of_int (ac_n a)))\<rparr>
         else if ac_typ a = ''counter'' then r\<lparr>red_Increase := ac_inc a\<rparr>
         else if ac_typ a = ''histogram'' then
           r\<lparr>red_Count := ac_count a, red_Sum := ac_hsum a,
             red_Buckets := (if ac_relaid a then []
               else concat (map (\<lambda>(b, c). case b of None \<Rightarrow> [] | Some le \<Rightarrow> [(le, c)]) (zip (ac_bounds a) (ac_buckets a))))\<rparr>
         else r)"

text \<open>The loop over an accumulator's buckets reads the bound of each.\<close>

definition reducible :: "accumulator \<Rightarrow> bool" where
  "reducible a \<longleftrightarrow> ac_n a = 0 \<or> ac_typ a \<noteq> ''histogram'' \<or> ac_relaid a \<or> length (ac_buckets a) \<le> length (ac_bounds a)"

definition ReduceWindow :: "(rat \<Rightarrow> rat) \<Rightarrow> sample list \<Rightarrow> int \<Rightarrow> int \<Rightarrow> int \<Rightarrow> server_side option" where
  "ReduceWindow rnd samples epoch startNs endNs =
     Option.bind (samples_loop rnd (epoch + startNs) (epoch + endNs) (sort_key sm_At samples) [] []) (\<lambda>(accs, inWindow).
       if list_all (\<lambda>((r, name), a). r \<in> set inWindow \<longrightarrow> reducible a) accs
       then Some (map (\<lambda>r. (r, map (\<lambda>((r', name), a). (name, reduction_of rnd a)) (filter (\<lambda>((r', name), a). r' = r \<and> ac_n a \<noteq> 0) accs))) inWindow)
       else None)"

section \<open>One accumulator per replica and family\<close>

text \<open>The observations of one family of one replica, each with whether it lies before the window.\<close>

definition events :: "int \<Rightarrow> string \<Rightarrow> string \<Rightarrow> sample list \<Rightarrow> (bool \<times> family) list" where
  "events start r n ss =
     concat (map (\<lambda>s. if sm_Replica s = r then (case map_of (sm_Families s) n of None \<Rightarrow> [] | Some f \<Rightarrow> [(sm_At s < start, f)]) else []) ss)"

fun acc_run :: "(rat \<Rightarrow> rat) \<Rightarrow> (bool \<times> family) list \<Rightarrow> accumulator option \<Rightarrow> accumulator option option" where
  "acc_run rnd [] a = Some a"
| "acc_run rnd ((b, f) # evs) a =
     Option.bind (observe rnd b f (case a of Some x \<Rightarrow> x | None \<Rightarrow> new_accumulator (fa_Type f))) (\<lambda>x. acc_run rnd evs (Some x))"

lemma acc_run_append: "acc_run rnd (xs @ ys) a = Option.bind (acc_run rnd xs a) (acc_run rnd ys)"
  by (induction rnd xs a rule: acc_run.induct) (auto split: bind_splits)

lemma families_isolated:
  assumes "families_loop rnd b rep fams accs = Some accs'" and "distinct (map fst fams)"
  shows "acc_run rnd (if rep = r then (case map_of fams n of None \<Rightarrow> [] | Some f \<Rightarrow> [(b, f)]) else []) (map_of accs (r, n)) = Some (map_of accs' (r, n))"
  using assms
proof (induction fams arbitrary: accs)
  case (Cons nf fams)
  obtain name f where nf: "nf = (name, f)" by force
  obtain a where a: "observe rnd b f (acc_of accs rep name f) = Some a"
    and rest: "families_loop rnd b rep fams (AList.update (rep, name) a accs) = Some accs'"
    using Cons.prems(1) by (auto simp: nf Option.bind_eq_Some_conv)
  have IH: "acc_run rnd (if rep = r then (case map_of fams n of None \<Rightarrow> [] | Some f \<Rightarrow> [(b, f)]) else [])
      (map_of (AList.update (rep, name) a accs) (r, n)) = Some (map_of accs' (r, n))"
    using Cons.IH [OF rest] Cons.prems(2) by (simp add: nf)
  show ?case
  proof (cases "rep = r \<and> name = n")
    case True
    then have "map_of fams n = None" using Cons.prems(2) by (simp add: nf map_of_eq_None_iff)
    then have "map_of accs' (r, n) = Some a" using IH True by (simp add: update_conv')
    moreover have "observe rnd b f (case map_of accs (r, n) of None \<Rightarrow> new_accumulator (fa_Type f) | Some x \<Rightarrow> x) = Some a"
      using a True by (simp add: acc_of_def)
    ultimately show ?thesis using True by (simp add: nf)
  next
    case False
    then show ?thesis using IH by (auto simp: nf update_conv')
  qed
qed simp

lemma samples_isolated:
  assumes "samples_loop rnd start endT ss accs inW = Some (accs', inW')" and "\<forall>s\<in>set ss. distinct (map fst (sm_Families s))"
  shows "acc_run rnd (events start r n (takeWhile (\<lambda>s. sm_At s < endT) ss)) (map_of accs (r, n)) = Some (map_of accs' (r, n))"
  using assms
proof (induction ss arbitrary: accs inW)
  case (Cons s ss)
  show ?case
  proof (cases "sm_At s < endT")
    case True
    then obtain accs1 inW1 where one: "families_loop rnd (sm_At s < start) (sm_Replica s) (sm_Families s) accs = Some accs1"
      and rest: "samples_loop rnd start endT ss accs1 inW1 = Some (accs', inW')"
      using Cons.prems(1) by (auto simp: Option.bind_eq_Some_conv)
    have "events start r n (s # takeWhile (\<lambda>s. sm_At s < endT) ss)
        = (if sm_Replica s = r then (case map_of (sm_Families s) n of None \<Rightarrow> [] | Some f \<Rightarrow> [(sm_At s < start, f)]) else [])
          @ events start r n (takeWhile (\<lambda>s. sm_At s < endT) ss)"
      by (simp add: events_def)
    then show ?thesis using True Cons.IH [OF rest] families_isolated [OF one, of r n] Cons.prems(2) by (simp add: acc_run_append)
  next
    case False
    then show ?thesis using Cons.prems(1) by (simp add: events_def)
  qed
qed (simp add: events_def)

section \<open>The increase of a histogram\<close>

definition wf_family :: "family \<Rightarrow> bool" where
  "wf_family f \<longleftrightarrow> length (fa_buckets f) = length (fa_bounds f) \<and> (\<forall>s\<in>set (fa_series f). length (sr_buckets s) = length (fa_bounds f))
     \<and> distinct (map sr_labels (fa_series f))"

lemma wf_seriesOf:
  assumes "wf_family f"
  shows "\<forall>s\<in>set (seriesOf f). length (sr_buckets s) = length (fa_bounds f)" and "distinct (map sr_labels (seriesOf f))"
  using assms by (auto simp: wf_family_def seriesOf_def)

lemma sameBounds_eq [simp]: "sameBounds a b \<longleftrightarrow> a = b"
  by (induction a b rule: sameBounds.induct) auto

lemma buckets_defined:
  "length cs = length ps \<Longrightarrow> bucketsFell cs ps \<noteq> None"
  "length xs \<le> length acc \<Longrightarrow> \<exists>bk. add_buckets acc xs = Some bk \<and> length bk = length acc"
  "length xs = length ps \<Longrightarrow> \<exists>d. sub_buckets xs ps = Some d \<and> length d = length xs"
proof -
  show "length cs = length ps \<Longrightarrow> bucketsFell cs ps \<noteq> None" by (induction cs ps rule: bucketsFell.induct) auto
  show "length xs \<le> length acc \<Longrightarrow> \<exists>bk. add_buckets acc xs = Some bk \<and> length bk = length acc"
    by (induction acc xs rule: add_buckets.induct) auto
  show "length xs = length ps \<Longrightarrow> \<exists>d. sub_buckets xs ps = Some d \<and> length d = length xs"
    by (induction xs ps rule: sub_buckets.induct) auto
qed

definition cnt :: "series option \<Rightarrow> uint64" where
  "cnt p = (case p of None \<Rightarrow> 0 | Some s \<Rightarrow> sr_count s)"

definition total_count :: "(string \<rightharpoonup> series) \<Rightarrow> uint64" where
  "total_count m = (\<Sum>l\<in>dom m. cnt (m l))"

lemma total_count_upd:
  assumes "finite (dom m)"
  shows "total_count (m(l \<mapsto> s)) = total_count m + (sr_count s - cnt (m l))"
proof -
  have eq: "(\<Sum>x\<in>dom m - {l}. cnt ((m(l \<mapsto> s)) x)) = (\<Sum>x\<in>dom m - {l}. cnt (m x))" by (rule sum.cong) auto
  have "total_count (m(l \<mapsto> s)) = sr_count s + (\<Sum>x\<in>dom m - {l}. cnt (m x))"
    unfolding total_count_def dom_fun_upd using assms eq by (simp add: sum.insert_remove cnt_def)
  moreover have "total_count m = cnt (m l) + (\<Sum>x\<in>dom m - {l}. cnt (m x))"
    using assms unfolding total_count_def by (cases "l \<in> dom m") (auto simp: sum.remove cnt_def domIff)
  ultimately show ?thesis by simp
qed

lemma remember_Cons [simp]: "remember (s # ss) m = remember ss (m(sr_labels s \<mapsto> s))"
  by (simp add: remember_def)

lemma remember_Nil [simp]: "remember [] m = m"
  by (simp add: remember_def)

lemma remember_facts:
  "finite (dom m) \<Longrightarrow> finite (dom (remember ss m))"
  "ran (remember ss m) \<subseteq> ran m \<union> set ss"
  "l \<notin> sr_labels ` set ss \<Longrightarrow> remember ss m l = m l"
  "distinct (map sr_labels ss) \<Longrightarrow> s \<in> set ss \<Longrightarrow> remember ss m (sr_labels s) = Some s"
proof -
  show "finite (dom m) \<Longrightarrow> finite (dom (remember ss m))" by (induction ss arbitrary: m) auto
  show "ran (remember ss m) \<subseteq> ran m \<union> set ss"
  proof (induction ss arbitrary: m)
    case (Cons s ss)
    have "ran (m(sr_labels s \<mapsto> s)) \<subseteq> ran m \<union> {s}" by (auto simp: ran_def)
    then have "ran (m(sr_labels s \<mapsto> s)) \<union> set ss \<subseteq> ran m \<union> set (s # ss)" by auto
    then show ?case unfolding remember_Cons by (rule subset_trans [OF Cons.IH])
  qed simp
  show other: "l \<notin> sr_labels ` set ss \<Longrightarrow> remember ss m l = m l" for l ss m by (induction ss arbitrary: m) auto
  show "distinct (map sr_labels ss) \<Longrightarrow> s \<in> set ss \<Longrightarrow> remember ss m (sr_labels s) = Some s"
  proof (induction ss arbitrary: m)
    case (Cons t ss)
    then show ?case using other [of "sr_labels t" ss "m(sr_labels t \<mapsto> t)"] by (cases "s = t") auto
  qed simp
qed

lemma total_remember:
  assumes "finite (dom m)" and "distinct (map sr_labels ss)"
  shows "total_count (remember ss m) = total_count m + (\<Sum>s\<leftarrow>ss. sr_count s - cnt (m (sr_labels s)))"
  using assms
proof (induction ss arbitrary: m)
  case (Cons s ss)
  have eq: "map (\<lambda>t. sr_count t - cnt ((m(sr_labels s \<mapsto> s)) (sr_labels t))) ss = map (\<lambda>t. sr_count t - cnt (m (sr_labels t))) ss"
    using Cons.prems(2) by (auto simp: image_iff)
  have IH: "total_count (remember ss (m(sr_labels s \<mapsto> s)))
      = total_count (m(sr_labels s \<mapsto> s)) + (\<Sum>t\<leftarrow>ss. sr_count t - cnt ((m(sr_labels s \<mapsto> s)) (sr_labels t)))"
    using Cons.prems by (intro Cons.IH [where m = "m(sr_labels s \<mapsto> s)"]) (simp_all only: dom_fun_upd, simp_all)
  show ?case unfolding remember_Cons IH eq total_count_upd [OF Cons.prems(1)] by simp
qed simp

text \<open>What an accumulator of a histogram keeps: one bucket for every bound, here and in every set it remembers.\<close>

definition acc_ok :: "accumulator \<Rightarrow> bool" where
  "acc_ok a \<longleftrightarrow> ac_typ a = ''histogram'' \<and> finite (dom (ac_prev a))
     \<and> (ac_started a \<longrightarrow> length (ac_buckets a) = length (ac_bounds a) \<and> (\<forall>s\<in>ran (ac_prev a). length (sr_buckets s) = length (ac_bounds a)))"

text \<open>Everything but the sums, the buckets and the reset flag is left alone by the loop over the label sets.\<close>

definition same_frame :: "accumulator \<Rightarrow> accumulator \<Rightarrow> bool" where
  "same_frame a a' \<longleftrightarrow> ac_typ a' = ac_typ a \<and> ac_started a' = ac_started a \<and> ac_prev a' = ac_prev a \<and> ac_n a' = ac_n a
     \<and> ac_bounds a' = ac_bounds a \<and> length (ac_buckets a') = length (ac_buckets a) \<and> ac_relaid a' = ac_relaid a"

lemma fell_count:
  assumes "series_fell s q = Some False"
  shows "sr_count q \<le> sr_count s"
  using assms by (auto simp: series_fell_def split: if_splits)

lemma histogram_series_new_layout:
  "\<exists>a'. histogram_series rnd False a s = Some a' \<and> same_frame a a' \<and> ac_reset a' = ac_reset a"
  by (cases "ac_prev a (sr_labels s)") (auto simp: histogram_series_def same_frame_def)

lemma histogram_series_same_layout:
  assumes "length (sr_buckets s) = length (ac_buckets a)" and "\<forall>q. ac_prev a (sr_labels s) = Some q \<longrightarrow> length (sr_buckets q) = length (ac_buckets a)"
  shows "\<exists>a'. histogram_series rnd True a s = Some a' \<and> same_frame a a'
     \<and> (\<not> ac_reset a' \<longrightarrow> \<not> ac_reset a \<and> ac_count a' = ac_count a + (sr_count s - cnt (ac_prev a (sr_labels s)))
          \<and> (\<forall>q. ac_prev a (sr_labels s) = Some q \<longrightarrow> sr_count q \<le> sr_count s))"
proof (cases "ac_prev a (sr_labels s)")
  case None
  with buckets_defined(2) [of "sr_buckets s" "ac_buckets a"] assms(1) show ?thesis
    by (auto simp: histogram_series_def same_frame_def cnt_def)
next
  case (Some q)
  then have len: "length (sr_buckets s) = length (sr_buckets q)" using assms by simp
  have "series_fell s q \<noteq> None" using buckets_defined(1) [OF len] by (auto simp: series_fell_def)
  then obtain fell where fell: "series_fell s q = Some fell" by blast
  obtain bk where bk: "add_buckets (ac_buckets a) (sr_buckets s) = Some bk" "length bk = length (ac_buckets a)"
    using buckets_defined(2) [of "sr_buckets s" "ac_buckets a"] assms(1) by auto
  obtain d where d: "sub_buckets (sr_buckets s) (sr_buckets q) = Some d" "length d = length (sr_buckets s)"
    using buckets_defined(3) [OF len] by auto
  obtain bk' where bk': "add_buckets (ac_buckets a) d = Some bk'" "length bk' = length (ac_buckets a)"
    using buckets_defined(2) [of d "ac_buckets a"] d(2) assms(1) by auto
  show ?thesis using fell_count [of s q] fell bk d bk' Some
    by (cases fell) (auto simp: histogram_series_def same_frame_def cnt_def)
qed

lemma same_frame_trans: "same_frame a b \<Longrightarrow> same_frame b c \<Longrightarrow> same_frame a c"
  by (simp add: same_frame_def)

lemma histogram_loop_new_layout:
  "\<exists>a'. histogram_loop rnd False ss a = Some a' \<and> same_frame a a' \<and> ac_reset a' = ac_reset a"
proof (induction ss arbitrary: a)
  case (Cons s ss)
  obtain a1 where a1: "histogram_series rnd False a s = Some a1" "same_frame a a1" "ac_reset a1 = ac_reset a"
    using histogram_series_new_layout by blast
  obtain a2 where "histogram_loop rnd False ss a1 = Some a2" "same_frame a1 a2" "ac_reset a2 = ac_reset a1" using Cons.IH by blast
  with a1 show ?case by (auto intro: same_frame_trans)
qed (simp add: same_frame_def)

lemma histogram_loop_same_layout:
  assumes "\<forall>s\<in>set ss. length (sr_buckets s) = length (ac_buckets a)" and "\<forall>q\<in>ran (ac_prev a). length (sr_buckets q) = length (ac_buckets a)"
  shows "\<exists>a'. histogram_loop rnd True ss a = Some a' \<and> same_frame a a'
     \<and> (\<not> ac_reset a' \<longrightarrow> \<not> ac_reset a \<and> ac_count a' = ac_count a + (\<Sum>s\<leftarrow>ss. sr_count s - cnt (ac_prev a (sr_labels s)))
          \<and> (\<forall>s\<in>set ss. \<forall>q. ac_prev a (sr_labels s) = Some q \<longrightarrow> sr_count q \<le> sr_count s))"
  using assms
proof (induction ss arbitrary: a)
  case (Cons s ss)
  obtain a1 where a1: "histogram_series rnd True a s = Some a1" "same_frame a a1"
    "\<not> ac_reset a1 \<longrightarrow> \<not> ac_reset a \<and> ac_count a1 = ac_count a + (sr_count s - cnt (ac_prev a (sr_labels s)))
          \<and> (\<forall>q. ac_prev a (sr_labels s) = Some q \<longrightarrow> sr_count q \<le> sr_count s)"
    using histogram_series_same_layout [of s a rnd] Cons.prems by (auto simp: ran_def)
  have fr: "ac_prev a1 = ac_prev a" "length (ac_buckets a1) = length (ac_buckets a)" using a1(2) by (simp_all add: same_frame_def)
  obtain a2 where a2: "histogram_loop rnd True ss a1 = Some a2" "same_frame a1 a2"
    "\<not> ac_reset a2 \<longrightarrow> \<not> ac_reset a1 \<and> ac_count a2 = ac_count a1 + (\<Sum>s\<leftarrow>ss. sr_count s - cnt (ac_prev a (sr_labels s)))
          \<and> (\<forall>s\<in>set ss. \<forall>q. ac_prev a (sr_labels s) = Some q \<longrightarrow> sr_count q \<le> sr_count s)"
    using Cons.IH [of a1] Cons.prems unfolding fr by auto
  from a1 a2 show ?case by (auto simp: add.assoc intro: same_frame_trans)
qed (simp add: same_frame_def)

lemma acc_start_facts:
  "ac_typ (acc_start f a) = ac_typ a" "ac_n (acc_start f a) = ac_n a" "ac_count (acc_start f a) = ac_count a"
  "ac_reset (acc_start f a) = ac_reset a" "ac_relaid (acc_start f a) = ac_relaid a" "ac_started (acc_start f a)"
  "ac_bounds (acc_start f a) = fa_bounds f"
  "ac_prev (acc_start f a) = remember (seriesOf f) (if ac_started a \<and> ac_bounds a = fa_bounds f then ac_prev a else Map.empty)"
  by (auto simp: acc_start_def Let_def)

lemma acc_start_ok:
  assumes "acc_ok a" and "wf_family f"
  shows "acc_ok (acc_start f a)"
proof -
  let ?m = "if ac_started a \<and> ac_bounds a = fa_bounds f then ac_prev a else Map.empty"
  have "\<forall>s\<in>ran ?m \<union> set (seriesOf f). length (sr_buckets s) = length (fa_bounds f)"
    using assms wf_seriesOf(1) [OF assms(2)] by (auto simp: acc_ok_def)
  then have "\<forall>s\<in>ran (remember (seriesOf f) ?m). length (sr_buckets s) = length (fa_bounds f)"
    using remember_facts(2) [of "seriesOf f" ?m] by blast
  moreover have "length (ac_buckets (acc_start f a)) = length (fa_bounds f)"
    using assms by (auto simp: acc_start_def Let_def acc_ok_def wf_family_def)
  moreover have "finite (dom (remember (seriesOf f) ?m))" using assms(1) by (intro remember_facts(1)) (simp add: acc_ok_def)
  ultimately show ?thesis using assms(1) unfolding acc_ok_def acc_start_facts by blast
qed

text \<open>A step by a sample of the layout the accumulator measures in.\<close>

lemma acc_step_same_layout:
  assumes "acc_ok a" and "wf_family f" and "fa_Type f = ''histogram''" and "ac_started a" and "ac_bounds a = fa_bounds f"
  shows "\<exists>a'. acc_step rnd f a = Some a' \<and> acc_ok a' \<and> ac_started a' \<and> ac_bounds a' = ac_bounds a \<and> ac_n a' = ac_n a
     \<and> ac_prev a' = remember (seriesOf f) (ac_prev a) \<and> ac_relaid a' = ac_relaid a
     \<and> (\<not> ac_reset a' \<longrightarrow> \<not> ac_reset a \<and> ac_count a' = ac_count a + (total_count (ac_prev a') - total_count (ac_prev a))
          \<and> (\<forall>l. cnt (ac_prev a l) \<le> cnt (ac_prev a' l)))"
proof -
  note ws = wf_seriesOf [OF assms(2)]
  have lens: "\<forall>s\<in>set (seriesOf f). length (sr_buckets s) = length (ac_buckets a)"
    "\<forall>q\<in>ran (ac_prev a). length (sr_buckets q) = length (ac_buckets a)" "finite (dom (ac_prev a))"
    using ws(1) assms by (auto simp: acc_ok_def)
  obtain a1 where a1: "histogram_loop rnd True (seriesOf f) a = Some a1" "same_frame a a1"
    "\<not> ac_reset a1 \<longrightarrow> \<not> ac_reset a \<and> ac_count a1 = ac_count a + (\<Sum>s\<leftarrow>seriesOf f. sr_count s - cnt (ac_prev a (sr_labels s)))
          \<and> (\<forall>s\<in>set (seriesOf f). \<forall>q. ac_prev a (sr_labels s) = Some q \<longrightarrow> sr_count q \<le> sr_count s)"
    using histogram_loop_same_layout [OF lens(1,2)] by blast
  define a' where "a' = a1\<lparr>ac_prev := remember (seriesOf f) (ac_prev a1)\<rparr>"
  have step: "acc_step rnd f a = Some a'" using assms a1(1) by (simp add: acc_step_def Let_def a'_def)
  have fr: "ac_typ a' = ac_typ a" "ac_started a'" "ac_bounds a' = ac_bounds a" "ac_n a' = ac_n a" "ac_relaid a' = ac_relaid a"
    "length (ac_buckets a') = length (ac_buckets a)" "ac_prev a' = remember (seriesOf f) (ac_prev a)" "ac_reset a' = ac_reset a1" "ac_count a' = ac_count a1"
    using a1(2) assms(4) by (auto simp: same_frame_def a'_def)
  have mono: "cnt (ac_prev a l) \<le> cnt (remember (seriesOf f) (ac_prev a) l)" if "\<not> ac_reset a1" for l
  proof (cases "l \<in> sr_labels ` set (seriesOf f)")
    case True
    then obtain s where s: "s \<in> set (seriesOf f)" "l = sr_labels s" by blast
    with remember_facts(4) [OF ws(2) s(1)] a1(3) that show ?thesis by (cases "ac_prev a l") (auto simp: cnt_def)
  next
    case False
    then show ?thesis by (simp add: remember_facts(3))
  qed
  have "\<forall>s\<in>ran (remember (seriesOf f) (ac_prev a)). length (sr_buckets s) = length (ac_buckets a)"
    using lens(1,2) remember_facts(2) [of "seriesOf f" "ac_prev a"] by blast
  then have "acc_ok a'" using assms(1,4) remember_facts(1) [OF lens(3)] unfolding acc_ok_def fr by auto
  then show ?thesis using step a1(3) mono fr total_remember [OF lens(3) ws(2)] by auto
qed

text \<open>Whatever the layout, a step by a well-formed sample of the same type succeeds.\<close>

lemma acc_step_ok:
  assumes "acc_ok a" and "wf_family f" and "fa_Type f = ''histogram''"
  shows "\<exists>a'. acc_step rnd f a = Some a' \<and> acc_ok a' \<and> ac_started a' \<and> ac_n a' = ac_n a"
proof (cases "ac_started a \<and> ac_bounds a = fa_bounds f")
  case True
  then show ?thesis using acc_step_same_layout [OF assms] by blast
next
  case False
  show ?thesis
  proof (cases "ac_started a")
    case True
    define a1 where "a1 = a\<lparr>ac_relaid := True, ac_reset := True\<rparr>"
    obtain a2 where a2: "histogram_loop rnd False (seriesOf f) a1 = Some a2" "same_frame a1 a2"
      using histogram_loop_new_layout by blast
    have "acc_ok a2" using a2(2) assms(1) by (simp add: same_frame_def acc_ok_def a1_def)
    then have "acc_ok (acc_start f a2)" by (rule acc_start_ok [OF _ assms(2)])
    moreover have "acc_step rnd f a = Some (acc_start f a2)"
      using False True assms(3) a2(1) by (auto simp: acc_step_def Let_def a1_def)
    ultimately show ?thesis using a2(2) by (simp add: acc_start_facts same_frame_def a1_def)
  next
    case False
    then have "acc_step rnd f a = Some (acc_start f a)" by (simp add: acc_step_def)
    then show ?thesis using acc_start_ok [OF assms(1,2)] by (simp add: acc_start_facts)
  qed
qed

section \<open>No index out of range\<close>

text \<open>Samples as the sampler builds them: each family of a sample once, with one bucket per bound and distinct label sets,
  and of one type over the run.\<close>

definition good_samples :: "(string \<Rightarrow> string \<Rightarrow> string) \<Rightarrow> sample list \<Rightarrow> bool" where
  "good_samples T ss \<longleftrightarrow> (\<forall>s\<in>set ss. distinct (map fst (sm_Families s))
     \<and> (\<forall>nf\<in>set (sm_Families s). wf_family (snd nf) \<and> fa_Type (snd nf) = T (sm_Replica s) (fst nf)))"

definition key_ok :: "string \<Rightarrow> accumulator \<Rightarrow> bool" where
  "key_ok typ a \<longleftrightarrow> ac_typ a = typ \<and> (typ = ''histogram'' \<longrightarrow> acc_ok a \<and> ac_started a)"

definition accs_ok :: "(string \<Rightarrow> string \<Rightarrow> string) \<Rightarrow> accs \<Rightarrow> bool" where
  "accs_ok T accs \<longleftrightarrow> distinct (map fst accs) \<and> (\<forall>r n a. map_of accs (r, n) = Some a \<longrightarrow> key_ok (T r n) a)"

lemma counter_typ: "ac_typ (foldl (counter_series rnd) a ss) = ac_typ a"
proof (induction ss arbitrary: a)
  case (Cons s ss)
  have "ac_typ (counter_series rnd a s) = ac_typ a" by (simp add: counter_series_def Let_def split: option.split)
  with Cons.IH [of "counter_series rnd a s"] show ?case by simp
qed simp

lemma acc_ok_simps [simp]: "acc_ok (a\<lparr>ac_sum := x, ac_n := k\<rparr>) = acc_ok a" "acc_ok (new_accumulator ''histogram'')"
  by (simp_all add: acc_ok_def new_accumulator_def)

lemma observe_ok:
  assumes "wf_family f" and "fa_Type f = typ" and "ac_typ a = typ" and "typ = ''histogram'' \<longrightarrow> acc_ok a"
  shows "\<exists>a'. observe rnd b f a = Some a' \<and> key_ok typ a'"
proof (cases "typ = ''histogram''")
  case True
  with assms acc_step_ok [of a f rnd] acc_start_ok [of a f] show ?thesis
    by (auto simp: observe_def key_ok_def acc_start_facts acc_ok_def [of "acc_start f a"] dest: acc_ok_def [THEN iffD1])
next
  case False
  then show ?thesis using assms by (auto simp: observe_def key_ok_def acc_start_facts acc_step_def counter_typ)
qed

lemma families_ok:
  assumes "accs_ok T accs" and "\<forall>nf\<in>set fams. wf_family (snd nf) \<and> fa_Type (snd nf) = T rep (fst nf)"
  shows "\<exists>accs'. families_loop rnd b rep fams accs = Some accs' \<and> accs_ok T accs'"
  using assms
proof (induction fams arbitrary: accs)
  case (Cons nf fams)
  obtain n f where nf: "nf = (n, f)" by force
  have f: "wf_family f" "fa_Type f = T rep n" using Cons.prems(2) by (simp_all add: nf)
  have "key_ok (T rep n) a" if "map_of accs (rep, n) = Some a" for a using Cons.prems(1) that by (simp add: accs_ok_def)
  then have "ac_typ (acc_of accs rep n f) = T rep n \<and> (T rep n = ''histogram'' \<longrightarrow> acc_ok (acc_of accs rep n f))"
    using f(2) by (cases "map_of accs (rep, n)") (auto simp: acc_of_def key_ok_def new_accumulator_def acc_ok_def)
  with observe_ok [OF f] obtain a where a: "observe rnd b f (acc_of accs rep n f) = Some a" "key_ok (T rep n) a" by blast
  have "accs_ok T (AList.update (rep, n) a accs)"
    using Cons.prems(1) a(2) by (auto simp: accs_ok_def distinct_update update_conv')
  from Cons.IH [OF this] Cons.prems(2) a(1) show ?case by (auto simp: nf)
qed simp

lemma samples_ok:
  assumes "accs_ok T accs" and "good_samples T ss"
  shows "\<exists>accs' inW'. samples_loop rnd start endT ss accs inW = Some (accs', inW') \<and> accs_ok T accs'
     \<and> set inW' = set inW \<union> sm_Replica ` {s \<in> set (takeWhile (\<lambda>s. sm_At s < endT) ss). \<not> sm_At s < start \<and> sm_Families s \<noteq> []}"
  using assms
proof (induction ss arbitrary: accs inW)
  case (Cons s ss)
  show ?case
  proof (cases "sm_At s < endT")
    case True
    have "\<forall>nf\<in>set (sm_Families s). wf_family (snd nf) \<and> fa_Type (snd nf) = T (sm_Replica s) (fst nf)"
      using Cons.prems(2) by (simp add: good_samples_def)
    from families_ok [OF Cons.prems(1) this] obtain accs1 where
      one: "families_loop rnd (sm_At s < start) (sm_Replica s) (sm_Families s) accs = Some accs1" "accs_ok T accs1" by blast
    define inW1 where "inW1 = (if \<not> sm_At s < start \<and> sm_Families s \<noteq> [] then List.insert (sm_Replica s) inW else inW)"
    have "good_samples T ss" using Cons.prems(2) by (simp add: good_samples_def)
    from Cons.IH [OF one(2) this, of inW1] obtain accs' inW' where
      rest: "samples_loop rnd start endT ss accs1 inW1 = Some (accs', inW')" "accs_ok T accs'"
      "set inW' = set inW1 \<union> sm_Replica ` {s \<in> set (takeWhile (\<lambda>s. sm_At s < endT) ss). \<not> sm_At s < start \<and> sm_Families s \<noteq> []}"
      by blast
    have "set inW1 = set inW \<union> sm_Replica ` {t \<in> {s}. \<not> sm_At t < start \<and> sm_Families t \<noteq> []}" by (auto simp: inW1_def)
    then have "set inW' = set inW \<union> sm_Replica ` {t \<in> set (takeWhile (\<lambda>s. sm_At s < endT) (s # ss)). \<not> sm_At t < start \<and> sm_Families t \<noteq> []}"
      using rest(3) True by auto
    then show ?thesis using rest(1,2) one(1) True by (simp add: inW1_def)
  qed (use Cons.prems(1) in simp)
qed simp

lemma accs_reducible:
  assumes "accs_ok T accs"
  shows "list_all (\<lambda>((r, name), a). r \<in> set inW \<longrightarrow> reducible a) accs"
proof -
  have "reducible a" if "((r, n), a) \<in> set accs" for r n a
  proof -
    have "key_ok (T r n) a" using assms that map_of_is_SomeI [of accs "(r, n)" a] by (simp add: accs_ok_def)
    then show ?thesis by (auto simp: key_ok_def reducible_def acc_ok_def)
  qed
  then show ?thesis by (auto simp: list_all_iff)
qed

section \<open>The increase over a window\<close>

definition families_of :: "string \<Rightarrow> string \<Rightarrow> sample list \<Rightarrow> family list" where
  "families_of r n ss = concat (map (\<lambda>s. if sm_Replica s = r then (case map_of (sm_Families s) n of None \<Rightarrow> [] | Some f \<Rightarrow> [f]) else []) ss)"

definition seen_before :: "int \<Rightarrow> string \<Rightarrow> string \<Rightarrow> sample list \<Rightarrow> family list" where
  "seen_before start r n samples = families_of r n (filter (\<lambda>s. sm_At s < start) (sort_key sm_At samples))"

definition seen_inside :: "int \<Rightarrow> int \<Rightarrow> string \<Rightarrow> string \<Rightarrow> sample list \<Rightarrow> family list" where
  "seen_inside start endT r n samples = families_of r n (filter (\<lambda>s. \<not> sm_At s < start \<and> sm_At s < endT) (sort_key sm_At samples))"

definition latest :: "family list \<Rightarrow> string \<rightharpoonup> series" where
  "latest fs = foldl (\<lambda>m f. remember (seriesOf f) m) Map.empty fs"

lemma sorted_takeWhile_filter:
  fixes key :: "'a \<Rightarrow> int"
  assumes "sorted (map key xs)"
  shows "takeWhile (\<lambda>x. key x < c) xs = filter (\<lambda>x. key x < c) xs"
  using assms by (induction xs) (auto simp: filter_empty_conv eq_commute [of "[]"])

lemma events_split:
  assumes "sorted (map sm_At ss)"
  shows "events start r n ss = map (Pair True) (families_of r n (filter (\<lambda>s. sm_At s < start) ss))
     @ map (Pair False) (families_of r n (filter (\<lambda>s. \<not> sm_At s < start) ss))"
  using assms
proof (induction ss)
  case (Cons s ss)
  have none: "\<not> sm_At s < start \<Longrightarrow> filter (\<lambda>t. sm_At t < start) ss = []" using Cons.prems by (auto simp: filter_empty_conv)
  have "events start r n (s # ss) = (if sm_Replica s = r then (case map_of (sm_Families s) n of None \<Rightarrow> [] | Some f \<Rightarrow> [(sm_At s < start, f)]) else [])
      @ events start r n ss" by (simp add: events_def)
  then show ?case using Cons.IH Cons.prems none by (auto simp: families_of_def split: option.split)
qed (simp add: events_def families_of_def)

lemma run_before:
  assumes "acc_ok a" and "ac_started a" and "ac_bounds a = b" and "\<forall>f\<in>set fs. wf_family f \<and> fa_bounds f = b"
  shows "\<exists>a'. acc_run rnd (map (Pair True) fs) (Some a) = Some (Some a') \<and> acc_ok a' \<and> ac_started a' \<and> ac_bounds a' = b \<and> ac_n a' = ac_n a
     \<and> ac_count a' = ac_count a \<and> ac_reset a' = ac_reset a \<and> ac_prev a' = foldl (\<lambda>m f. remember (seriesOf f) m) (ac_prev a) fs"
  using assms
proof (induction fs arbitrary: a)
  case (Cons f fs)
  then show ?case using Cons.IH [of "acc_start f a"] acc_start_ok [of a f] by (simp add: observe_def acc_start_facts)
qed simp

text \<open>Samples of one layout inside the window: the count grows by what the label sets' counts grow by.\<close>

lemma run_inside:
  assumes "acc_ok a" and "ac_started a" and "ac_bounds a = b" and "\<forall>f\<in>set fs. wf_family f \<and> fa_bounds f = b \<and> fa_Type f = ''histogram''"
  shows "\<exists>a'. acc_run rnd (map (Pair False) fs) (Some a) = Some (Some a') \<and> acc_ok a' \<and> ac_n a' = ac_n a + int (length fs)
     \<and> ac_prev a' = foldl (\<lambda>m f. remember (seriesOf f) m) (ac_prev a) fs
     \<and> (\<not> ac_reset a' \<longrightarrow> \<not> ac_reset a \<and> ac_count a' = ac_count a + (total_count (ac_prev a') - total_count (ac_prev a))
          \<and> (\<forall>l. cnt (ac_prev a l) \<le> cnt (ac_prev a' l)))"
  using assms
proof (induction fs arbitrary: a)
  case (Cons f fs)
  obtain a1 where a1: "acc_step rnd f a = Some a1" "acc_ok a1" "ac_started a1" "ac_bounds a1 = b" "ac_n a1 = ac_n a"
    "ac_prev a1 = remember (seriesOf f) (ac_prev a)"
    "\<not> ac_reset a1 \<longrightarrow> \<not> ac_reset a \<and> ac_count a1 = ac_count a + (total_count (ac_prev a1) - total_count (ac_prev a)) \<and> (\<forall>l. cnt (ac_prev a l) \<le> cnt (ac_prev a1 l))"
    using acc_step_same_layout [of a f rnd] Cons.prems by auto
  define a2 where "a2 = a1\<lparr>ac_sum := rnd (ac_sum a1 + fa_Value f), ac_n := ac_n a1 + 1\<rparr>"
  have a2: "acc_ok a2" "ac_started a2" "ac_bounds a2 = b" "ac_n a2 = ac_n a + 1" "ac_prev a2 = ac_prev a1" "ac_count a2 = ac_count a1" "ac_reset a2 = ac_reset a1"
    using a1 by (simp_all add: a2_def)
  obtain a' where a': "acc_run rnd (map (Pair False) fs) (Some a2) = Some (Some a')" "acc_ok a'" "ac_n a' = ac_n a2 + int (length fs)"
    "ac_prev a' = foldl (\<lambda>m f. remember (seriesOf f) m) (ac_prev a2) fs"
    "\<not> ac_reset a' \<longrightarrow> \<not> ac_reset a2 \<and> ac_count a' = ac_count a2 + (total_count (ac_prev a') - total_count (ac_prev a2)) \<and> (\<forall>l. cnt (ac_prev a2 l) \<le> cnt (ac_prev a' l))"
    using Cons.IH [OF a2(1-3)] Cons.prems by auto
  have run: "acc_run rnd (map (Pair False) (f # fs)) (Some a) = Some (Some a')" using a1(1) a'(1) by (simp add: observe_def a2_def)
  have grow: "\<not> ac_reset a' \<longrightarrow> \<not> ac_reset a \<and> ac_count a' = ac_count a + (total_count (ac_prev a') - total_count (ac_prev a)) \<and> (\<forall>l. cnt (ac_prev a l) \<le> cnt (ac_prev a' l))"
  proof (intro impI conjI allI)
    assume nr: "\<not> ac_reset a'"
    then show "\<not> ac_reset a" and "ac_count a' = ac_count a + (total_count (ac_prev a') - total_count (ac_prev a))"
      using a'(5) a1(7) a2 by simp_all
    fix l
    have "cnt (ac_prev a l) \<le> cnt (ac_prev a1 l)" "cnt (ac_prev a1 l) \<le> cnt (ac_prev a' l)" using nr a'(5) a1(7) a2 by simp_all
    then show "cnt (ac_prev a l) \<le> cnt (ac_prev a' l)" by (rule order_trans)
  qed
  show ?case using run a'(2-4) a2(4,5) a1(6) grow by simp
qed simp

lemma families_of_good:
  assumes "good_samples T ss" and "f \<in> set (families_of r n ss)"
  shows "wf_family f \<and> fa_Type f = T r n"
proof -
  obtain s where s: "s \<in> set ss" "sm_Replica s = r" "map_of (sm_Families s) n = Some f"
    using assms(2) by (auto simp: families_of_def split: if_splits option.splits)
  then have "(n, f) \<in> set (sm_Families s)" by (simp add: map_of_SomeD)
  with assms(1) s(1,2) show ?thesis by (fastforce simp: good_samples_def)
qed

lemma map_of_replica:
  assumes "distinct (map fst accs)" and "map_of accs (r, n) = Some a" and "ac_n a \<noteq> 0"
  shows "map_of (map (\<lambda>((r', name), a). (name, g a)) (filter (\<lambda>((r', name), a). r' = r \<and> ac_n a \<noteq> 0) accs)) n = Some (g a)"
  using assms
proof (induction accs)
  case (Cons x accs)
  obtain r' n' a' where x: "x = ((r', n'), a')" by (metis prod.collapse)
  show ?case
  proof (cases "r' = r \<and> n' = n")
    case True
    then show ?thesis using Cons.prems by (simp add: x)
  next
    case False
    then have "map_of accs (r, n) = Some a" using Cons.prems(2) by (auto simp: x split: if_splits)
    with Cons show ?thesis using False by (auto simp: x)
  qed
qed simp

text \<open>The whole run of one histogram whose samples have one layout.\<close>

lemma histogram_run:
  assumes ok: "\<forall>f\<in>set (before @ inside). wf_family f \<and> fa_bounds f = b \<and> fa_Type f = ''histogram''" and "inside \<noteq> []"
    and run: "acc_run rnd (map (Pair True) before @ map (Pair False) inside) None = Some (Some a)"
  shows "ac_typ a = ''histogram'' \<and> ac_n a = int (length inside)
     \<and> (\<not> ac_reset a \<longrightarrow> ac_count a = total_count (latest (before @ inside)) - total_count (latest (if before = [] then [hd inside] else before))
          \<and> (\<forall>l. cnt (latest (if before = [] then [hd inside] else before) l) \<le> cnt (latest (before @ inside) l)))"
proof -
  define a0 where "a0 = new_accumulator ''histogram''"
  have a0: "acc_ok a0" "\<not> ac_started a0" "ac_n a0 = 0" "ac_count a0 = 0" "\<not> ac_reset a0" by (simp_all add: a0_def new_accumulator_def acc_ok_def)
  have started: "acc_ok (acc_start f a0)" "ac_started (acc_start f a0)" "ac_prev (acc_start f a0) = remember (seriesOf f) Map.empty"
    "ac_bounds (acc_start f a0) = b" "ac_n (acc_start f a0) = 0" "ac_count (acc_start f a0) = 0" "\<not> ac_reset (acc_start f a0)"
    if "wf_family f \<and> fa_bounds f = b" for f
    using that a0 acc_start_ok [OF a0(1), of f] by (simp_all add: acc_start_facts)
  show ?thesis
  proof (cases before)
    case Nil
    obtain f fs where inside: "inside = f # fs" using assms(2) by (cases inside) auto
    have f: "wf_family f \<and> fa_bounds f = b" "fa_Type f = ''histogram''" using ok by (simp_all add: inside)
    define a1 where "a1 = (acc_start f a0)\<lparr>ac_sum := rnd (ac_sum (acc_start f a0) + fa_Value f), ac_n := 1\<rparr>"
    have a1: "acc_ok a1" "ac_started a1" "ac_bounds a1 = b" "ac_n a1 = 1" "ac_count a1 = 0" "ac_prev a1 = remember (seriesOf f) Map.empty"
      using started [OF f(1)] by (simp_all add: a1_def)
    have "acc_run rnd (map (Pair False) fs) (Some a1) = Some (Some a)"
      using run f(2) started(5) [OF f(1)] a0(2) by (simp add: Nil inside observe_def acc_step_def a1_def a0_def)
    with run_inside [OF a1(1-3), of fs rnd] ok a1 show ?thesis by (auto simp: Nil inside latest_def acc_ok_def)
  next
    case (Cons f fs)
    have f: "wf_family f \<and> fa_bounds f = b" "fa_Type f = ''histogram''" using ok by (simp_all add: Cons)
    obtain a1 where a1: "acc_run rnd (map (Pair True) fs) (Some (acc_start f a0)) = Some (Some a1)" "acc_ok a1" "ac_started a1"
      "ac_bounds a1 = b" "ac_n a1 = 0" "ac_count a1 = 0" "ac_prev a1 = latest before"
      using run_before [OF started(1) [OF f(1)] started(2) [OF f(1)] started(4) [OF f(1)], of fs rnd] ok started [OF f(1)]
      by (auto simp: Cons latest_def)
    have "acc_run rnd (map (Pair False) inside) (Some a1) = Some (Some a)"
      using run a1(1) f(2) by (simp add: Cons observe_def acc_run_append a0_def)
    with run_inside [OF a1(2-4), of inside rnd] ok a1 show ?thesis by (auto simp: Cons latest_def acc_ok_def)
  qed
qed

lemma acc_run_Some: "acc_run rnd evs (Some a) = Some x \<Longrightarrow> x \<noteq> None"
  by (induction evs arbitrary: a) (auto simp: Option.bind_eq_Some_conv)

lemma acc_run_nonempty:
  assumes "acc_run rnd evs None = Some x" and "evs \<noteq> []"
  shows "x \<noteq> None"
  using assms by (cases evs) (auto simp: Option.bind_eq_Some_conv dest: acc_run_Some)

lemma good_filter: "good_samples T ss \<Longrightarrow> good_samples T (filter p ss)"
  unfolding good_samples_def by auto

lemma seen_good:
  assumes "good_samples T samples" and "f \<in> set (seen_before start r n samples @ seen_inside start endT r n samples)"
  shows "wf_family f \<and> fa_Type f = T r n"
proof -
  have gs: "good_samples T (sort_key sm_At samples)" using assms(1) by (simp add: good_samples_def)
  from assms(2) obtain p where "f \<in> set (families_of r n (filter p (sort_key sm_At samples)))"
    by (auto simp: seen_before_def seen_inside_def)
  with families_of_good [OF good_filter [OF gs]] show ?thesis .
qed

text \<open>The loop over well-formed samples: it succeeds, and the accumulator of a family seen inside the window is the run over that
  family's samples alone.\<close>

lemma window_loop:
  assumes "good_samples T samples" and ne: "seen_inside start endT r n samples \<noteq> []"
  shows "\<exists>accs inW a. samples_loop rnd start endT (sort_key sm_At samples) [] [] = Some (accs, inW) \<and> accs_ok T accs \<and> r \<in> set inW
     \<and> map_of accs (r, n) = Some a
     \<and> acc_run rnd (map (Pair True) (seen_before start r n samples) @ map (Pair False) (seen_inside start endT r n samples)) None = Some (Some a)"
proof -
  define ss where "ss = sort_key sm_At samples"
  have gs: "good_samples T ss" using assms(1) by (simp add: good_samples_def ss_def)
  have "accs_ok T []" by (simp add: accs_ok_def)
  from samples_ok [OF this gs, of rnd start endT "[]"] obtain accs inW where
    loop: "samples_loop rnd start endT ss [] [] = Some (accs, inW)" and ok: "accs_ok T accs"
    and inW: "set inW = sm_Replica ` {s \<in> set (takeWhile (\<lambda>s. sm_At s < endT) ss). \<not> sm_At s < start \<and> sm_Families s \<noteq> []}"
    by auto
  have tw: "takeWhile (\<lambda>s. sm_At s < endT) ss = filter (\<lambda>s. sm_At s < endT) ss" by (rule sorted_takeWhile_filter) (simp add: ss_def)
  obtain s f where s: "s \<in> set ss" "\<not> sm_At s < start" "sm_At s < endT" "sm_Replica s = r" "map_of (sm_Families s) n = Some f"
    using ne unfolding seen_inside_def families_of_def ss_def [symmetric] by (auto split: if_splits option.splits)
  then have lt: "start < endT" and inWr: "r \<in> set inW" unfolding inW tw by auto
  have sorted: "sorted (map sm_At (filter (\<lambda>s. sm_At s < endT) ss))" by (intro sorted_filter) (simp add: ss_def)
  have same: "filter (\<lambda>s. sm_At s < endT \<and> sm_At s < start) ss = filter (\<lambda>s. sm_At s < start) ss"
    "filter (\<lambda>s. sm_At s < endT \<and> \<not> sm_At s < start) ss = filter (\<lambda>s. \<not> sm_At s < start \<and> sm_At s < endT) ss"
    using lt by (auto intro: filter_cong)
  have order: "events start r n (takeWhile (\<lambda>s. sm_At s < endT) ss)
      = map (Pair True) (seen_before start r n samples) @ map (Pair False) (seen_inside start endT r n samples)"
    unfolding tw events_split [OF sorted] filter_filter same by (simp add: seen_before_def seen_inside_def ss_def)
  have "\<forall>s\<in>set ss. distinct (map fst (sm_Families s))" using gs by (simp add: good_samples_def)
  from samples_isolated [OF loop this, of r n]
  have run: "acc_run rnd (map (Pair True) (seen_before start r n samples) @ map (Pair False) (seen_inside start endT r n samples)) None
      = Some (map_of accs (r, n))" unfolding order by simp
  have "map_of accs (r, n) \<noteq> None" by (rule acc_run_nonempty [OF run]) (use ne in simp)
  then show ?thesis using loop ok inWr run by (auto simp: ss_def)
qed

lemma reduction_of_histogram:
  assumes "ac_typ a = ''histogram''"
  shows "red_Samples (reduction_of rnd a) = ac_n a" "red_Count (reduction_of rnd a) = ac_count a" "red_Reset (reduction_of rnd a) = ac_reset a"
  using assms by (simp_all add: reduction_of_def Let_def)

text \<open>Claim C11. The reduction of well-formed samples never reads out of range, and the reported increase of a histogram whose bucket
  layout does not change telescopes: unless a reset is flagged, the count is what the label sets' latest counts sum to at the
  end of the window less what they summed to at the sample it is measured from (the last before the window, or the first
  inside it), in 64-bit arithmetic, and no label set's count has fallen.\<close>

theorem histogram_increase_telescopes:
  fixes samples :: "sample list" and epoch startNs endNs :: int and r n :: string
  defines "before \<equiv> seen_before (epoch + startNs) r n samples" and "inside \<equiv> seen_inside (epoch + startNs) (epoch + endNs) r n samples"
  assumes good: "good_samples T samples" and "T r n = ''histogram''" and "inside \<noteq> []" and "\<forall>f\<in>set (before @ inside). fa_bounds f = b"
  shows "\<exists>out fams red. ReduceWindow rnd samples epoch startNs endNs = Some out \<and> map_of out r = Some fams \<and> map_of fams n = Some red
     \<and> red_Samples red = int (length inside)
     \<and> (\<not> red_Reset red \<longrightarrow>
          red_Count red = total_count (latest (before @ inside)) - total_count (latest (if before = [] then [hd inside] else before))
        \<and> (\<forall>l. cnt (latest (if before = [] then [hd inside] else before) l) \<le> cnt (latest (before @ inside) l)))"
proof -
  obtain accs inW a where loop: "samples_loop rnd (epoch + startNs) (epoch + endNs) (sort_key sm_At samples) [] [] = Some (accs, inW)"
    and ok: "accs_ok T accs" and r: "r \<in> set inW" and a: "map_of accs (r, n) = Some a"
    and run: "acc_run rnd (map (Pair True) before @ map (Pair False) inside) None = Some (Some a)"
    using window_loop [OF good assms(5) [unfolded inside_def], of rnd] unfolding before_def inside_def by blast
  have "\<forall>f\<in>set (before @ inside). wf_family f \<and> fa_bounds f = b \<and> fa_Type f = ''histogram''"
    using seen_good [OF good] assms(4,6) unfolding before_def inside_def by metis
  note facts = histogram_run [OF this assms(5) run]
  have "map_of (map (\<lambda>((r', name), a). (name, reduction_of rnd a)) (filter (\<lambda>((r', name), a). r' = r \<and> ac_n a \<noteq> 0) accs)) n = Some (reduction_of rnd a)"
    using ok a facts assms(5) by (intro map_of_replica) (auto simp: accs_ok_def)
  then show ?thesis using loop accs_reducible [OF ok, of inW] r facts
    by (simp add: ReduceWindow_def map_of_map_restrict reduction_of_histogram)
qed

section \<open>An example\<close>

definition demo_label_set :: "string \<Rightarrow> uint64 \<Rightarrow> series" where
  "demo_label_set l c = \<lparr>sr_labels = l, sr_value = 0, sr_count = c, sr_sum = of_int (uint c), sr_buckets = [c, c]\<rparr>"

definition demo_histogram :: "series list \<Rightarrow> family" where
  "demo_histogram ss = \<lparr>fa_Type = ''histogram'', fa_Value = 0, fa_Count = sum_list (map sr_count ss), fa_Sum = sum_list (map sr_sum ss),
     fa_bounds = [Some 1, None], fa_buckets = [sum_list (map sr_count ss), sum_list (map sr_count ss)], fa_series = ss\<rparr>"

text \<open>One sample before the window, and two inside it that arrive out of order; a label set appears in the window.\<close>

definition demo_samples :: "sample list" where
  "demo_samples =
     [\<lparr>sm_Replica = ''r0'', sm_At = 30, sm_Value = 0, sm_Families = [(''ttft'', demo_histogram [demo_label_set ''a'' 9, demo_label_set ''b'' 2])]\<rparr>,
      \<lparr>sm_Replica = ''r0'', sm_At = 5, sm_Value = 0, sm_Families = [(''ttft'', demo_histogram [demo_label_set ''a'' 4])]\<rparr>,
      \<lparr>sm_Replica = ''r0'', sm_At = 20, sm_Value = 0, sm_Families = [(''ttft'', demo_histogram [demo_label_set ''a'' 6])]\<rparr>]"

lemma demo_samples_good: "good_samples (\<lambda>_ _. ''histogram'') demo_samples"
  by (simp add: good_samples_def demo_samples_def demo_histogram_def demo_label_set_def wf_family_def)

lemma demo_seen:
  "seen_before 10 ''r0'' ''ttft'' demo_samples = [demo_histogram [demo_label_set ''a'' 4]]"
  "seen_inside 10 40 ''r0'' ''ttft'' demo_samples = [demo_histogram [demo_label_set ''a'' 6], demo_histogram [demo_label_set ''a'' 9, demo_label_set ''b'' 2]]"
  by (simp_all add: seen_before_def seen_inside_def families_of_def demo_samples_def)

theorem histogram_increase_telescopes_witness:
  "\<exists>out fams red. ReduceWindow fl demo_samples 0 10 40 = Some out \<and> map_of out ''r0'' = Some fams \<and> map_of fams ''ttft'' = Some red
     \<and> red_Samples red = 2 \<and> (\<not> red_Reset red \<longrightarrow> red_Count red = 7)"
proof -
  have "latest [demo_histogram [demo_label_set ''a'' 4]] = [''a'' \<mapsto> demo_label_set ''a'' 4]"
    "latest [demo_histogram [demo_label_set ''a'' 4], demo_histogram [demo_label_set ''a'' 6], demo_histogram [demo_label_set ''a'' 9, demo_label_set ''b'' 2]]
       = [''a'' \<mapsto> demo_label_set ''a'' 9, ''b'' \<mapsto> demo_label_set ''b'' 2]"
    by (simp_all add: latest_def seriesOf_def demo_histogram_def demo_label_set_def)
  moreover have "total_count [''a'' \<mapsto> demo_label_set ''a'' 4] = 4" "total_count [''a'' \<mapsto> demo_label_set ''a'' 9, ''b'' \<mapsto> demo_label_set ''b'' 2] = 11"
    by (simp_all add: total_count_upd) (simp_all add: total_count_def demo_label_set_def cnt_def)
  moreover have "fa_bounds (demo_histogram ss) = [Some 1, None]" for ss by (simp add: demo_histogram_def)
  ultimately have "\<exists>out fams red. ReduceWindow fl demo_samples 0 10 40 = Some out \<and> map_of out ''r0'' = Some fams \<and> map_of fams ''ttft'' = Some red
     \<and> red_Samples red = 2 \<and> (\<not> red_Reset red \<longrightarrow> red_Count red = 7
        \<and> (\<forall>l. cnt ([''a'' \<mapsto> demo_label_set ''a'' 4] l) \<le> cnt ([''a'' \<mapsto> demo_label_set ''a'' 9, ''b'' \<mapsto> demo_label_set ''b'' 2] l)))"
    using histogram_increase_telescopes [OF demo_samples_good, where r = "''r0''" and n = "''ttft''" and epoch = 0 and startNs = 10
      and endNs = 40 and b = "[Some 1, None]" and rnd = fl] by (simp add: demo_seen)
  then show ?thesis by blast
qed

end
