(* ===== verification/Calibrate.thy ===== *)
theory Calibrate
  imports Replay Validity ServerStats
begin

text \<open>
  The capacity calibration of \<^verbatim>\<open>internal/calibrate\<close>: one step of load reduced to its numbers (\<open>RunStep\<close> of
  \<^verbatim>\<open>runner.go\<close>), its judgement (\<open>Judge\<close>), the coarse and fine ramp (\<open>RunRamp\<close>), the decision over two or three ramps
  (\<open>Calibrate\<close>) and the reference run. What a live step yields (the load generator's result, the sampler's readings, the
  canary's streams) is the record \<open>live\<close>. The runner and the context are functions of the number of steps a ramp has run,
  so that every behaviour of a live target is one of them. Reasons and errors are constructors; their texts, the
  progress callbacks and the rendering in \<^verbatim>\<open>output.go\<close> are not modelled.
\<close>

section \<open>Steps\<close>

record cal_spec =
  sp_RateRPS :: rat
  sp_SettleS :: rat
  sp_MeasureS :: rat
  sp_Seed :: int

datatype step_reason = GoodputLow rat | QueueUnobserved | QueueHigh rat | ClientGate

datatype cal_error = Interrupted rat string | TooManySteps | UnderObserved int int int | LoadFailed string | StepCollect collect_error | StepPanic

record cal_step =
  cp_Spec :: cal_spec
  cp_StartedWall :: "int option"
  cp_MeasuredStartWall :: "int option"
  cp_MeasuredEndWall :: "int option"
  cp_Stats :: "collect_stats option"
  cp_Goodput :: rat
  cp_QueueMean :: rat
  cp_QueueSamples :: int
  cp_QueueExpected :: int
  cp_QueueIntervalS :: rat
  cp_QueueSeries :: "sample list"
  cp_ScrapeErrors :: int
  cp_FamilyErrors :: int
  cp_ServerWindow :: "(string \<times> reduction) list"
  cp_ReceivePath :: "receive_path option"
  cp_Gates :: "gate_report option"
  cp_Pass :: "bool option"
  cp_Reasons :: "step_reason list"
  cp_Error :: "cal_error option"

text \<open>No report is the zero report, which does not pass.\<close>

definition new_step :: "cal_spec \<Rightarrow> cal_step" where
  "new_step sp = \<lparr>cp_Spec = sp, cp_StartedWall = None, cp_MeasuredStartWall = None, cp_MeasuredEndWall = None, cp_Stats = None,
     cp_Goodput = 0, cp_QueueMean = 0, cp_QueueSamples = 0, cp_QueueExpected = 0, cp_QueueIntervalS = 0, cp_QueueSeries = [],
     cp_ScrapeErrors = 0, cp_FamilyErrors = 0, cp_ServerWindow = [], cp_ReceivePath = None, cp_Gates = None, cp_Pass = None,
     cp_Reasons = [], cp_Error = None\<rparr>"

abbreviation PinnedCalibrationGoodputMin :: "(rat \<Rightarrow> rat) \<Rightarrow> rat" where "PinnedCalibrationGoodputMin rnd \<equiv> rnd (99 / 100)"
abbreviation PinnedCalibrationStartRPS :: rat where "PinnedCalibrationStartRPS \<equiv> 2"
abbreviation PinnedCalibrationSettleS :: rat where "PinnedCalibrationSettleS \<equiv> 30"
abbreviation PinnedCalibrationMeasureS :: rat where "PinnedCalibrationMeasureS \<equiv> 120"
abbreviation PinnedCalibrationFineStepFrac :: "(rat \<Rightarrow> rat) \<Rightarrow> rat" where "PinnedCalibrationFineStepFrac rnd \<equiv> rnd (1 / 10)"
abbreviation PinnedCalibrationAgreementFrac :: "(rat \<Rightarrow> rat) \<Rightarrow> rat" where "PinnedCalibrationAgreementFrac rnd \<equiv> rnd (1 / 10)"
abbreviation PinnedLambdaRFrac :: "(rat \<Rightarrow> rat) \<Rightarrow> rat" where "PinnedLambdaRFrac rnd \<equiv> rnd (65 / 100)"

definition gates_pass :: "cal_step \<Rightarrow> bool" where
  "gates_pass s = (case cp_Gates s of None \<Rightarrow> False | Some g \<Rightarrow> g_Pass g)"

definition Judge :: "(rat \<Rightarrow> rat) \<Rightarrow> cal_step \<Rightarrow> cal_step" where
  "Judge rnd s =
     (let reasons = (if cp_Goodput s < PinnedCalibrationGoodputMin rnd then [GoodputLow (cp_Goodput s)] else [])
            @ (if cp_QueueSamples s = 0 then [QueueUnobserved]
               else if PinnedQueueGaugeMax < cp_QueueMean s then [QueueHigh (cp_QueueMean s)] else [])
            @ (if \<not> gates_pass s then [ClientGate] else [])
      in s\<lparr>cp_Reasons := reasons, cp_Pass := Some (reasons = [])\<rparr>)"

definition Passed :: "cal_step \<Rightarrow> bool" where
  "Passed s \<longleftrightarrow> cp_Pass s = Some True"

definition coverageOK :: "(rat \<Rightarrow> rat) \<Rightarrow> int \<Rightarrow> int \<Rightarrow> bool" where
  "coverageOK rnd samples expected \<longleftrightarrow> rnd (PinnedQueueCoverageMin rnd * rnd (of_int expected)) \<le> rnd (of_int samples)"

section \<open>One step of load\<close>

text \<open>The sampler is absent without a metrics address; its readings come with the counts of failed scrapes and of failed
  kept-family reads.\<close>

record live =
  lv_result :: "string + lg_result"
  lv_epoch :: "int option"
  lv_sampler :: "(sample list \<times> int \<times> int) option"
  lv_canary :: "canary_stream list option"
  lv_canaryErr :: string

record load_runner =
  ld_Base :: run_config
  ld_Families :: "string list"
  ld_TTFTFamily :: string
  ld_SampleIntervalNs :: int

definition duration_seconds :: "(rat \<Rightarrow> rat) \<Rightarrow> int \<Rightarrow> rat" where
  "duration_seconds rnd d = rnd (rnd (of_int (go_div d 1000000000)) + rnd (rnd (of_int (d - go_div d 1000000000 * 1000000000)) / 1000000000))"

text \<open>The sampler's part of a step, with the reductions of the kept families.\<close>

definition sampled :: "(rat \<Rightarrow> rat) \<Rightarrow> load_runner \<Rightarrow> (sample list \<times> int \<times> int) option \<Rightarrow> lg_result \<Rightarrow> cal_step \<Rightarrow> (cal_step \<times> server_side) option" where
  "sampled rnd lr sampler res st =
     (case sampler of
        None \<Rightarrow> Some (st, [])
      | Some (samples, errs, famErrs) \<Rightarrow>
          let intervalS = duration_seconds rnd (if ld_SampleIntervalNs lr = 0 then 1000000000 else ld_SampleIntervalNs lr);
              st1 = st\<lparr>cp_ScrapeErrors := errs, cp_FamilyErrors := famErrs, cp_QueueSeries := samples, cp_QueueIntervalS := intervalS,
                     cp_QueueExpected := trunc64 (rnd (sp_MeasureS (cp_Spec st) / intervalS))\<rparr>;
              st2 = (case map_of (BaselineMeans rnd samples (lr_EpochWall res) (lr_WarmupEndNs res) (lr_BaselineEndNs res)) ''r0'' of
                       None \<Rightarrow> st1
                     | Some m \<Rightarrow> st1\<lparr>cp_QueueMean := mn_Value m, cp_QueueSamples := mn_Samples m\<rparr>)
          in if ld_Families lr = [] then Some (st2, [])
             else map_option (\<lambda>server. (st2\<lparr>cp_ServerWindow := (case map_of server ''r0'' of None \<Rightarrow> [] | Some fams \<Rightarrow> fams)\<rparr>, server))
                    (ReduceWindow rnd samples (lr_EpochWall res) (lr_WarmupEndNs res) (lr_BaselineEndNs res)))"

definition RunStep :: "(rat \<Rightarrow> rat) \<Rightarrow> (rat \<Rightarrow> rat) \<Rightarrow> hist \<Rightarrow> load_runner \<Rightarrow> live \<Rightarrow> cal_spec \<Rightarrow> cal_step \<times> cal_error option" where
  "RunStep rnd sqrt64 h lr lv sp =
     (let st0 = (new_step sp)\<lparr>cp_StartedWall := lv_epoch lv\<rparr>
      in case lv_result lv of
           Inl e \<Rightarrow> (st0, Some (LoadFailed e))
         | Inr res \<Rightarrow>
             let w = \<lparr>w_Name = ''measured'', w_StartNs = lr_WarmupEndNs res, w_EndNs = lr_BaselineEndNs res, w_Replica = []\<rparr>;
                 st1 = st0\<lparr>cp_MeasuredStartWall := Some (lr_EpochWall res + w_StartNs w), cp_MeasuredEndWall := Some (lr_EpochWall res + w_EndNs w)\<rparr>
             in case Collect_stats rnd sqrt64 h (rc_Collect (ld_Base lr)) (lr_Requests res) w of
                  Inl e \<Rightarrow> (st1, Some (StepCollect e))
                | Inr cst \<Rightarrow>
                    let st2 = st1\<lparr>cp_Stats := Some cst, cp_Goodput := st_GoodputFrac cst, cp_Gates := Some (lr_Gates res)\<rparr>
                    in case sampled rnd lr (lv_sampler lv) res st2 of
                         None \<Rightarrow> (st2, Some StepPanic)
                       | Some (st3, server) \<Rightarrow>
                           (case map_option (\<lambda>streams. SummarizeCanary streams (w_StartNs w) (w_EndNs w)) (lv_canary lv) of
                              Some None \<Rightarrow> (st3, Some StepPanic)
                            | summary \<Rightarrow>
                                let rp = ReceivePathFor rnd cst server (ld_TTFTFamily lr) (Option.bind summary id)
                                in (st3\<lparr>cp_ReceivePath := Some (if lv_canaryErr lv \<noteq> [] then rp\<lparr>rp_CanaryError := lv_canaryErr lv\<rparr> else rp)\<rparr>, None)))"

section \<open>A ramp\<close>

datatype ramp_reason = FirstStepFailed rat | CeilingReached rat | FineCeiling rat

record ramp =
  rm_Steps :: "cal_step list"
  rm_LambdaMax :: rat
  rm_Valid :: bool
  rm_Reason :: "ramp_reason option"

record cal_options =
  op_MaxRateRPS :: rat
  op_SettleS :: rat
  op_MeasureS :: rat
  op_Seed :: int

definition settle_of :: "cal_options \<Rightarrow> rat" where
  "settle_of opts = (if 0 < op_SettleS opts then op_SettleS opts else PinnedCalibrationSettleS)"

definition measure_of :: "cal_options \<Rightarrow> rat" where
  "measure_of opts = (if 0 < op_MeasureS opts then op_MeasureS opts else PinnedCalibrationMeasureS)"

definition maxRampSteps :: nat where "maxRampSteps = 1000"

type_synonym context_errs = "nat \<Rightarrow> string option"
type_synonym runner_fun = "nat \<Rightarrow> cal_spec \<Rightarrow> cal_step \<times> cal_error option"

definition step_spec :: "cal_options \<Rightarrow> nat \<Rightarrow> rat \<Rightarrow> cal_spec" where
  "step_spec opts k rate = \<lparr>sp_RateRPS = rate, sp_SettleS = settle_of opts, sp_MeasureS = measure_of opts, sp_Seed = add64 (op_Seed opts) (int k)\<rparr>"

definition under_observed :: "(rat \<Rightarrow> rat) \<Rightarrow> cal_step \<Rightarrow> bool" where
  "under_observed rnd s \<longleftrightarrow> 0 < cp_QueueExpected s \<and> \<not> coverageOK rnd (cp_QueueSamples s) (cp_QueueExpected s)"

definition ramp_step :: "(rat \<Rightarrow> rat) \<Rightarrow> context_errs \<Rightarrow> runner_fun \<Rightarrow> cal_options \<Rightarrow> rat \<Rightarrow> ramp \<Rightarrow> ramp \<times> (cal_error + bool)" where
  "ramp_step rnd ctx run opts rate rp =
     (let k = length (rm_Steps rp); sp = step_spec opts k rate
      in case ctx k of
           Some e \<Rightarrow> (rp, Inl (Interrupted rate e))
         | None \<Rightarrow>
             if maxRampSteps \<le> k then (rp, Inl TooManySteps)
             else case run k sp of (s, err) \<Rightarrow>
               case (if err = None \<and> under_observed rnd s then Some (UnderObserved (cp_QueueSamples s) (cp_QueueExpected s) (cp_ScrapeErrors s)) else err) of
                 Some e \<Rightarrow> (rp\<lparr>rm_Steps := rm_Steps rp @ [s\<lparr>cp_Spec := sp, cp_Error := Some e\<rparr>]\<rparr>, Inl e)
               | None \<Rightarrow> (rp\<lparr>rm_Steps := rm_Steps rp @ [Judge rnd s]\<rparr>, Inr (Passed (Judge rnd s))))"

lemma ramp_step_grows:
  assumes "ramp_step rnd ctx run opts rate rp = (rp', Inr pass)"
  shows "length (rm_Steps rp) < maxRampSteps \<and> length (rm_Steps rp') = Suc (length (rm_Steps rp))"
  using assms by (auto simp: ramp_step_def Let_def split: option.splits if_splits prod.splits)

text \<open>The coarse loop ends the ramp or leaves the last passing rate to the fine loop. Both loops end because a step is refused
  after the thousandth.\<close>

datatype coarse_result = Ended ramp "cal_error option" | Broke ramp rat

function coarse :: "(rat \<Rightarrow> rat) \<Rightarrow> context_errs \<Rightarrow> runner_fun \<Rightarrow> cal_options \<Rightarrow> ramp \<Rightarrow> rat \<Rightarrow> rat \<Rightarrow> coarse_result" where
  "coarse rnd ctx run opts rp lastRate rate0 =
     (let capped = (0 < op_MaxRateRPS opts \<and> op_MaxRateRPS opts \<le> rate0); rate = (if capped then op_MaxRateRPS opts else rate0)
      in case ramp_step rnd ctx run opts rate rp of
           (rp', Inl e) \<Rightarrow> Ended rp' (Some e)
         | (rp', Inr pass) \<Rightarrow>
             if \<not> pass then
               (if lastRate = 0 then Ended (rp'\<lparr>rm_Reason := Some (FirstStepFailed rate)\<rparr>) None else Broke rp' lastRate)
             else if capped then Ended (rp'\<lparr>rm_Reason := Some (CeilingReached (op_MaxRateRPS opts))\<rparr>) None
             else coarse rnd ctx run opts rp' rate (rnd (rate * 2)))"
  by pat_completeness auto

termination coarse
  by (relation "measure (\<lambda>(rnd, ctx, run, opts, rp, lastRate, rate0). maxRampSteps - length (rm_Steps rp))")
     (auto dest!: ramp_step_grows [OF sym])

function fine :: "(rat \<Rightarrow> rat) \<Rightarrow> context_errs \<Rightarrow> runner_fun \<Rightarrow> cal_options \<Rightarrow> rat \<Rightarrow> rat \<Rightarrow> ramp \<Rightarrow> rat \<Rightarrow> nat \<Rightarrow> ramp \<times> cal_error option" where
  "fine rnd ctx run opts base inc rp lastRate k =
     (let rate = rnd (base + rnd (rnd (of_nat k) * inc))
      in if 0 < op_MaxRateRPS opts \<and> op_MaxRateRPS opts < rate then (rp\<lparr>rm_Reason := Some (FineCeiling (op_MaxRateRPS opts))\<rparr>, None)
         else case ramp_step rnd ctx run opts rate rp of
           (rp', Inl e) \<Rightarrow> (rp', Some e)
         | (rp', Inr pass) \<Rightarrow>
             if \<not> pass then (rp'\<lparr>rm_LambdaMax := lastRate, rm_Valid := True\<rparr>, None)
             else fine rnd ctx run opts base inc rp' rate (Suc k))"
  by pat_completeness auto

termination fine
  by (relation "measure (\<lambda>(rnd, ctx, run, opts, base, inc, rp, lastRate, k). maxRampSteps - length (rm_Steps rp))")
     (auto dest!: ramp_step_grows [OF sym])

definition new_ramp :: ramp where
  "new_ramp = \<lparr>rm_Steps = [], rm_LambdaMax = 0, rm_Valid = False, rm_Reason = None\<rparr>"

definition RunRamp :: "(rat \<Rightarrow> rat) \<Rightarrow> context_errs \<Rightarrow> runner_fun \<Rightarrow> cal_options \<Rightarrow> ramp \<times> cal_error option" where
  "RunRamp rnd ctx run opts =
     (case coarse rnd ctx run opts new_ramp 0 PinnedCalibrationStartRPS of
        Ended rp err \<Rightarrow> (rp, err)
      | Broke rp lastRate \<Rightarrow> fine rnd ctx run opts lastRate (rnd (PinnedCalibrationFineStepFrac rnd * lastRate)) rp lastRate 1)"

section \<open>The calibration\<close>

datatype decision = Undecided | ByMedian | Agreed

record cal_result =
  cr_Ramps :: "ramp list"
  cr_LambdaMax :: rat
  cr_LambdaR :: rat
  cr_LoadRateRPS :: rat
  cr_Decision :: decision
  cr_Valid :: bool
  cr_Reason :: "(nat \<times> ramp_reason option) option"
  cr_Reference :: "cal_step option"

definition new_calibration :: cal_result where
  "new_calibration = \<lparr>cr_Ramps = [], cr_LambdaMax = 0, cr_LambdaR = 0, cr_LoadRateRPS = 0, cr_Decision = Undecided, cr_Valid = False,
     cr_Reason = None, cr_Reference = None\<rparr>"

definition disagree :: "(rat \<Rightarrow> rat) \<Rightarrow> rat \<Rightarrow> rat \<Rightarrow> bool" where
  "disagree rnd a b \<longleftrightarrow> rnd (PinnedCalibrationAgreementFrac rnd * max a b) < \<bar>rnd (a - b)\<bar>"

text \<open>The i-th ramp of a calibration: the context and the runner it meets, and its seeds.\<close>

definition cal_ramp :: "(rat \<Rightarrow> rat) \<Rightarrow> (nat \<Rightarrow> context_errs) \<Rightarrow> (nat \<Rightarrow> runner_fun) \<Rightarrow> cal_options \<Rightarrow> nat \<Rightarrow> cal_result \<Rightarrow> cal_result \<times> (cal_error + bool)" where
  "cal_ramp rnd ctx run opts i res =
     (case RunRamp rnd (ctx i) (run i) (opts\<lparr>op_Seed := add64 (op_Seed opts) (int i * int maxRampSteps)\<rparr>) of
        (rp, err) \<Rightarrow>
          let res1 = res\<lparr>cr_Ramps := cr_Ramps res @ [rp]\<rparr>
          in case err of
               Some e \<Rightarrow> (res1, Inl e)
             | None \<Rightarrow> (if \<not> rm_Valid rp then res1\<lparr>cr_Reason := Some (i + 1, rm_Reason rp)\<rparr> else res1, Inr (rm_Valid rp)))"

definition decided :: "(rat \<Rightarrow> rat) \<Rightarrow> rat \<Rightarrow> decision \<Rightarrow> cal_result \<Rightarrow> cal_result" where
  "decided rnd lmax d res =
     (let lr = rnd (PinnedLambdaRFrac rnd * lmax)
      in res\<lparr>cr_LambdaMax := lmax, cr_Decision := d, cr_LambdaR := lr, cr_LoadRateRPS := rnd (2 * lr), cr_Valid := True\<rparr>)"

definition middle :: "rat \<Rightarrow> rat \<Rightarrow> rat \<Rightarrow> rat" where
  "middle a b c = sort [a, b, c] ! 1"

definition Calibrate :: "(rat \<Rightarrow> rat) \<Rightarrow> (nat \<Rightarrow> context_errs) \<Rightarrow> (nat \<Rightarrow> runner_fun) \<Rightarrow> cal_options \<Rightarrow> cal_result \<times> cal_error option" where
  "Calibrate rnd ctx run opts =
     (case cal_ramp rnd ctx run opts 0 new_calibration of
        (res, Inl e) \<Rightarrow> (res, Some e)
      | (res, Inr False) \<Rightarrow> (res, None)
      | (res, Inr True) \<Rightarrow>
          (case cal_ramp rnd ctx run opts 1 res of
             (res, Inl e) \<Rightarrow> (res, Some e)
           | (res, Inr False) \<Rightarrow> (res, None)
           | (res, Inr True) \<Rightarrow>
               let a = rm_LambdaMax (cr_Ramps res ! 0); b = rm_LambdaMax (cr_Ramps res ! 1)
               in if disagree rnd a b then
                    (case cal_ramp rnd ctx run opts 2 res of
                       (res, Inl e) \<Rightarrow> (res, Some e)
                     | (res, Inr False) \<Rightarrow> (res, None)
                     | (res, Inr True) \<Rightarrow> (decided rnd (middle a b (rm_LambdaMax (cr_Ramps res ! 2))) ByMedian res, None))
                  else (decided rnd (min a b) Agreed res, None)))"

text \<open>The reference run at the survivor's load, over the pinned warm-up and baseline.\<close>

definition Reference :: "(cal_spec \<Rightarrow> cal_step \<times> cal_error option) \<Rightarrow> cal_result \<Rightarrow> int \<Rightarrow> cal_result \<times> cal_error option" where
  "Reference run res seed =
     (case run \<lparr>sp_RateRPS = cr_LoadRateRPS res, sp_SettleS = 60, sp_MeasureS = 300, sp_Seed = seed\<rparr> of
        (s, Some e) \<Rightarrow> (res, Some e)
      | (s, None) \<Rightarrow> (res\<lparr>cr_Reference := Some s\<rparr>, None))"

definition cal_CheckConfig :: "string \<Rightarrow> string \<Rightarrow> bool \<Rightarrow> string option" where
  "cal_CheckConfig profile arrivalProcess hosted =
     (if profile \<noteq> ''experiment'' then Some ''calibrate: profile must be experiment''
      else if arrivalProcess \<noteq> ''poisson'' then Some ''calibrate: load.arrival_process must be poisson''
      else if hosted then Some ''calibrate: target.hosted must be false''
      else None)"

section \<open>What a ramp reports\<close>

abbreviation rate_of :: "cal_step \<Rightarrow> rat" where
  "rate_of s \<equiv> sp_RateRPS (cp_Spec s)"

text \<open>The pass criteria of a step.\<close>

definition meets :: "(rat \<Rightarrow> rat) \<Rightarrow> cal_step \<Rightarrow> bool" where
  "meets rnd s \<longleftrightarrow> rnd (99 / 100) \<le> cp_Goodput s \<and> cp_QueueSamples s \<noteq> 0 \<and> cp_QueueMean s \<le> 1 \<and> gates_pass s"

lemma Judge_facts [simp]:
  "Passed (Judge rnd s) \<longleftrightarrow> meets rnd s" "meets rnd (Judge rnd s) \<longleftrightarrow> meets rnd s" "cp_Spec (Judge rnd s) = cp_Spec s"
  by (auto simp: Judge_def Passed_def meets_def gates_pass_def PinnedQueueGaugeMax_def Let_def)

definition ramp_steps_ok :: "cal_options \<Rightarrow> cal_step list \<Rightarrow> bool" where
  "ramp_steps_ok opts steps \<longleftrightarrow> length steps \<le> maxRampSteps \<and> (\<forall>i<length steps. sp_Seed (cp_Spec (steps ! i)) = add64 (op_Seed opts) (int i))
     \<and> (\<forall>s\<in>set steps. 0 < op_MaxRateRPS opts \<longrightarrow> rate_of s \<le> op_MaxRateRPS opts)"

text \<open>The highest passing rate so far, zero before the first step.\<close>

definition climbed :: "(rat \<Rightarrow> rat) \<Rightarrow> cal_step list \<Rightarrow> rat \<Rightarrow> bool" where
  "climbed rnd steps lastRate \<longleftrightarrow> (\<forall>s\<in>set steps. (Passed s \<longleftrightarrow> meets rnd s) \<and> (Passed s \<longrightarrow> rate_of s \<le> lastRate))
     \<and> (steps = [] \<and> lastRate = 0 \<or> 0 < lastRate \<and> (\<exists>s\<in>set steps. Passed s \<and> rate_of s = lastRate))"

lemma ramp_steps_ok_snoc:
  assumes "ramp_steps_ok opts steps" and "length steps < maxRampSteps" and "sp_Seed (cp_Spec s) = add64 (op_Seed opts) (int (length steps))"
    and "0 < op_MaxRateRPS opts \<longrightarrow> rate_of s \<le> op_MaxRateRPS opts"
  shows "ramp_steps_ok opts (steps @ [s])"
  using assms by (auto simp: ramp_steps_ok_def nth_append less_Suc_eq)

lemma climbed_pass:
  assumes "climbed rnd steps l" and "l \<le> rate_of s" and "0 < rate_of s" and "Passed s" and "Passed s \<longleftrightarrow> meets rnd s"
  shows "climbed rnd (steps @ [s]) (rate_of s)"
  using assms by (auto simp: climbed_def intro: order_trans)

lemma climbed_fail:
  assumes "climbed rnd steps l" and "l \<noteq> 0" and "\<not> Passed s" and "Passed s \<longleftrightarrow> meets rnd s"
  shows "climbed rnd (steps @ [s]) l"
  using assms by (auto simp: climbed_def)

declare coarse.simps [simp del] fine.simps [simp del]

text \<open>The interface of a runner: a step keeps its parameters.\<close>

locale runner = rounding +
  fixes run :: runner_fun
  assumes keeps_spec: "cp_Spec (fst (run k sp)) = sp"
begin

lemma ramp_step_outcome:
  assumes "ramp_step rnd ctx run opts rate rp = (rp', out)" and "ramp_steps_ok opts (rm_Steps rp)"
    and "0 < op_MaxRateRPS opts \<longrightarrow> rate \<le> op_MaxRateRPS opts"
  shows "ramp_steps_ok opts (rm_Steps rp')" "rm_Valid rp' = rm_Valid rp" "rm_LambdaMax rp' = rm_LambdaMax rp"
    "out = Inr pass \<Longrightarrow> \<exists>s. rm_Steps rp' = rm_Steps rp @ [s] \<and> rate_of s = rate \<and> Passed s = pass \<and> Passed s = meets rnd s"
proof -
  define k where "k = length (rm_Steps rp)"
  define sp where "sp = step_spec opts k rate"
  obtain s err where s: "run k sp = (s, err)" by fastforce
  have spec: "cp_Spec s = sp" using keeps_spec [of k sp] s by simp
  have snoc: "ramp_steps_ok opts (rm_Steps rp @ [t])" if "cp_Spec t = sp" "k < maxRampSteps" for t
    using that assms(2,3) by (intro ramp_steps_ok_snoc) (simp_all add: sp_def step_spec_def k_def)
  have "ramp_steps_ok opts (rm_Steps rp') \<and> rm_Valid rp' = rm_Valid rp \<and> rm_LambdaMax rp' = rm_LambdaMax rp
     \<and> (out = Inr pass \<longrightarrow> (\<exists>s. rm_Steps rp' = rm_Steps rp @ [s] \<and> rate_of s = rate \<and> Passed s = pass \<and> Passed s = meets rnd s))"
    using assms(1,2) s spec snoc [of "Judge rnd s"] snoc [of "s\<lparr>cp_Spec := sp, cp_Error := Some e\<rparr>" for e]
    unfolding ramp_step_def k_def [symmetric] Let_def sp_def [symmetric]
    by (auto simp: sp_def step_spec_def split: option.splits if_splits)
  then show "ramp_steps_ok opts (rm_Steps rp')" "rm_Valid rp' = rm_Valid rp" "rm_LambdaMax rp' = rm_LambdaMax rp"
    "out = Inr pass \<Longrightarrow> \<exists>s. rm_Steps rp' = rm_Steps rp @ [s] \<and> rate_of s = rate \<and> Passed s = pass \<and> Passed s = meets rnd s"
    by simp_all
qed

lemma coarse_climbs:
  assumes "ramp_steps_ok opts (rm_Steps rp)" and "climbed rnd (rm_Steps rp) l" and "l \<le> rate0" and "0 < rate0" and "rnd rate0 = rate0" and "rnd l = l"
  shows "case coarse rnd ctx run opts rp l rate0 of
      Ended rp' err \<Rightarrow> ramp_steps_ok opts (rm_Steps rp') \<and> rm_Valid rp' = rm_Valid rp \<and> rm_LambdaMax rp' = rm_LambdaMax rp \<and> (err = None \<longrightarrow> rm_Reason rp' \<noteq> None)
    | Broke rp' l' \<Rightarrow> ramp_steps_ok opts (rm_Steps rp') \<and> rm_Valid rp' = rm_Valid rp \<and> rm_LambdaMax rp' = rm_LambdaMax rp
        \<and> climbed rnd (rm_Steps rp') l' \<and> 0 < l' \<and> rnd l' = l'"
  using assms
proof (induction "maxRampSteps - length (rm_Steps rp)" arbitrary: rp l rate0 rule: less_induct)
  case less
  define capped where "capped \<longleftrightarrow> 0 < op_MaxRateRPS opts \<and> op_MaxRateRPS opts \<le> rate0"
  define rate where "rate = (if capped then op_MaxRateRPS opts else rate0)"
  obtain rp' out where step: "ramp_step rnd ctx run opts rate rp = (rp', out)" by fastforce
  have "0 < op_MaxRateRPS opts \<longrightarrow> rate \<le> op_MaxRateRPS opts" by (auto simp: rate_def capped_def)
  note o = ramp_step_outcome [OF step less.prems(1) this]
  note unf = coarse.simps [of rnd ctx run opts rp l rate0, unfolded Let_def, folded capped_def, folded rate_def]
  show ?case
  proof (cases out)
    case (Inl e)
    then show ?thesis using step o(1-3) by (simp add: unf)
  next
    case (Inr pass)
    obtain s where s: "rm_Steps rp' = rm_Steps rp @ [s]" "rate_of s = rate" "Passed s = pass" "Passed s = meets rnd s"
      using o(4) [OF Inr] by blast
    show ?thesis
    proof (cases "pass \<and> \<not> capped")
      case True
      have "climbed rnd (rm_Steps rp') rate"
        using climbed_pass [OF less.prems(2), of s] s less.prems(3,4) True unfolding s(1) by (simp add: rate_def)
      moreover have "rate \<le> rnd (rate * 2)" using less.prems(4,5) True by (intro rnd_ge_self) (simp_all add: rate_def)
      ultimately have "case coarse rnd ctx run opts rp' rate (rnd (rate * 2)) of
          Ended rq err \<Rightarrow> ramp_steps_ok opts (rm_Steps rq) \<and> rm_Valid rq = rm_Valid rp' \<and> rm_LambdaMax rq = rm_LambdaMax rp' \<and> (err = None \<longrightarrow> rm_Reason rq \<noteq> None)
        | Broke rq l' \<Rightarrow> ramp_steps_ok opts (rm_Steps rq) \<and> rm_Valid rq = rm_Valid rp' \<and> rm_LambdaMax rq = rm_LambdaMax rp'
            \<and> climbed rnd (rm_Steps rq) l' \<and> 0 < l' \<and> rnd l' = l'"
        using less.prems(4,5) True ramp_step_grows [OF step [unfolded Inr]] o(1)
        by (intro less.hyps) (auto simp: rate_def rnd_idem)
      then show ?thesis using step Inr True unfolding o(2,3) by (simp add: unf)
    next
      case False
      have "climbed rnd (rm_Steps rp') l" if "\<not> pass" "l \<noteq> 0"
        using climbed_fail [OF less.prems(2)] s that unfolding s(1) by simp
      moreover have "l \<noteq> 0 \<Longrightarrow> 0 < l" using less.prems(2) by (auto simp: climbed_def)
      ultimately show ?thesis using step Inr False o(1-3) less.prems(6) by (auto simp: unf)
    qed
  qed
qed

text \<open>The fine ramp from a rate that passed: its rates do not fall.\<close>

lemma fine_climbs:
  assumes "ramp_steps_ok opts (rm_Steps rp)" and "climbed rnd (rm_Steps rp) l" and "l \<le> rnd (base + rnd (rnd (of_nat k) * inc))" and "0 < l" and "0 \<le> inc"
    and "\<not> rm_Valid rp" and "rm_LambdaMax rp = 0" and "fine rnd ctx run opts base inc rp l k = (rp', err)"
  shows "ramp_steps_ok opts (rm_Steps rp') \<and> (if rm_Valid rp' then err = None \<and> climbed rnd (rm_Steps rp') (rm_LambdaMax rp')
        \<and> rm_Steps rp' \<noteq> [] \<and> \<not> Passed (last (rm_Steps rp')) \<and> rm_LambdaMax rp' \<le> rate_of (last (rm_Steps rp'))
      else rm_LambdaMax rp' = 0 \<and> (err = None \<longrightarrow> rm_Reason rp' \<noteq> None))"
  using assms
proof (induction "maxRampSteps - length (rm_Steps rp)" arbitrary: rp l k rule: less_induct)
  case less
  define rate where "rate = rnd (base + rnd (rnd (of_nat k) * inc))"
  note unf = fine.simps [of rnd ctx run opts base inc rp l k, unfolded Let_def, folded rate_def]
  have lr: "l \<le> rate" "0 < rate" using less.prems(3,4) by (simp_all add: rate_def)
  show ?case
  proof (cases "0 < op_MaxRateRPS opts \<and> op_MaxRateRPS opts < rate")
    case True
    then show ?thesis using less.prems by (auto simp: unf)
  next
    case False
    obtain rq out where step: "ramp_step rnd ctx run opts rate rp = (rq, out)" by fastforce
    have "0 < op_MaxRateRPS opts \<longrightarrow> rate \<le> op_MaxRateRPS opts" using False by auto
    note o = ramp_step_outcome [OF step less.prems(1) this]
    show ?thesis
    proof (cases out)
      case (Inl e)
      then show ?thesis using step o(1-3) less.prems False by (auto simp: unf)
    next
      case (Inr pass)
      obtain s where s: "rm_Steps rq = rm_Steps rp @ [s]" "rate_of s = rate" "Passed s = pass" "Passed s = meets rnd s"
        using o(4) [OF Inr] by blast
      show ?thesis
      proof (cases pass)
        case True
        have "climbed rnd (rm_Steps rq) rate" using climbed_pass [OF less.prems(2), of s] s lr True unfolding s(1) by simp
        moreover have "rate \<le> rnd (base + rnd (rnd (of_nat (Suc k)) * inc))" unfolding rate_def
          using less.prems(5) by (intro rnd_mono add_left_mono mult_right_mono) simp_all
        moreover have "fine rnd ctx run opts base inc rq rate (Suc k) = (rp', err)" using less.prems(8) step Inr True False by (simp add: unf split: if_splits)
        ultimately show ?thesis using ramp_step_grows [OF step [unfolded Inr]] o(1-3) less.prems lr
          by (intro less.hyps [of rq rate "Suc k"]) auto
      next
        case nopass: False
        have "climbed rnd (rm_Steps rq) l" using climbed_fail [OF less.prems(2)] s nopass less.prems(4) unfolding s(1) by simp
        moreover have "(rp', err) = (rq\<lparr>rm_LambdaMax := l, rm_Valid := True\<rparr>, None)"
          using less.prems(8) step Inr nopass False by (simp add: unf split: if_splits)
        ultimately show ?thesis using o(1) s lr nopass by simp
      qed
    qed
  qed
qed

text \<open>The two loops together.\<close>

lemma ramp_reports:
  assumes "RunRamp rnd ctx run opts = (rp, err)"
  shows "ramp_steps_ok opts (rm_Steps rp) \<and> (if rm_Valid rp then err = None \<and> climbed rnd (rm_Steps rp) (rm_LambdaMax rp)
        \<and> rm_Steps rp \<noteq> [] \<and> \<not> Passed (last (rm_Steps rp)) \<and> rm_LambdaMax rp \<le> rate_of (last (rm_Steps rp))
      else rm_LambdaMax rp = 0 \<and> (err = None \<longrightarrow> rm_Reason rp \<noteq> None))"
proof -
  have start: "ramp_steps_ok opts (rm_Steps new_ramp)" "climbed rnd (rm_Steps new_ramp) 0" "rnd 2 = 2"
    using rnd_of_int [of 2] by (simp_all add: new_ramp_def ramp_steps_ok_def climbed_def maxRampSteps_def)
  note c = coarse_climbs [OF start(1,2), of 2 ctx]
  show ?thesis
  proof (cases "coarse rnd ctx run opts new_ramp 0 2")
    case (Ended rp' err')
    then show ?thesis using c start(3) rnd_0 assms by (simp add: RunRamp_def new_ramp_def)
  next
    case (Broke rp' l)
    let ?inc = "rnd (PinnedCalibrationFineStepFrac rnd * l)"
    have b: "ramp_steps_ok opts (rm_Steps rp')" "climbed rnd (rm_Steps rp') l" "0 < l" "rnd l = l" "\<not> rm_Valid rp'" "rm_LambdaMax rp' = 0"
      using c start(3) rnd_0 Broke by (simp_all add: new_ramp_def)
    have inc: "0 \<le> ?inc" using b(3) by (intro rnd_nonneg mult_nonneg_nonneg) simp_all
    have "l \<le> rnd (l + rnd (rnd (of_nat 1) * ?inc))" using b(4) inc by (intro rnd_add_ge rnd_nonneg) (simp_all add: rnd_1)
    moreover have "fine rnd ctx run opts l ?inc rp' l 1 = (rp, err)" using assms Broke by (simp add: RunRamp_def)
    ultimately show ?thesis using fine_climbs [OF b(1,2)] b(3,5,6) inc by blast
  qed
qed

end

lemma RunStep_keeps_spec: "cp_Spec (fst (RunStep rnd sqrt64 h lr lv sp)) = sp"
proof -
  have "cp_Spec (fst x) = cp_Spec st" if "sampled rnd lr sampler res st = Some x" for sampler res st x
    using that by (auto simp: sampled_def Let_def split: option.splits if_splits prod.splits)
  then show ?thesis
    by (auto simp: RunStep_def new_step_def Let_def split: sum.split option.split prod.split)
qed

interpretation load: runner fl "\<lambda>k. RunStep fl sqrt64 h lr (live k)" for sqrt64 h lr live
  by unfold_locales (rule RunStep_keeps_spec)

text \<open>Claim C10. A ramp driven by the load runner, whatever the target does, ends within a thousand steps whose seeds count up from the
  ramp's, never sends more than its ceiling, and reports a capacity only as it is measured: a valid ramp's capacity is the
  highest rate that passed, passing means that goodput, queue and client gate met their pins, and the ramp ended on a
  failing step at no lower rate; an invalid ramp reports no capacity and names its reason or its error.\<close>

theorem ramp_measures_capacity:
  assumes "RunRamp fl ctx (\<lambda>k. RunStep fl sqrt64 h lr (live k)) opts = (rp, err)"
  shows "length (rm_Steps rp) \<le> 1000 \<and> (\<forall>i<length (rm_Steps rp). sp_Seed (cp_Spec (rm_Steps rp ! i)) = add64 (op_Seed opts) (int i))
     \<and> (\<forall>s\<in>set (rm_Steps rp). 0 < op_MaxRateRPS opts \<longrightarrow> rate_of s \<le> op_MaxRateRPS opts)
     \<and> (rm_Valid rp \<longrightarrow> err = None
          \<and> (\<forall>s\<in>set (rm_Steps rp). Passed s \<longleftrightarrow> fl (99 / 100) \<le> cp_Goodput s \<and> cp_QueueSamples s \<noteq> 0 \<and> cp_QueueMean s \<le> 1 \<and> gates_pass s)
          \<and> (\<exists>s\<in>set (rm_Steps rp). Passed s \<and> rate_of s = rm_LambdaMax rp) \<and> (\<forall>s\<in>set (rm_Steps rp). Passed s \<longrightarrow> rate_of s \<le> rm_LambdaMax rp)
          \<and> \<not> Passed (last (rm_Steps rp)) \<and> rm_LambdaMax rp \<le> rate_of (last (rm_Steps rp)))
     \<and> (\<not> rm_Valid rp \<longrightarrow> rm_LambdaMax rp = 0 \<and> (err \<noteq> None \<or> rm_Reason rp \<noteq> None))"
  using load.ramp_reports [OF assms] unfolding meets_def [symmetric] ramp_steps_ok_def climbed_def maxRampSteps_def
  by (cases "rm_Valid rp") auto

section \<open>What a calibration decides\<close>

text \<open>What every ramp of a calibration is, and a calibration in progress: as many ramps as it has run, all valid.\<close>

definition nth_ramp_ok :: "(rat \<Rightarrow> rat) \<Rightarrow> cal_options \<Rightarrow> nat \<Rightarrow> ramp \<Rightarrow> bool" where
  "nth_ramp_ok rnd opts i rp \<longleftrightarrow>
     ramp_steps_ok (opts\<lparr>op_Seed := add64 (op_Seed opts) (int i * int maxRampSteps)\<rparr>) (rm_Steps rp)
     \<and> (rm_Valid rp \<longrightarrow> climbed rnd (rm_Steps rp) (rm_LambdaMax rp) \<and> 0 < rm_LambdaMax rp)"

definition ramps_ok :: "(rat \<Rightarrow> rat) \<Rightarrow> cal_options \<Rightarrow> cal_result \<Rightarrow> bool" where
  "ramps_ok rnd opts res \<longleftrightarrow> (\<forall>i<length (cr_Ramps res). nth_ramp_ok rnd opts i (cr_Ramps res ! i))"

definition in_progress :: "(rat \<Rightarrow> rat) \<Rightarrow> cal_options \<Rightarrow> nat \<Rightarrow> cal_result \<Rightarrow> bool" where
  "in_progress rnd opts n res \<longleftrightarrow> length (cr_Ramps res) = n \<and> ramps_ok rnd opts res \<and> \<not> cr_Valid res \<and> cr_LambdaMax res = 0 \<and> cr_LoadRateRPS res = 0"

definition undecided :: "(rat \<Rightarrow> rat) \<Rightarrow> cal_options \<Rightarrow> cal_result \<Rightarrow> cal_error option \<Rightarrow> bool" where
  "undecided rnd opts res err \<longleftrightarrow> (\<exists>n\<le>3. in_progress rnd opts n res) \<and> (err \<noteq> None \<or> cr_Reason res \<noteq> None)"

text \<open>The interface of a calibration: every ramp has a runner that keeps its parameters.\<close>

locale calibration = rounding +
  fixes run :: "nat \<Rightarrow> runner_fun"
  assumes runners: "runner rnd (run i)"
begin

lemma cal_ramp_outcome:
  assumes "cal_ramp rnd ctx run opts n res = (res', out)" and "in_progress rnd opts n res"
  shows "in_progress rnd opts (Suc n) res' \<and> (\<exists>rp. cr_Ramps res' = cr_Ramps res @ [rp] \<and> (\<forall>v. out = Inr v \<longrightarrow> rm_Valid rp = v))
     \<and> (out = Inr False \<longrightarrow> cr_Reason res' \<noteq> None)"
proof -
  obtain rp err where rp: "RunRamp rnd (ctx n) (run n) (opts\<lparr>op_Seed := add64 (op_Seed opts) (int n * int maxRampSteps)\<rparr>) = (rp, err)"
    by fastforce
  have "nth_ramp_ok rnd opts n rp"
    using runner.ramp_reports [OF runners rp] by (auto simp: nth_ramp_ok_def climbed_def split: if_splits)
  then have "ramps_ok rnd opts (res\<lparr>cr_Ramps := cr_Ramps res @ [rp]\<rparr>)" 
    using assms(2) by (auto simp: in_progress_def ramps_ok_def nth_append less_Suc_eq)
  then show ?thesis using assms rp
    by (cases "rm_Valid rp") (auto simp: cal_ramp_def in_progress_def ramps_ok_def Let_def split: option.splits)
qed

lemma cal_ramp_undecided:
  assumes "cal_ramp rnd ctx run opts n res = (res', out)" and "in_progress rnd opts n res" and "n < 3"
  shows "out = Inl e \<Longrightarrow> undecided rnd opts res' (Some e)" and "out = Inr False \<Longrightarrow> undecided rnd opts res' err"
proof -
  have "in_progress rnd opts (Suc n) res'" "out = Inr False \<longrightarrow> cr_Reason res' \<noteq> None" using cal_ramp_outcome [OF assms(1,2)] by simp_all
  then show "out = Inl e \<Longrightarrow> undecided rnd opts res' (Some e)" "out = Inr False \<Longrightarrow> undecided rnd opts res' err"
    using assms(3) unfolding undecided_def by (auto intro!: exI [of _ "Suc n"])
qed

text \<open>A calibration is left undecided with its error or its reason, or decided over two or three valid ramps.\<close>

lemma calibration_outcome:
  assumes "Calibrate rnd ctx run opts = (res, err)"
  shows "undecided rnd opts res err
     \<or> (\<exists>res' a b. err = None \<and> in_progress rnd opts 2 res' \<and> (\<forall>rp\<in>set (cr_Ramps res'). rm_Valid rp) \<and> map rm_LambdaMax (cr_Ramps res') = [a, b]
          \<and> \<not> disagree rnd a b \<and> res = decided rnd (min a b) Agreed res')
     \<or> (\<exists>res' a b c. err = None \<and> in_progress rnd opts 3 res' \<and> (\<forall>rp\<in>set (cr_Ramps res'). rm_Valid rp) \<and> map rm_LambdaMax (cr_Ramps res') = [a, b, c]
          \<and> disagree rnd a b \<and> res = decided rnd (middle a b c) ByMedian res')"
proof -
  have start: "in_progress rnd opts 0 new_calibration" "cr_Ramps new_calibration = []"
    by (simp_all add: in_progress_def ramps_ok_def new_calibration_def)
  obtain r1 o1 where c1: "cal_ramp rnd ctx run opts 0 new_calibration = (r1, o1)" by fastforce
  obtain r2 o2 where c2: "cal_ramp rnd ctx run opts 1 r1 = (r2, o2)" by fastforce
  obtain r3 o3 where c3: "cal_ramp rnd ctx run opts 2 r2 = (r3, o3)" by fastforce
  note s1 = cal_ramp_outcome [OF c1 start(1), unfolded start(2)]
  have p1: "in_progress rnd opts 1 r1" using s1 by simp
  note s2 = cal_ramp_outcome [OF c2 p1]
  have p2: "in_progress rnd opts 2 r2" using s2 by (simp add: numeral_2_eq_2)
  note s3 = cal_ramp_outcome [OF c3 p2]
  have p3: "in_progress rnd opts 3 r3" using s3 by (simp add: numeral_3_eq_3 numeral_2_eq_2)
  obtain x y z where xyz: "cr_Ramps r1 = [x]" "cr_Ramps r2 = [x, y]" "cr_Ramps r3 = [x, y, z]"
    "o1 = Inr True \<Longrightarrow> rm_Valid x" "o2 = Inr True \<Longrightarrow> rm_Valid y" "o3 = Inr True \<Longrightarrow> rm_Valid z"
    using s1 s2 s3 by auto
  note eval = assms [unfolded Calibrate_def c1 c2 prod.case Let_def xyz(2)]
  show ?thesis
  proof (cases "o1 = Inr True \<and> o2 = Inr True")
    case False
    then have "undecided rnd opts res err" using eval cal_ramp_undecided [OF c1 start(1)] cal_ramp_undecided [OF c2 p1]
      by (auto split: sum.splits bool.splits)
    then show ?thesis ..
  next
    case both: True
    show ?thesis
    proof (cases "disagree rnd (rm_LambdaMax x) (rm_LambdaMax y)")
      case False
      then have "err = None" "res = decided rnd (min (rm_LambdaMax x) (rm_LambdaMax y)) Agreed r2" using eval both by simp_all
      then show ?thesis using p2 xyz(2,4,5) both False by (intro disjI2 disjI1 exI [of _ r2]) auto
    next
      case True
      show ?thesis
      proof (cases "o3 = Inr True")
        case o3: True
        then have "err = None" "res = decided rnd (middle (rm_LambdaMax x) (rm_LambdaMax y) (rm_LambdaMax z)) ByMedian r3"
          using eval both True c3 xyz(3) by simp_all
        then show ?thesis using p3 xyz(3-6) both o3 True by (intro disjI2 exI [of _ r3]) auto
      next
        case False
        then have "undecided rnd opts res err" using eval both True c3 cal_ramp_undecided [OF c3 p2]
          by (auto split: sum.splits bool.splits)
        then show ?thesis ..
      qed
    qed
  qed
qed

end

lemma middle_of_three:
  "middle a b c \<in> set [a, b, c]" "2 \<le> length (filter (\<lambda>x. x \<le> middle a b c) [a, b, c])" "2 \<le> length (filter (\<lambda>x. middle a b c \<le> x) [a, b, c])"
  by (auto simp: middle_def)

lemma wrap64_inj:
  assumes "wrap64 x = wrap64 y" and "\<bar>x - y\<bar> < 2 ^ 64"
  shows "x = y"
proof -
  have "2 ^ 64 dvd x - y" using assms(1) by (simp add: wrap64_eq_iff mod_eq_dvd_iff)
  then show ?thesis using assms(2) dvd_imp_le_int [of "x - y" "2 ^ 64"] by fastforce
qed

lemma decided_facts:
  "cr_Ramps (decided rnd m d res) = cr_Ramps res" "cr_Valid (decided rnd m d res)" "cr_LambdaMax (decided rnd m d res) = m"
  "cr_LambdaR (decided rnd m d res) = rnd (rnd (65 / 100) * m)" "cr_LoadRateRPS (decided rnd m d res) = rnd (2 * rnd (rnd (65 / 100) * m))"
  "ramps_ok rnd opts (decided rnd m d res) = ramps_ok rnd opts res"
  by (simp_all add: decided_def ramps_ok_def Let_def)

interpretation calib: calibration fl "\<lambda>i k. RunStep fl sqrt64 h lr (live i k)" for sqrt64 h lr live
  by unfold_locales (rule RunStep_keeps_spec)

lemma calibration_rates:
  assumes "Calibrate fl ctx (\<lambda>i k. RunStep fl sqrt64 h lr (live i k)) opts = (res, err)" and "cr_Valid res"
  shows "0 < cr_LambdaMax res \<and> cr_LambdaMax res \<in> set (map rm_LambdaMax (cr_Ramps res)) \<and> err = None
     \<and> (\<forall>rp\<in>set (cr_Ramps res). rm_Valid rp)
     \<and> cr_LambdaR res = fl (fl (65 / 100) * cr_LambdaMax res) \<and> cr_LoadRateRPS res = fl (2 * cr_LambdaR res)"
proof -
  have pos: "0 < x" if "in_progress fl opts n res'" "\<forall>rp\<in>set (cr_Ramps res'). rm_Valid rp" "x \<in> set (map rm_LambdaMax (cr_Ramps res'))" for n res' x
  proof -
    note h = that
    obtain i where i: "i < length (cr_Ramps res')" "x = rm_LambdaMax (cr_Ramps res' ! i)" using h(3) by (auto simp: in_set_conv_nth)
    then show ?thesis using h(1,2) nth_mem [OF i(1)] by (simp add: in_progress_def ramps_ok_def nth_ramp_ok_def)
  qed
  from calib.calibration_outcome [OF assms(1)] show ?thesis
  proof (elim disjE exE conjE)
    assume "undecided fl opts res err"
    then show ?thesis using assms(2) by (auto simp: undecided_def in_progress_def)
  next
    fix res' a b
    assume h: "err = None" "in_progress fl opts 2 res'" "\<forall>rp\<in>set (cr_Ramps res'). rm_Valid rp" "map rm_LambdaMax (cr_Ramps res') = [a, b]"
      "\<not> disagree fl a b" "res = decided fl (min a b) Agreed res'"
    obtain x y where xy: "cr_Ramps res' = [x, y]" "rm_LambdaMax x = a" "rm_LambdaMax y = b" using h(4) by (auto simp: map_eq_Cons_conv)
    show ?thesis using h(1,3,5) pos [OF h(2,3), of a] pos [OF h(2,3), of b] by (simp add: h(6) decided_facts xy min_def)
  next
    fix res' a b c
    assume h: "err = None" "in_progress fl opts 3 res'" "\<forall>rp\<in>set (cr_Ramps res'). rm_Valid rp" "map rm_LambdaMax (cr_Ramps res') = [a, b, c]"
      "disagree fl a b" "res = decided fl (middle a b c) ByMedian res'"
    obtain x y z where xyz: "cr_Ramps res' = [x, y, z]" "rm_LambdaMax x = a" "rm_LambdaMax y = b" "rm_LambdaMax z = c"
      using h(4) by (auto simp: map_eq_Cons_conv)
    show ?thesis using h(1,3,5) pos [OF h(2,3), of "middle a b c"] middle_of_three [of a b c] by (simp add: h(6) decided_facts xyz)
  qed
qed

text \<open>What \<open>Calibrate\<close> does with the ramps it runs, the i-th being \<open>ramp i\<close>: how many it runs, which it reports, and its outcome.\<close>

definition ramps_run :: "(rat \<Rightarrow> rat) \<Rightarrow> (nat \<Rightarrow> ramp \<times> cal_error option) \<Rightarrow> nat" where
  "ramps_run rnd ramp =
     (let ok = \<lambda>i. snd (ramp i) = None \<and> rm_Valid (fst (ramp i))
      in if \<not> ok 0 then 1
         else if \<not> ok 1 \<or> \<not> disagree rnd (rm_LambdaMax (fst (ramp 0))) (rm_LambdaMax (fst (ramp 1))) then 2 else 3)"

lemma Calibrate_runs:
  assumes ramp_def: "\<And>i. ramp i = RunRamp rnd (ctx i) (run i) (opts\<lparr>op_Seed := add64 (op_Seed opts) (int i * 1000)\<rparr>)"
    and "Calibrate rnd ctx run opts = (res, err)"
  shows "cr_Ramps res = map (\<lambda>i. fst (ramp i)) [0..<ramps_run rnd ramp] \<and> err = snd (ramp (ramps_run rnd ramp - 1))
     \<and> (cr_Valid res \<longleftrightarrow> list_all (\<lambda>(rp, e). e = None \<and> rm_Valid rp) (map ramp [0..<ramps_run rnd ramp]))
     \<and> (\<not> cr_Valid res \<longrightarrow> err = None \<longrightarrow> cr_Reason res = Some (ramps_run rnd ramp, rm_Reason (fst (ramp (ramps_run rnd ramp - 1)))))
     \<and> (cr_Valid res \<longrightarrow> cr_LambdaMax res =
          (if ramps_run rnd ramp = 2 then min (rm_LambdaMax (fst (ramp 0))) (rm_LambdaMax (fst (ramp 1)))
           else middle (rm_LambdaMax (fst (ramp 0))) (rm_LambdaMax (fst (ramp 1))) (rm_LambdaMax (fst (ramp 2)))))"
proof -
  have cr: "cal_ramp rnd ctx run opts i r = (let (rp, err) = ramp i; r1 = r\<lparr>cr_Ramps := cr_Ramps r @ [rp]\<rparr>
      in case err of Some e \<Rightarrow> (r1, Inl e)
         | None \<Rightarrow> (if \<not> rm_Valid rp then r1\<lparr>cr_Reason := Some (i + 1, rm_Reason rp)\<rparr> else r1, Inr (rm_Valid rp)))" for i r
    by (simp add: cal_ramp_def ramp_def maxRampSteps_def Let_def split: prod.split)
  obtain r0 e0 r1 e1 r2 e2 where r: "ramp 0 = (r0, e0)" "ramp (Suc 0) = (r1, e1)" "ramp 2 = (r2, e2)" by (metis surj_pair)
  have up: "[0..<1] = [0::nat]" "[0..<2] = [0, Suc 0]" "[0..<3] = [0, Suc 0, 2]" by (simp_all add: upt_rec)
  have cases: "(\<exists>e. e0 = Some e) \<or> e0 = None \<and> \<not> rm_Valid r0 \<or> e0 = None \<and> rm_Valid r0 \<and> (\<exists>e. e1 = Some e)
      \<or> e0 = None \<and> rm_Valid r0 \<and> e1 = None \<and> \<not> rm_Valid r1
      \<or> e0 = None \<and> rm_Valid r0 \<and> e1 = None \<and> rm_Valid r1 \<and> \<not> disagree rnd (rm_LambdaMax r0) (rm_LambdaMax r1)
      \<or> e0 = None \<and> rm_Valid r0 \<and> e1 = None \<and> rm_Valid r1 \<and> disagree rnd (rm_LambdaMax r0) (rm_LambdaMax r1) \<and> (\<exists>e. e2 = Some e)
      \<or> e0 = None \<and> rm_Valid r0 \<and> e1 = None \<and> rm_Valid r1 \<and> disagree rnd (rm_LambdaMax r0) (rm_LambdaMax r1) \<and> e2 = None" by auto
  note eval = assms(2) [unfolded Calibrate_def cr]
  from cases show ?thesis
    by (elim disjE exE conjE)
      (use eval in \<open>auto simp: ramps_run_def r Let_def new_calibration_def decided_def up One_nat_def split: if_splits\<close>)
qed

text \<open>Claim C21. A calibration, whatever the target does, runs one ramp after another, the i-th with its own seeds, and stops at the
  first that fails or measures no capacity, after two whose capacities agree within a tenth of the larger, or after a third.
  It is decided exactly when every ramp it ran measured a capacity, at least two; then it reports a measured capacity: the
  lower of two that agree, or the middle of three, with the frozen rate and the experiment's load derived from it.
  Otherwise it reports no rate, and the last ramp's error or the last ramp's reason.\<close>

theorem calibration_decision:
  fixes ctx live opts and sqrt64 :: "rat \<Rightarrow> rat" and h :: hist and lr :: load_runner
  defines "ramp \<equiv> \<lambda>i. RunRamp fl (ctx i) (\<lambda>k. RunStep fl sqrt64 h lr (live i k)) (opts\<lparr>op_Seed := add64 (op_Seed opts) (int i * 1000)\<rparr>)"
  defines "ok \<equiv> \<lambda>i. snd (ramp i) = None \<and> rm_Valid (fst (ramp i))"
  defines "x \<equiv> \<lambda>i. rm_LambdaMax (fst (ramp i))"
  defines "third \<equiv> fl (fl (1 / 10) * max (x 0) (x 1)) < \<bar>fl (x 0 - x 1)\<bar>"
  defines "n \<equiv> (if \<not> ok 0 then 1 else if \<not> ok 1 \<or> \<not> third then 2 else 3)"
  assumes "Calibrate fl ctx (\<lambda>i k. RunStep fl sqrt64 h lr (live i k)) opts = (res, err)"
  shows "cr_Ramps res = map (\<lambda>i. fst (ramp i)) [0..<n] \<and> err = snd (ramp (n - 1))
     \<and> (cr_Valid res \<longleftrightarrow> ok 0 \<and> ok 1 \<and> (third \<longrightarrow> ok 2))
     \<and> (cr_Valid res \<longrightarrow> err = None \<and> (\<forall>rp\<in>set (cr_Ramps res). rm_Valid rp) \<and> 0 < cr_LambdaMax res
          \<and> cr_LambdaMax res \<in> set (map rm_LambdaMax (cr_Ramps res))
          \<and> (if third then 2 \<le> length (filter (\<lambda>y. cr_LambdaMax res \<le> y) [x 0, x 1, x 2])
                \<and> 2 \<le> length (filter (\<lambda>y. y \<le> cr_LambdaMax res) [x 0, x 1, x 2])
             else cr_LambdaMax res = min (x 0) (x 1))
          \<and> cr_LambdaR res = fl (fl (65 / 100) * cr_LambdaMax res) \<and> cr_LoadRateRPS res = fl (2 * cr_LambdaR res))
     \<and> (\<not> cr_Valid res \<longrightarrow> cr_LambdaMax res = 0 \<and> cr_LoadRateRPS res = 0
          \<and> (err = None \<longrightarrow> cr_Reason res = Some (n, rm_Reason (fst (ramp (n - 1))))))"
proof -
  have n: "n = ramps_run fl ramp"
    by (simp add: n_def ramps_run_def ok_def third_def disagree_def x_def Let_def)
  have "ramp i = RunRamp fl (ctx i) (\<lambda>k. RunStep fl sqrt64 h lr (live i k)) (opts\<lparr>op_Seed := add64 (op_Seed opts) (int i * 1000)\<rparr>)" for i
    by (simp add: ramp_def)
  note runs = Calibrate_runs [OF this assms(6), folded n]
  have "list_all (\<lambda>(rp, e). e = None \<and> rm_Valid rp) (map ramp [0..<n]) \<longleftrightarrow> list_all ok [0..<n]"
    by (simp add: list_all_iff ok_def split_beta)
  also have "\<dots> \<longleftrightarrow> ok 0 \<and> ok 1 \<and> (third \<longrightarrow> ok 2)" by (auto simp: n_def upt_rec numeral_2_eq_2)
  finally have all: "list_all (\<lambda>(rp, e). e = None \<and> rm_Valid rp) (map ramp [0..<n]) \<longleftrightarrow> ok 0 \<and> ok 1 \<and> (third \<longrightarrow> ok 2)" .
  have valid: "cr_Valid res \<longleftrightarrow> ok 0 \<and> ok 1 \<and> (third \<longrightarrow> ok 2)" using runs all by blast
  have rates: "0 < cr_LambdaMax res \<and> cr_LambdaMax res \<in> set (map rm_LambdaMax (cr_Ramps res)) \<and> err = None
      \<and> (\<forall>rp\<in>set (cr_Ramps res). rm_Valid rp)
      \<and> cr_LambdaR res = fl (fl (65 / 100) * cr_LambdaMax res) \<and> cr_LoadRateRPS res = fl (2 * cr_LambdaR res)" if "cr_Valid res"
    using calibration_rates [OF assms(6) that] .
  have zero: "cr_LambdaMax res = 0 \<and> cr_LoadRateRPS res = 0" if "\<not> cr_Valid res"
    using calib.calibration_outcome [OF assms(6)] that
    by (auto simp: undecided_def in_progress_def decided_facts)
  have middle: "2 \<le> length (filter (\<lambda>y. cr_LambdaMax res \<le> y) [x 0, x 1, x 2]) \<and> 2 \<le> length (filter (\<lambda>y. y \<le> cr_LambdaMax res) [x 0, x 1, x 2])"
    if "cr_Valid res" "third"
  proof -
    have "n = 3" using that valid by (simp add: n_def)
    then have "cr_LambdaMax res = middle (x 0) (x 1) (x 2)" using runs that(1) by (simp add: x_def)
    then show ?thesis using middle_of_three [of "x 0" "x 1" "x 2"] by simp
  qed
  have lower: "cr_LambdaMax res = min (x 0) (x 1)" if "cr_Valid res" "\<not> third"
  proof -
    have "n = 2" using that valid by (simp add: n_def)
    then show ?thesis using runs that(1) by (simp add: x_def)
  qed
  have agreed: "cr_Valid res \<longrightarrow> (if third then 2 \<le> length (filter (\<lambda>y. cr_LambdaMax res \<le> y) [x 0, x 1, x 2])
        \<and> 2 \<le> length (filter (\<lambda>y. y \<le> cr_LambdaMax res) [x 0, x 1, x 2]) else cr_LambdaMax res = min (x 0) (x 1))"
    using middle lower by presburger
  have reason: "\<not> cr_Valid res \<longrightarrow> err = None \<longrightarrow> cr_Reason res = Some (n, rm_Reason (fst (ramp (n - 1))))" using runs by blast
  have parts: "cr_Ramps res = map (\<lambda>i. fst (ramp i)) [0..<n]" "err = snd (ramp (n - 1))" using runs by blast+
  show ?thesis
  proof (intro conjI impI parts valid)
    assume v: "cr_Valid res"
    from rates [OF v] agreed v show "err = None" "\<forall>rp\<in>set (cr_Ramps res). rm_Valid rp" "0 < cr_LambdaMax res"
      "cr_LambdaMax res \<in> set (map rm_LambdaMax (cr_Ramps res))"
      "if third then 2 \<le> length (filter (\<lambda>y. cr_LambdaMax res \<le> y) [x 0, x 1, x 2])
        \<and> 2 \<le> length (filter (\<lambda>y. y \<le> cr_LambdaMax res) [x 0, x 1, x 2]) else cr_LambdaMax res = min (x 0) (x 1)"
      "cr_LambdaR res = fl (fl (65 / 100) * cr_LambdaMax res)" "cr_LoadRateRPS res = fl (2 * cr_LambdaR res)" by blast+
  next
    assume v: "\<not> cr_Valid res"
    then show "cr_LambdaMax res = 0" "cr_LoadRateRPS res = 0" using zero by blast+
    assume "err = None"
    with v reason show "cr_Reason res = Some (n, rm_Reason (fst (ramp (n - 1))))" by blast
  qed
qed

text \<open>Claim C27. No two steps of a calibration share an arrival schedule: their seeds are distinct 64-bit integers even where they
  wrap around.\<close>

theorem calibration_seeds_distinct:
  assumes "Calibrate fl ctx (\<lambda>i k. RunStep fl sqrt64 h lr (live i k)) opts = (res, err)"
    and "i < length (cr_Ramps res)" and "j < length (rm_Steps (cr_Ramps res ! i))"
    and "i' < length (cr_Ramps res)" and "j' < length (rm_Steps (cr_Ramps res ! i'))"
  shows "sp_Seed (cp_Spec (rm_Steps (cr_Ramps res ! i) ! j)) = sp_Seed (cp_Spec (rm_Steps (cr_Ramps res ! i') ! j')) \<longleftrightarrow> i = i' \<and> j = j'"
proof
  assume same: "sp_Seed (cp_Spec (rm_Steps (cr_Ramps res ! i) ! j)) = sp_Seed (cp_Spec (rm_Steps (cr_Ramps res ! i') ! j'))"
  have "length (cr_Ramps res) \<le> 3 \<and> ramps_ok fl opts res"
    using calib.calibration_outcome [OF assms(1)] unfolding undecided_def in_progress_def
    by (elim disjE exE conjE) (simp_all add: decided_facts)
  then have three: "length (cr_Ramps res) \<le> 3" and ok: "ramps_ok fl opts res" by simp_all
  have seed: "sp_Seed (cp_Spec (rm_Steps (cr_Ramps res ! p) ! q)) = wrap64 (op_Seed opts + (int p * 1000 + int q)) \<and> q < 1000"
    if "p < length (cr_Ramps res)" "q < length (rm_Steps (cr_Ramps res ! p))" for p q
  proof -
    have "ramp_steps_ok (opts\<lparr>op_Seed := add64 (op_Seed opts) (int p * int maxRampSteps)\<rparr>) (rm_Steps (cr_Ramps res ! p))"
      using ok that(1) by (simp add: ramps_ok_def nth_ramp_ok_def)
    then show ?thesis using that(2) by (simp add: ramp_steps_ok_def maxRampSteps_def add64_def wrap64_add_left add.assoc)
  qed
  note a = seed [OF assms(2,3)] and b = seed [OF assms(4,5)]
  have lt: "i < 3" "i' < 3" "j < 1000" "j' < 1000" using assms(2,4) three a b by simp_all
  have "wrap64 (op_Seed opts + (int i * 1000 + int j)) = wrap64 (op_Seed opts + (int i' * 1000 + int j'))"
    using a b same by argo
  then have "op_Seed opts + (int i * 1000 + int j) = op_Seed opts + (int i' * 1000 + int j')"
  proof (rule wrap64_inj)
    have "\<bar>op_Seed opts + (int i * 1000 + int j) - (op_Seed opts + (int i' * 1000 + int j'))\<bar> < 4000" using lt by linarith
    also have "(4000 :: int) < 2 ^ 64" by simp
    finally show "\<bar>op_Seed opts + (int i * 1000 + int j) - (op_Seed opts + (int i' * 1000 + int j'))\<bar> < 2 ^ 64" .
  qed
  then have "int (i * 1000 + j) = int (i' * 1000 + j')" by simp
  then have eq: "i * 1000 + j = i' * 1000 + j'" by (simp only: of_nat_eq_iff)
  have "(i * 1000 + j) div 1000 = i" "(i' * 1000 + j') div 1000 = i'" using lt by simp_all
  then show "i = i' \<and> j = j'" using eq by simp
qed simp

section \<open>An example\<close>

text \<open>A target that passes its first step only.\<close>

definition demo_load :: "bool \<Rightarrow> lg_result" where
  "demo_load p = \<lparr>lr_EpochWall = 0, lr_Requests = [hd demo_requests], lr_Gates = demo_gates\<lparr>g_Pass := p\<rparr>, lr_WarmupEndNs = 0,
     lr_BaselineEndNs = 1000000000, lr_FaultEndNs = 1000000000, lr_RunEndNs = 1000000000, lr_TInjectNs = 1000000000\<rparr>"

definition demo_live :: "nat \<Rightarrow> live" where
  "demo_live k = \<lparr>lv_result = Inr (demo_load (k = 0)), lv_epoch = Some 0,
     lv_sampler = Some ([\<lparr>sm_Replica = ''r0'', sm_At = 500000000, sm_Value = 0, sm_Families = []\<rparr>], 0, 0), lv_canary = None, lv_canaryErr = []\<rparr>"

definition demo_loader :: load_runner where
  "demo_loader = \<lparr>ld_Base = demo_run, ld_Families = [], ld_TTFTFamily = [], ld_SampleIntervalNs = 0\<rparr>"

definition demo_options :: cal_options where
  "demo_options = \<lparr>op_MaxRateRPS = 0, op_SettleS = 0, op_MeasureS = 1, op_Seed = 9223372036854775807\<rparr>"

lemma goodput_share:
  assumes "Collect_stats rnd sqrt64 h cfg rs w = Inr st"
  shows "\<exists>a. collect_loop h cfg w rs (zero_acc cfg) = Inr a \<and> st_GoodputFrac st = share rnd (k_goodput a) (k_Scheduled a)"
  using assms by (auto simp: Collect_stats_def Let_def split: sum.splits option.splits prod.splits)

lemma demo_goodput:
  defines "w \<equiv> \<lparr>w_Name = ''measured'', w_StartNs = 0, w_EndNs = 1000000000, w_Replica = []\<rparr>"
  shows "\<exists>st. Collect_stats fl (\<lambda>x. 1) demo_hist (rc_Collect demo_run) [hd demo_requests] w = Inr st \<and> st_GoodputFrac st = 1"
proof -
  have rec: "\<forall>r\<in>set [hd demo_requests]. recordable demo_hist r" by code_simp
  then obtain st where st: "Collect_stats fl (\<lambda>x. 1) demo_hist (rc_Collect demo_run) [hd demo_requests] w = Inr st"
    using f64.Collect_ok [of "\<lambda>x. 1" demo_hist "rc_Collect demo_run" "[hd demo_requests]" w] by (auto simp: is_ok_iff)
  have "case collect_loop demo_hist (rc_Collect demo_run) w [hd demo_requests] (zero_acc (rc_Collect demo_run)) of
      Inr a \<Rightarrow> k_goodput a = 1 \<and> k_Scheduled a = 1 | Inl e \<Rightarrow> False" unfolding w_def by code_simp
  then have "st_GoodputFrac st = share fl 1 1" using goodput_share [OF st] by (auto split: sum.splits)
  then show ?thesis using st by (simp add: share_def f64.rnd_1)
qed

lemma demo_sampled:
  assumes "sp_MeasureS (cp_Spec st) = 1"
  shows "\<exists>st'. sampled fl demo_loader (lv_sampler (demo_live k)) (demo_load p) st = Some (st', []) \<and> cp_QueueMean st' = 0 \<and> cp_QueueSamples st' = 1
     \<and> cp_QueueExpected st' = 1 \<and> cp_Goodput st' = cp_Goodput st \<and> cp_Gates st' = cp_Gates st \<and> cp_Spec st' = cp_Spec st"
proof -
  have "go_div 1000000000 1000000000 = 1" by code_simp
  then have "duration_seconds fl 1000000000 = 1" by (simp add: duration_seconds_def f64.rnd_0 f64.rnd_1)
  moreover have "trunc64 (fl 1) = 1" by (simp add: f64.rnd_1 trunc64_def)
  ultimately show ?thesis using assms
    by (simp add: sampled_def demo_live_def demo_loader_def demo_load_def BaselineMeans_def Let_def sum64_def f64.rnd_0)
qed

lemma demo_step:
  assumes "sp_MeasureS sp = 1"
  shows "\<exists>s. RunStep fl (\<lambda>x. 1) demo_hist demo_loader (demo_live k) sp = (s, None) \<and> Passed (Judge fl s) = (k = 0) \<and> \<not> under_observed fl s"
proof -
  obtain cst where cst: "Collect_stats fl (\<lambda>x. 1) demo_hist (rc_Collect demo_run) [hd demo_requests]
      \<lparr>w_Name = ''measured'', w_StartNs = 0, w_EndNs = 1000000000, w_Replica = []\<rparr> = Inr cst" "st_GoodputFrac cst = 1"
    using demo_goodput by blast
  define st where "st = (new_step sp)\<lparr>cp_StartedWall := Some 0, cp_MeasuredStartWall := Some 0, cp_MeasuredEndWall := Some 1000000000,
    cp_Stats := Some cst, cp_Goodput := 1, cp_Gates := Some (demo_gates\<lparr>g_Pass := k = 0\<rparr>)\<rparr>"
  have "sp_MeasureS (cp_Spec st) = 1" using assms by (simp add: st_def new_step_def)
  from demo_sampled [OF this, of k "k = 0"] obtain st' where
    st': "sampled fl demo_loader (lv_sampler (demo_live k)) (demo_load (k = 0)) st = Some (st', [])" "cp_QueueMean st' = 0" "cp_QueueSamples st' = 1"
      "cp_QueueExpected st' = 1" "cp_Goodput st' = 1" "cp_Gates st' = Some (demo_gates\<lparr>g_Pass := k = 0\<rparr>)"
    by (auto simp: st_def)
  have "fl (99 / 100) \<le> 1" "fl (fl (9 / 10) * fl 1) \<le> fl 1"
    by (auto simp: f64.rnd_1 intro!: f64.rnd_le_1)
  with st' have ok: "Passed (Judge fl (st'\<lparr>cp_ReceivePath := rp\<rparr>)) = (k = 0) \<and> \<not> under_observed fl (st'\<lparr>cp_ReceivePath := rp\<rparr>)" for rp
    by (simp add: meets_def gates_pass_def under_observed_def coverageOK_def PinnedQueueCoverageMin_def)
  have base: "lr_EpochWall (demo_load p) = 0" "lr_WarmupEndNs (demo_load p) = 0" "lr_BaselineEndNs (demo_load p) = 1000000000"
    "lr_Requests (demo_load p) = [hd demo_requests]" "lr_Gates (demo_load p) = demo_gates\<lparr>g_Pass := p\<rparr>"
    "lv_result (demo_live k) = Inr (demo_load (k = 0))" "lv_epoch (demo_live k) = Some 0" "lv_canary (demo_live k) = None" "lv_canaryErr (demo_live k) = []"
    "ld_Base demo_loader = demo_run" for p by (simp_all add: demo_load_def demo_live_def demo_loader_def)
  show ?thesis using ok st'(1) cst by (simp add: RunStep_def base st_def Let_def)
qed

lemma demo_ramp_step:
  assumes "op_MeasureS opts = 1" and "length (rm_Steps rp) < 1000"
  shows "\<exists>s. ramp_step fl (\<lambda>_. None) (\<lambda>k. RunStep fl (\<lambda>x. 1) demo_hist demo_loader (demo_live k)) opts rate rp
     = (rp\<lparr>rm_Steps := rm_Steps rp @ [s]\<rparr>, Inr (rm_Steps rp = []))"
proof -
  have "sp_MeasureS (step_spec opts (length (rm_Steps rp)) rate) = 1" using assms(1) by (simp add: step_spec_def measure_of_def)
  from demo_step [OF this, of "length (rm_Steps rp)"] assms(2) show ?thesis
    by (auto simp: ramp_step_def maxRampSteps_def Let_def)
qed

lemma demo_ramp:
  assumes "op_MeasureS opts = 1" and "op_MaxRateRPS opts = 0"
  shows "\<exists>rp. RunRamp fl (\<lambda>_. None) (\<lambda>k. RunStep fl (\<lambda>x. 1) demo_hist demo_loader (demo_live k)) opts = (rp, None)
     \<and> rm_Valid rp \<and> rm_LambdaMax rp = 2 \<and> length (rm_Steps rp) = 3"
proof -
  note st = demo_ramp_step [OF assms(1)]
  obtain s1 where s1: "ramp_step fl (\<lambda>_. None) (\<lambda>k. RunStep fl (\<lambda>x. 1) demo_hist demo_loader (demo_live k)) opts 2 new_ramp
      = (new_ramp\<lparr>rm_Steps := [s1]\<rparr>, Inr True)" using st [of new_ramp 2] by (auto simp: new_ramp_def)
  obtain s2 where s2: "ramp_step fl (\<lambda>_. None) (\<lambda>k. RunStep fl (\<lambda>x. 1) demo_hist demo_loader (demo_live k)) opts (fl 4) (new_ramp\<lparr>rm_Steps := [s1]\<rparr>)
      = (new_ramp\<lparr>rm_Steps := [s1, s2]\<rparr>, Inr False)" using st [of "new_ramp\<lparr>rm_Steps := [s1]\<rparr>" "fl 4"] by auto
  define r where "r = fl (2 + fl (fl (1 / 10) * 2))"
  obtain s3 where s3: "ramp_step fl (\<lambda>_. None) (\<lambda>k. RunStep fl (\<lambda>x. 1) demo_hist demo_loader (demo_live k)) opts r (new_ramp\<lparr>rm_Steps := [s1, s2]\<rparr>)
      = (new_ramp\<lparr>rm_Steps := [s1, s2, s3]\<rparr>, Inr False)" using st [of "new_ramp\<lparr>rm_Steps := [s1, s2]\<rparr>" r] by auto
  have "coarse fl (\<lambda>_. None) (\<lambda>k. RunStep fl (\<lambda>x. 1) demo_hist demo_loader (demo_live k)) opts new_ramp 0 2 = Broke (new_ramp\<lparr>rm_Steps := [s1, s2]\<rparr>) 2"
    using assms(2) s1 s2 by (simp add: coarse.simps [of fl _ _ _ new_ramp] coarse.simps [of fl _ _ _ "new_ramp\<lparr>rm_Steps := [s1]\<rparr>"])
  then show ?thesis using assms(2) s3 by (simp add: RunRamp_def fine.simps r_def [symmetric] new_ramp_def Let_def)
qed

theorem ramp_measures_capacity_witness:
  "\<exists>rp. RunRamp fl (\<lambda>_. None) (\<lambda>k. RunStep fl (\<lambda>x. 1) demo_hist demo_loader (demo_live k)) demo_options = (rp, None)
     \<and> rm_Valid rp \<and> rm_LambdaMax rp = 2 \<and> (\<exists>s\<in>set (rm_Steps rp). Passed s \<and> rate_of s = 2) \<and> \<not> Passed (last (rm_Steps rp))"
proof -
  obtain rp where rp: "RunRamp fl (\<lambda>_. None) (\<lambda>k. RunStep fl (\<lambda>x. 1) demo_hist demo_loader (demo_live k)) demo_options = (rp, None)"
    "rm_Valid rp" "rm_LambdaMax rp = 2"
    using demo_ramp [of demo_options] by (auto simp: demo_options_def)
  from ramp_measures_capacity [OF rp(1)] rp show ?thesis by auto
qed

lemma demo_calibration:
  "\<exists>res. Calibrate fl (\<lambda>_ _. None) (\<lambda>i k. RunStep fl (\<lambda>x. 1) demo_hist demo_loader (demo_live k)) demo_options = (res, None)
     \<and> cr_Valid res \<and> cr_LambdaMax res = 2 \<and> length (cr_Ramps res) = 2 \<and> (\<forall>rp\<in>set (cr_Ramps res). length (rm_Steps rp) = 3)"
proof -
  have one: "\<exists>rp. cal_ramp fl (\<lambda>_ _. None) (\<lambda>i k. RunStep fl (\<lambda>x. 1) demo_hist demo_loader (demo_live k)) demo_options i res
      = (res\<lparr>cr_Ramps := cr_Ramps res @ [rp]\<rparr>, Inr True) \<and> rm_LambdaMax rp = 2 \<and> length (rm_Steps rp) = 3" for i res
    using demo_ramp [of "demo_options\<lparr>op_Seed := add64 (op_Seed demo_options) (int i * int maxRampSteps)\<rparr>"]
    by (auto simp: demo_options_def cal_ramp_def Let_def)
  obtain x where x: "cal_ramp fl (\<lambda>_ _. None) (\<lambda>i k. RunStep fl (\<lambda>x. 1) demo_hist demo_loader (demo_live k)) demo_options 0 new_calibration
      = (new_calibration\<lparr>cr_Ramps := [x]\<rparr>, Inr True)" "rm_LambdaMax x = 2" "length (rm_Steps x) = 3"
    using one [of 0 new_calibration] by (auto simp: new_calibration_def)
  obtain y where y: "cal_ramp fl (\<lambda>_ _. None) (\<lambda>i k. RunStep fl (\<lambda>x. 1) demo_hist demo_loader (demo_live k)) demo_options 1 (new_calibration\<lparr>cr_Ramps := [x]\<rparr>)
      = (new_calibration\<lparr>cr_Ramps := [x, y]\<rparr>, Inr True)" "rm_LambdaMax y = 2" "length (rm_Steps y) = 3"
    using one [of 1 "new_calibration\<lparr>cr_Ramps := [x]\<rparr>"] by auto
  have "0 \<le> fl (fl (1 / 10) * 2)" by (intro f64.rnd_nonneg mult_nonneg_nonneg) simp_all
  then have "\<not> disagree fl 2 2" by (simp add: disagree_def f64.rnd_0)
  then have "Calibrate fl (\<lambda>_ _. None) (\<lambda>i k. RunStep fl (\<lambda>x. 1) demo_hist demo_loader (demo_live k)) demo_options
      = (decided fl 2 Agreed (new_calibration\<lparr>cr_Ramps := [x, y]\<rparr>), None)"
    using x y by (simp add: Calibrate_def Let_def)
  then show ?thesis using x y by (simp add: decided_facts)
qed

theorem calibration_decision_witness:
  "\<exists>res. Calibrate fl (\<lambda>_ _. None) (\<lambda>i k. RunStep fl (\<lambda>x. 1) demo_hist demo_loader (demo_live k)) demo_options = (res, None)
     \<and> cr_LambdaMax res = 2 \<and> cr_LambdaR res = fl (fl (65 / 100) * 2) \<and> cr_LoadRateRPS res = fl (2 * cr_LambdaR res)
     \<and> (\<exists>r0 r1. cr_Ramps res = [r0, r1] \<and> rm_Valid r0 \<and> rm_Valid r1 \<and> cr_LambdaMax res \<in> {rm_LambdaMax r0, rm_LambdaMax r1})"
proof -
  obtain res where "Calibrate fl (\<lambda>_ _. None) (\<lambda>i k. RunStep fl (\<lambda>x. 1) demo_hist demo_loader (demo_live k)) demo_options = (res, None)"
    "cr_Valid res" "cr_LambdaMax res = 2" "length (cr_Ramps res) = 2" using demo_calibration by blast
  note res = this
  note d = mp [OF calibration_decision [where live = "\<lambda>i. demo_live", OF res(1), THEN conjunct2, THEN conjunct2, THEN conjunct2, THEN conjunct1] res(2)]
  have "cr_LambdaR res = fl (fl (65 / 100) * cr_LambdaMax res)" "cr_LoadRateRPS res = fl (2 * cr_LambdaR res)" "\<forall>rp\<in>set (cr_Ramps res). rm_Valid rp"
    "cr_LambdaMax res \<in> set (map rm_LambdaMax (cr_Ramps res))"
    using d by - (elim conjE, assumption)+
  moreover obtain r0 r1 where "cr_Ramps res = [r0, r1]" using res(4) by (auto simp: length_Suc_conv numeral_2_eq_2)
  ultimately show ?thesis using res by auto
qed

theorem calibration_seeds_distinct_witness:
  "\<exists>res. Calibrate fl (\<lambda>_ _. None) (\<lambda>i k. RunStep fl (\<lambda>x. 1) demo_hist demo_loader (demo_live k)) demo_options = (res, None)
     \<and> sp_Seed (cp_Spec (rm_Steps (cr_Ramps res ! 0) ! 2)) \<noteq> sp_Seed (cp_Spec (rm_Steps (cr_Ramps res ! 1) ! 0))"
proof -
  obtain res where res: "Calibrate fl (\<lambda>_ _. None) (\<lambda>i k. RunStep fl (\<lambda>x. 1) demo_hist demo_loader (demo_live k)) demo_options = (res, None)"
    "length (cr_Ramps res) = 2" "\<forall>rp\<in>set (cr_Ramps res). length (rm_Steps rp) = 3" using demo_calibration by blast
  then have "length (rm_Steps (cr_Ramps res ! 0)) = 3" "length (rm_Steps (cr_Ramps res ! 1)) = 3" by simp_all
  then show ?thesis using res(1,2) calibration_seeds_distinct [where live = "\<lambda>i. demo_live", OF res(1), of 0 2 1 0] by auto
qed

end
