(* ===== verification/Spec2Isabelle.thy ===== *)
theory Spec2Isabelle
  imports LedgerProps Incidence Client DetectRun Ladder Schedule ReleaseConfig Ceiling Sse Stats Calibrate
begin

text \<open>
  Percentes measures inference endpoints: a load generator dispatches a fixed schedule of streaming requests, a fault is
  injected, and what the client saw is turned into window statistics, completion-incidence curves, a time to recovery, gates
  and a verdict. Hosted endpoints cost money and have limits, so that every request of a release is admitted by a ledger and
  lies below the ceilings that the limits leave. This development models the parts that decide what a
  measurement means and what it may spend. All paths are below \<^verbatim>\<open>src/\<close>.

  \<^bold>\<open>How the parts interact.\<close> A release configuration (\<open>ReleaseConfig\<close>) records the target's limits. The ladder
  (\<open>Ladder\<close>) fixes the requests of a cell, the ceiling rule (\<open>Ceiling\<close>) says how much of it the limits admit, and the
  temporal frame (\<open>Schedule\<close>) fixes when the cells run. Every cell reserves its requests in the ledger (\<open>Ledger\<close>) before
  it sends and settles them afterwards. The bytes of an answer are framed as server-sent events (\<open>Sse\<close>). The
  requests' records (\<open>Client\<close>) are collected per window (\<open>Collector\<close>, \<open>Incidence\<close>, \<open>Thresholds\<close>), the recovery is detected on
  the per-second series (\<open>Detect\<close>, \<open>DetectRun\<close>), and all of this is composed by the analysis of a run (\<open>RunAnalysis\<close>), whose result is
  recorded and replayed (\<open>Replay\<close>), gated (\<open>Validity\<close>) and summarised over repetitions (\<open>Stats\<close>).

  \<^bold>\<open>Foundations.\<close>
  \<^item> \<open>Prelude\<close>: Go's \<open>int\<close> as 64-bit two's complement with the wrap-around written out (\<open>add64\<close>, \<open>sub64\<close>), truncation
    of a float64 to an integer, lemmas on sorting, association lists and ranks.
  \<^item> \<open>Float64\<close>: float64 as the dyadic rationals of 53 bits with round-to-nearest-even \<open>fl\<close>; it is monotone, keeps
    representable numbers and its relative error is bounded. The locale of a rounding is interpreted by \<open>fl\<close> and by the
    identity, so that a lemma proved once holds for the code's arithmetic and for exact arithmetic. Overflow to
    infinities, not-a-number and subnormals are outside the model.

  \<^bold>\<open>The admission ledger\<close> (\<^verbatim>\<open>internal/admission/ledger.go\<close>).
  \<^item> \<open>Decimal\<close>: amounts as decimal texts (\<open>decimal\<close>, \<open>decimalString\<close>); \<open>Calendar\<close>: the proleptic Gregorian calendar.
  \<^item> \<open>Ledger\<close>: entries, state, \<open>Parse\<close> (line numbers and the hash chain), \<open>apply_entry\<close> for each kind of entry, liability, the
    caps and the operations \<open>Create\<close>, \<open>RecordPrice\<close>, \<open>RecordHosting\<close>, \<open>Admit\<close>, \<open>AdmitAt\<close>, \<open>Settle\<close>. The file is its list of bytes.
  \<^item> \<open>LedgerInv\<close>, \<open>LedgerOps\<close>, \<open>LedgerProps\<close>: every file that any sequence of operations can leave parses, its books balance, a
    granted admission keeps every cap, settling replaces the reservation by what was sent, a refusal charges nothing, the hash
    chain is checked, and the counts wrap where the code adds without a check.

  \<^bold>\<open>Statistics of a run\<close> (\<^verbatim>\<open>internal/collect\<close>, \<^verbatim>\<open>internal/detect\<close>, \<^verbatim>\<open>internal/loadgen/gates.go\<close>, \<^verbatim>\<open>internal/stats\<close>).
  \<^item> \<open>Incidence\<close>: \<open>estimate_incidence\<close> equals the textbook Aalen-Johansen curve in exact arithmetic and keeps the shape of an
    incidence curve in float64; \<open>quantile\<close> is the first crossing.
  \<^item> \<open>Client\<close>: the request record and the client-validity gate with its exact condition.
  \<^item> \<open>Collector\<close>: \<open>Collect_stats\<close> counts every request of a window once; the in-flight accounting at the fire is complete.
    \<open>Thresholds\<close>: the threshold statement, the modal latency and the receive-path report.
  \<^item> \<open>Detect\<close>, \<open>DetectRun\<close>: the series, the hysteresis scan (the first entry whose hold stays at the bar), baselines, deficit,
    sensitivity sweep and decomposition.
  \<^item> \<open>Stats\<close>: the Holm procedure is a step-down procedure, agrees with its adjusted values and dominates Bonferroni's; the scalar
    summary is coherent.

  \<^bold>\<open>Schedules and limits\<close> (\<^verbatim>\<open>internal/loadgen/schedule.go\<close>, \<^verbatim>\<open>internal/schedule\<close>, \<^verbatim>\<open>internal/config\<close>, \<^verbatim>\<open>internal/admission/ceiling.go\<close>,
  \<^verbatim>\<open>sent.go\<close>).
  \<^item> \<open>Ladder\<close>: the dispatch schedule and the release ladder over the generator's draws: the steps tile the schedule, and it is
    built whenever the draws carry the clock forward.
  \<^item> \<open>Schedule\<close>: the temporal frame derived from its committed input; runs of a route never overlap; a committed frame
    loads back and no other does.
  \<^item> \<open>ReleaseConfig\<close>: validators of limits, rulings, documents and headers; what a confidential limit withholds.
  \<^item> \<open>Ceiling\<close>: the rule admits an opening of the ladder; when its published verdict passes its own check.

  \<^bold>\<open>A run\<close> (\<^verbatim>\<open>internal/sse\<close>, \<^verbatim>\<open>internal/run\<close>, \<^verbatim>\<open>internal/validity\<close>).
  \<^item> \<open>Sse\<close>: \<open>SplitLines\<close> and \<open>Events\<close>. The scanner is a step relation in which reads return any non-empty part of what
    is left, so that every interleaving of reads and tokens is a path; it refines the lines of the whole stream and always ends.
  \<^item> \<open>RunAnalysis\<close>: \<open>analyze\<close> with all its windows, gates and reasons: the windows tile the run, it fails exactly on unrecordable
    requests and never panics.
  \<^item> \<open>Replay\<close>: record, canary summary and replay: a replay restores the run.
  \<^item> \<open>Validity\<close>: the gates G1 to G7; the label of a node loss is attested and the gates agree with the analysis.

  \<^bold>\<open>Parameters.\<close> Code outside the repository is an argument of the definitions that use it: SHA-256 and the JSON codec of
  ledger lines and schedules, the square root, the histogram package (its summary and the bound of recordable values), and
  the generator as the sequence of its draws. What a theorem needs of one is a hypothesis in its statement, and its witness
  instantiates the parameter. Definitions that round take the rounding as an argument: \<open>fl\<close> is the code's arithmetic, the
  identity exact arithmetic.

  \<^bold>\<open>Loops and bounds.\<close> Almost every loop is structural recursion over the data the code ranges over. The search for the shortest
  exact decimal and the fifteen candidate dates of a cell are bounded by the code itself; the attempts at a frame end by a
  measure on the code's counter. The thinning loop of the Poisson ladder may not end for adverse draws: it is a partial function into
  options, and its termination is a theorem with a condition on the draws. The scanner has no fuel: \<open>scan_work\<close> decreases at each step.

  \<^bold>\<open>Not modelled.\<close> The commands, the streaming HTTP client, the canary loop, the probes, the injectors, the mock server and the
  scrapers perform input and output over live systems; evidence and report packages write and format what the modelled
  packages compute; the pilot fixture is text. Of the configuration only the validators named above are modelled, and the
  other packages see the fields they read. \<open>Execute\<close>, which starts goroutines around \<open>analyze\<close>, is not modelled. File-system errors of
  the ledger and its lock are outside the model: an operation is the change of the file's bytes under the lock.
\<close>

end
